(* ===== verification/Prelude.thy ===== *)
theory Prelude
  imports Main "HOL-Library.Word"
begin

text \<open>
  Shared material of the development: the machine integers and byte strings the C++ code uses,
  the memory representation of unsigned integers on the little-endian hosts the system is built
  for, network byte order, decimal printing and parsing of numbers, and the byte-range operations
  behind \<^verbatim>\<open>std::copy\<close> and \<^verbatim>\<open>std::vector::resize\<close>.
  The collections \<open>codec_simps\<close> (byte encodings) and \<open>range_simps\<close> (byte ranges) carry the
  proofs of the component theories.
\<close>

named_theorems codec_simps \<open>lengths and round trips of byte encodings\<close>
named_theorems range_simps \<open>resizing and overwriting byte ranges\<close>

type_synonym u8 = "8 word"
type_synonym u16 = "16 word"
type_synonym u32 = "32 word"
type_synonym u64 = "64 word"
type_synonym bytes = "u8 list"

section \<open>Text as bytes\<close>

text \<open>A \<^verbatim>\<open>std::string\<close> is a sequence of bytes; \<open>str ''abc''\<close> is the string literal.\<close>

definition str :: "string \<Rightarrow> bytes" where
  "str s = map of_char s"

lemma str_Nil [simp]: "str [] = []"
  by (simp add: str_def)

lemma str_Cons [simp]: "str (c # cs) = of_char c # str cs"
  by (simp add: str_def)

lemma length_str [simp]: "length (str s) = length s"
  by (simp add: str_def)

section \<open>Unsigned integers in memory\<close>

text \<open>\<open>le_bytes k n\<close> are the \<open>k\<close> bytes of \<open>n\<close> in memory, lowest byte first.\<close>

fun le_bytes :: "nat \<Rightarrow> nat \<Rightarrow> bytes" where
  "le_bytes 0 n = []"
| "le_bytes (Suc k) n = of_nat (n mod 256) # le_bytes k (n div 256)"

fun le_val :: "bytes \<Rightarrow> nat" where
  "le_val [] = 0"
| "le_val (b # bs) = unat b + 256 * le_val bs"

lemma length_le_bytes [simp, codec_simps]: "length (le_bytes k n) = k"
  by (induction k arbitrary: n) auto

lemma unat_u8_less [simp]: "unat (b :: u8) < 256"
  using unsigned_less [where w = b and 'a = nat] by simp

lemma unat_u16_less [simp]: "unat (w :: u16) < 65536"
  using unsigned_less [where w = w and 'a = nat] by simp

lemma unat_u32_less [simp]: "unat (w :: u32) < 4294967296"
  using unsigned_less [where w = w and 'a = nat] by simp

lemma unat_ucast_16_32 [simp]: "unat (ucast (w :: u16) :: u32) = unat w"
  by (simp add: unsigned_ucast_eq take_bit_nat_eq_self_iff less_trans [OF unat_u16_less])

lemma unat_ucast_16_64 [simp]: "unat (ucast (w :: u16) :: u64) = unat w"
  by (simp add: unsigned_ucast_eq take_bit_nat_eq_self_iff less_trans [OF unat_u16_less])

lemma unat_ucast_32_64 [simp]: "unat (ucast (w :: u32) :: u64) = unat w"
  by (simp add: unsigned_ucast_eq take_bit_nat_eq_self_iff less_trans [OF unat_u32_less])

lemma unat_max: "unat (max a b :: 'a::len word) = max (unat a) (unat b)"
  by (simp add: max_def word_le_nat_alt)

lemma unat_min: "unat (min a b :: 'a::len word) = min (unat a) (unat b)"
  by (simp add: min_def word_le_nat_alt)

lemma unat_of_nat_u8 [simp]: "unat (of_nat (n mod 256) :: u8) = n mod 256"
  by (simp add: unat_of_nat)

lemma le_val_le_bytes [simp, codec_simps]: "le_val (le_bytes k n) = n mod 256 ^ k"
proof (induction k arbitrary: n)
  case 0
  then show ?case by simp
next
  case (Suc k)
  then show ?case by (simp add: mod_mult2_eq)
qed

lemma le_val_less: "le_val bs < 256 ^ length bs"
proof (induction bs)
  case (Cons b bs)
  have "unat b < 256" and "le_val bs + 1 \<le> 256 ^ length bs"
    using Cons by simp_all
  then have "unat b + 256 * le_val bs < 256 * (le_val bs + 1)"
    by simp
  also have "\<dots> \<le> 256 * 256 ^ length bs"
    using Cons by simp
  finally show ?case by simp
qed simp

lemma le_bytes_le_val [simp, codec_simps]: "k = length bs \<Longrightarrow> le_bytes k (le_val bs) = bs"
  by (induction bs arbitrary: k) auto

text \<open>Copying an integer to or from a byte buffer (\<^verbatim>\<open>std::memcpy\<close> of its object representation).\<close>

definition mem16 :: "u16 \<Rightarrow> bytes" where
  "mem16 w = le_bytes 2 (unat w)"

definition mem32 :: "u32 \<Rightarrow> bytes" where
  "mem32 w = le_bytes 4 (unat w)"

definition of_mem16 :: "bytes \<Rightarrow> u16" where
  "of_mem16 bs = of_nat (le_val bs)"

definition of_mem32 :: "bytes \<Rightarrow> u32" where
  "of_mem32 bs = of_nat (le_val bs)"

lemma length_mem16 [simp, codec_simps]: "length (mem16 w) = 2"
  by (simp add: mem16_def)

lemma length_mem32 [simp, codec_simps]: "length (mem32 w) = 4"
  by (simp add: mem32_def)

lemma of_mem16_mem16 [simp, codec_simps]: "of_mem16 (mem16 w) = w"
  by (simp add: of_mem16_def mem16_def)

lemma of_mem32_mem32 [simp, codec_simps]: "of_mem32 (mem32 w) = w"
  by (simp add: of_mem32_def mem32_def)

lemma mem16_of_mem16 [simp, codec_simps]: "length bs = 2 \<Longrightarrow> mem16 (of_mem16 bs) = bs"
  using le_val_less [of bs] by (simp add: of_mem16_def mem16_def unat_of_nat)

lemma mem32_of_mem32 [simp, codec_simps]: "length bs = 4 \<Longrightarrow> mem32 (of_mem32 bs) = bs"
  using le_val_less [of bs] by (simp add: of_mem32_def mem32_def unat_of_nat)

text \<open>
  \<^verbatim>\<open>htons\<close>, \<^verbatim>\<open>htonl\<close> and their inverses reverse the bytes of the object representation on a
  little-endian host.
\<close>

definition hton16 :: "u16 \<Rightarrow> u16" where
  "hton16 w = of_mem16 (rev (mem16 w))"

definition hton32 :: "u32 \<Rightarrow> u32" where
  "hton32 w = of_mem32 (rev (mem32 w))"

definition ntoh16 :: "u16 \<Rightarrow> u16" where
  "ntoh16 w = of_mem16 (rev (mem16 w))"

definition ntoh32 :: "u32 \<Rightarrow> u32" where
  "ntoh32 w = of_mem32 (rev (mem32 w))"

lemma mem16_hton16 [codec_simps]: "mem16 (hton16 w) = rev (mem16 w)"
  by (simp add: hton16_def)

lemma mem32_hton32 [codec_simps]: "mem32 (hton32 w) = rev (mem32 w)"
  by (simp add: hton32_def)

lemma ntoh16_hton16 [simp, codec_simps]: "ntoh16 (hton16 w) = w"
  by (simp add: ntoh16_def hton16_def)

lemma ntoh32_hton32 [simp, codec_simps]: "ntoh32 (hton32 w) = w"
  by (simp add: ntoh32_def hton32_def)

lemma hton16_ntoh16 [simp, codec_simps]: "hton16 (ntoh16 w) = w"
  by (simp add: ntoh16_def hton16_def)

lemma hton32_ntoh32 [simp, codec_simps]: "hton32 (ntoh32 w) = w"
  by (simp add: ntoh32_def hton32_def)

section \<open>Byte ranges\<close>

text \<open>\<open>slice off n bs\<close> is the range of \<open>n\<close> bytes at \<open>off\<close>, as read by \<^verbatim>\<open>std::memcpy\<close>.\<close>

definition slice :: "nat \<Rightarrow> nat \<Rightarrow> 'a list \<Rightarrow> 'a list" where
  "slice off n bs = take n (drop off bs)"

text \<open>\<open>resize n bs\<close> is \<^verbatim>\<open>std::vector::resize\<close>: cut, or filled up with zero bytes.\<close>

definition resize :: "nat \<Rightarrow> bytes \<Rightarrow> bytes" where
  "resize n bs = take n bs @ replicate (n - length bs) 0"

text \<open>
  \<open>overwrite pos src dst\<close> is \<^verbatim>\<open>std::copy\<close> of all of \<open>src\<close> to \<open>dst + pos\<close>; it is undefined
  behaviour, here \<open>None\<close>, when the range does not lie inside the destination.
\<close>

definition overwrite :: "nat \<Rightarrow> 'a list \<Rightarrow> 'a list \<Rightarrow> 'a list option" where
  "overwrite pos src dst =
     (if pos + length src \<le> length dst
      then Some (take pos dst @ src @ drop (pos + length src) dst) else None)"

lemma length_resize [simp, range_simps]: "length (resize n bs) = n"
  by (simp add: resize_def)

lemma nth_resize [range_simps]:
  "i < n \<Longrightarrow> resize n bs ! i = (if i < length bs then bs ! i else 0)"
  by (auto simp: resize_def nth_append)

lemma resize_same [simp, range_simps]: "n = length bs \<Longrightarrow> resize n bs = bs"
  by (simp add: resize_def)

lemma length_slice [simp, range_simps]: "length (slice off n bs) = min n (length bs - off)"
  by (simp add: slice_def)

lemma nth_slice [range_simps]:
  "i < n \<Longrightarrow> off + i < length bs \<Longrightarrow> slice off n bs ! i = bs ! (off + i)"
  by (simp add: slice_def)

lemma overwrite_Some [range_simps]:
  "pos + length src \<le> length dst \<Longrightarrow>
   overwrite pos src dst = Some (take pos dst @ src @ drop (pos + length src) dst)"
  by (simp add: overwrite_def)

lemma length_overwrite [range_simps]: "overwrite pos src dst = Some r \<Longrightarrow> length r = length dst"
  by (auto simp: overwrite_def split: if_splits)

lemma nth_overwrite [range_simps]:
  "overwrite pos src dst = Some r \<Longrightarrow> i < length dst \<Longrightarrow>
   r ! i = (if pos \<le> i \<and> i < pos + length src then src ! (i - pos) else dst ! i)"
  by (auto simp: overwrite_def nth_append min_def split: if_splits)

lemma slice_overwrite [range_simps]:
  "overwrite pos src dst = Some r \<Longrightarrow> slice pos (length src) r = src"
  by (auto simp: overwrite_def slice_def split: if_splits)

lemma slice_append_left [simp, range_simps]:
  "off = length xs \<Longrightarrow> n = length ys \<Longrightarrow> slice off n (xs @ ys @ zs) = ys"
  by (simp add: slice_def)

lemma slice_append_end [simp, range_simps]:
  "off = length xs \<Longrightarrow> n = length ys \<Longrightarrow> slice off n (xs @ ys) = ys"
  by (simp add: slice_def)

lemma slice_0 [simp, range_simps]: "n = length ys \<Longrightarrow> slice 0 n (ys @ zs) = ys"
  by (simp add: slice_def)

lemma slice_join [range_simps]:
  "b = a + n \<Longrightarrow> slice a n bs @ slice b m bs = slice a (n + m) bs"
  by (simp add: slice_def take_add add.commute [of n a])

lemma slice_join_append [range_simps]:
  "b = a + n \<Longrightarrow> slice a n bs @ slice b m bs @ cs = slice a (n + m) bs @ cs"
  using slice_join [of b a n bs m] by (metis append_assoc)

lemma slice_all [simp, range_simps]: "n = length bs \<Longrightarrow> slice 0 n bs = bs"
  by (simp add: slice_def)

lemma slice_single [range_simps]: "off < length bs \<Longrightarrow> [hd (slice off 1 bs)] = slice off 1 bs"
  by (simp add: slice_def take_Suc hd_drop_conv_nth)

lemma overwrite_prefix [range_simps]:
  "overwrite 0 (take n xs) (replicate n 0) = Some (resize n xs)"
  by (simp add: overwrite_def resize_def min_def)

section \<open>Decimal numbers\<close>

text \<open>\<^verbatim>\<open>std::to_string\<close> of an unsigned number: its decimal digits.\<close>

fun to_string :: "nat \<Rightarrow> bytes" where
  "to_string n = (if n < 10 then [of_nat (48 + n)] else to_string (n div 10) @ [of_nat (48 + n mod 10)])"

declare to_string.simps [simp del]

definition is_digit :: "u8 \<Rightarrow> bool" where
  "is_digit b \<longleftrightarrow> 48 \<le> unat b \<and> unat b \<le> 57"

fun dec_val :: "nat \<Rightarrow> bytes \<Rightarrow> nat" where
  "dec_val acc [] = acc"
| "dec_val acc (b # bs) = dec_val (acc * 10 + (unat b - 48)) bs"

lemma unat_digit [simp]: "d < 10 \<Longrightarrow> unat (of_nat (48 + d) :: u8) = 48 + d"
  by (simp add: unat_of_nat del: of_nat_add)

lemma is_digit_of_nat: "d < 10 \<Longrightarrow> is_digit (of_nat (48 + d))"
  by (simp add: is_digit_def del: of_nat_add)

lemma to_string_digits: "list_all is_digit (to_string n)"
proof (induction n rule: to_string.induct)
  case (1 n)
  show ?case
  proof (cases "n < 10")
    case True
    then show ?thesis by (simp add: to_string.simps [of n] is_digit_of_nat del: of_nat_add)
  next
    case False
    with 1 show ?thesis
      by (simp add: to_string.simps [of n] is_digit_of_nat del: of_nat_add)
  qed
qed

lemma to_string_not_Nil [simp]: "to_string n \<noteq> []"
  by (simp add: to_string.simps [of n])

lemma dec_val_append: "dec_val acc (xs @ ys) = dec_val (dec_val acc xs) ys"
  by (induction xs arbitrary: acc) auto

lemma dec_val_to_string [simp, codec_simps]: "dec_val 0 (to_string n) = n"
proof (induction n rule: to_string.induct)
  case (1 n)
  show ?case
  proof (cases "n < 10")
    case True
    then show ?thesis by (simp add: to_string.simps [of n] del: of_nat_add)
  next
    case False
    with 1 show ?thesis by (simp add: to_string.simps [of n] dec_val_append del: of_nat_add)
  qed
qed

lemma to_string_inject: "to_string m = to_string n \<longleftrightarrow> m = n"
  by (metis dec_val_to_string)

text \<open>
  \<^verbatim>\<open>std::stoll\<close>: leading white space, an optional sign, the longest run of digits; it throws
  (here \<open>None\<close>) when there is no digit or when the value does not fit a \<^verbatim>\<open>long long\<close>.
\<close>

definition is_space :: "u8 \<Rightarrow> bool" where
  "is_space b \<longleftrightarrow> b = 32 \<or> (9 \<le> unat b \<and> unat b \<le> 13)"

definition stoll :: "bytes \<Rightarrow> int option" where
  "stoll s =
     (let t = dropWhile is_space s;
          neg = (t \<noteq> [] \<and> hd t = 45);
          u = (if t \<noteq> [] \<and> (hd t = 45 \<or> hd t = 43) then tl t else t);
          ds = takeWhile is_digit u;
          v = (if neg then - int (dec_val 0 ds) else int (dec_val 0 ds))
      in if ds = [] \<or> v < - (2 ^ 63) \<or> v \<ge> 2 ^ 63 then None else Some v)"

lemma digit_not_special: "is_digit b \<Longrightarrow> \<not> is_space b \<and> b \<noteq> 45 \<and> b \<noteq> 43"
  by (auto simp: is_digit_def is_space_def)

lemma takeWhile_all: "list_all P xs \<Longrightarrow> takeWhile P xs = xs"
  by (induction xs) auto

lemma stoll_to_string [codec_simps]:
  assumes "n < 2 ^ 63"
  shows "stoll (to_string n) = Some (int n)"
proof -
  obtain b bs where eq: "to_string n = b # bs"
    by (cases "to_string n") auto
  have ds: "list_all is_digit (b # bs)"
    using to_string_digits [of n] by (simp add: eq)
  then have b: "\<not> is_space b" "b \<noteq> 45" "b \<noteq> 43"
    by (simp_all add: digit_not_special)
  have "dec_val 0 (b # bs) = n"
    using dec_val_to_string [of n] by (simp only: eq)
  moreover have "takeWhile is_digit (b # bs) = b # bs"
    using ds by (rule takeWhile_all)
  ultimately show ?thesis
    using assms b by (simp add: stoll_def eq Let_def)
qed

end
