(* ===== verification/Framing.thy ===== *)
theory Framing
  imports Prelude
begin

text \<open>
  The framing that every connection of the system shares: a header of fixed size, parsed first,
  and then as many body bytes as the header asks for. \<open>read_frame\<close> is one turn of
  \<^verbatim>\<open>start_read_header\<close> followed by the body read of the handler it selects; \<open>read_frames\<close> is the
  loop. The locale \<open>wire_header\<close> is the interface a header format offers; \<open>Pack\<close> and
  \<open>Leveldb_Pack\<close> interpret it. The locale \<open>hash_compare\<close> is the contract of the hash-and-equality
  pairs handed to the concurrent hash maps.
\<close>

section \<open>Frames\<close>

definition read_frame ::
  "(bytes \<Rightarrow> 'h) \<Rightarrow> nat \<Rightarrow> ('h \<Rightarrow> nat) \<Rightarrow> bytes \<Rightarrow> (('h \<times> bytes) \<times> bytes) option" where
  "read_frame parse hsize body_len s =
     (if length s < hsize then None
      else let h = parse (take hsize s); r = drop hsize s
           in if length r < body_len h then None
              else Some ((h, take (body_len h) r), drop (body_len h) r))"

lemma read_frame_shorter:
  "read_frame parse hsize body_len s = Some (f, r) \<Longrightarrow> 0 < hsize \<Longrightarrow> length r < length s"
  by (auto simp: read_frame_def Let_def split: if_splits)

function read_frames ::
  "(bytes \<Rightarrow> 'h) \<Rightarrow> nat \<Rightarrow> ('h \<Rightarrow> nat) \<Rightarrow> bytes \<Rightarrow> ('h \<times> bytes) list \<times> bytes" where
  "read_frames parse hsize body_len s =
     (if hsize = 0 then ([], s)
      else case read_frame parse hsize body_len s of
        None \<Rightarrow> ([], s)
      | Some (f, r) \<Rightarrow> (let (fs, rest) = read_frames parse hsize body_len r in (f # fs, rest)))"
  by pat_completeness auto
termination
  by (relation "measure (\<lambda>(parse, hsize, body_len, s). length s)") (auto dest: read_frame_shorter)

declare read_frames.simps [simp del]

locale wire_header =
  fixes dump :: "'h \<Rightarrow> bytes"
    and parse :: "bytes \<Rightarrow> 'h"
    and hsize :: nat
    and wf :: "'h \<Rightarrow> bool"
  assumes hsize_pos: "0 < hsize"
    and length_dump: "wf h \<Longrightarrow> length (dump h) = hsize"
    and parse_dump: "wf h \<Longrightarrow> parse (dump h) = h"
begin

lemma dump_inject: "wf h \<Longrightarrow> wf h' \<Longrightarrow> dump h = dump h' \<Longrightarrow> h = h'"
  by (metis parse_dump)

lemma read_frame_append:
  "wf h \<Longrightarrow> length b = body_len h \<Longrightarrow>
   read_frame parse hsize body_len (dump h @ b @ s) = Some ((h, b), s)"
  by (simp add: read_frame_def length_dump parse_dump)

lemma read_frames_stream:
  assumes "\<forall>(h, b) \<in> set fs. wf h \<and> length b = body_len h"
  shows "read_frames parse hsize body_len (concat (map (\<lambda>(h, b). dump h @ b) fs)) = (fs, [])"
  using assms
proof (induction fs)
  case Nil
  then show ?case using hsize_pos by (subst read_frames.simps) (simp add: read_frame_def)
next
  case (Cons f fs)
  obtain h b where f: "f = (h, b)" by (cases f)
  with Cons.prems have "wf h" "length b = body_len h" by auto
  with Cons hsize_pos show ?case
    by (subst read_frames.simps) (simp add: f read_frame_append)
qed

lemma read_frame_partial:
  "length s < hsize \<Longrightarrow> read_frame parse hsize body_len s = None"
  by (simp add: read_frame_def)

end

section \<open>Hash and equality\<close>

locale hash_compare =
  fixes hash :: "'k \<Rightarrow> u64"
    and equal :: "'k \<Rightarrow> 'k \<Rightarrow> bool"
    and proj :: "'k \<Rightarrow> 'p"
  assumes equal_proj: "equal a b \<longleftrightarrow> proj a = proj b"
    and hash_proj: "proj a = proj b \<Longrightarrow> hash a = hash b"
begin

lemma equal_hash: "equal a b \<Longrightarrow> hash a = hash b"
  using equal_proj hash_proj by blast

lemma equal_equivp: "equivp equal"
  by (rule equivpI) (auto simp: reflp_def symp_def transp_def equal_proj)

lemma same_bucket: "equal a b \<Longrightarrow> unat (hash a) mod n = unat (hash b) mod n"
  by (drule equal_hash) simp

end

end
