(* ===== verification/Pack.thy ===== *)
theory Pack
  imports Framing
begin

unbundle bit_operations_syntax

text \<open>
  The packets between clients, proxy and data functions:
  \<^verbatim>\<open>proxy/serializer.hpp\<close> (the same file as \<^verbatim>\<open>functions/libslsfs/slsfs/serializer.hpp\<close>).
  An enumeration with a fixed underlying type can hold any value of that type, so the header keeps
  the type as its byte and \<open>msg_of\<close> reads the enumerator off it; an unlisted byte matches no
  \<^verbatim>\<open>case\<close>. The fixed-size arrays are byte lists, with their lengths in \<open>wf_header\<close>.
\<close>

section \<open>Message types\<close>

datatype msg_t =
    Err | Put | Get | Ack | Proxyjoin | Set_timer | Cache_transfer
  | Worker_reg | Worker_dereg | Worker_push_request | Worker_response
  | Trigger | Trigger_reject

fun msg_val :: "msg_t \<Rightarrow> u8" where
  "msg_val Err = 0"
| "msg_val Put = 1"
| "msg_val Get = 2"
| "msg_val Ack = 3"
| "msg_val Proxyjoin = 4"
| "msg_val Set_timer = 5"
| "msg_val Cache_transfer = 6"
| "msg_val Worker_reg = 8"
| "msg_val Worker_dereg = 9"
| "msg_val Worker_push_request = 10"
| "msg_val Worker_response = 11"
| "msg_val Trigger = 14"
| "msg_val Trigger_reject = 15"

definition msg_list :: "msg_t list" where
  "msg_list = [Err, Put, Get, Ack, Proxyjoin, Set_timer, Cache_transfer, Worker_reg, Worker_dereg,
     Worker_push_request, Worker_response, Trigger, Trigger_reject]"

definition msg_of :: "u8 \<Rightarrow> msg_t option" where
  "msg_of b = List.find (\<lambda>m. msg_val m = b) msg_list"

text \<open>The stream output operator of the enumeration.\<close>

fun msg_print :: "msg_t \<Rightarrow> string" where
  "msg_print Err = ''ERR''"
| "msg_print Put = ''PUT''"
| "msg_print Get = ''GET''"
| "msg_print Ack = ''ACK''"
| "msg_print Proxyjoin = ''PXJON''"
| "msg_print Set_timer = ''STTMR''"
| "msg_print Worker_reg = ''W_REG''"
| "msg_print Cache_transfer = ''CACHE''"
| "msg_print Worker_dereg = ''W_DRG''"
| "msg_print Worker_push_request = ''W_REQ''"
| "msg_print Worker_response = ''W_RES''"
| "msg_print Trigger = ''TRIGG''"
| "msg_print Trigger_reject = ''TRIGF''"

lemma msg_of_val [simp]: "msg_of (msg_val m) = Some m"
  by (cases m) (simp_all add: msg_of_def msg_list_def)

lemma msg_of_Some: "msg_of b = Some m \<longleftrightarrow> b = msg_val m"
  by (metis (mono_tags, lifting) find_Some_iff msg_of_def msg_of_val)

lemma msg_val_inject: "msg_val m = msg_val m' \<longleftrightarrow> m = m'"
  by (metis msg_of_val option.inject)

lemma msg_print_inject: "msg_print m = msg_print m' \<longleftrightarrow> m = m'"
  by (cases m; cases m') simp_all

section \<open>Headers\<close>

record packet_header =
  ph_type :: u8
  ph_key :: bytes
  ph_datasize :: u32
  ph_sequence :: bytes
  ph_random_salt :: bytes

definition bytesize :: nat where
  "bytesize = 4 + 1 + 32 + 4 + 4"

definition wf_header :: "packet_header \<Rightarrow> bool" where
  "wf_header h \<longleftrightarrow> length (ph_key h) = 32 \<and> length (ph_sequence h) = 4 \<and> length (ph_random_salt h) = 4"

definition set_type :: "msg_t \<Rightarrow> packet_header \<Rightarrow> packet_header" where
  "set_type m h = h\<lparr>ph_type := msg_val m\<rparr>"

definition header_empty :: "packet_header \<Rightarrow> bool" where
  "header_empty h \<longleftrightarrow> list_all (\<lambda>c. c = 0) (ph_key h) \<and> list_all (\<lambda>c. c = 0) (ph_sequence h)"

definition parse :: "bytes \<Rightarrow> packet_header" where
  "parse pos =
     \<lparr>ph_type = hd (slice 0 1 pos),
      ph_key = slice 1 32 pos,
      ph_datasize = ntoh32 (of_mem32 (slice 41 4 pos)),
      ph_sequence = slice 33 4 pos,
      ph_random_salt = slice 37 4 pos\<rparr>"

definition dump :: "packet_header \<Rightarrow> bytes" where
  "dump h = [ph_type h] @ ph_key h @ ph_sequence h @ ph_random_salt h @ mem32 (hton32 (ph_datasize h))"

definition is_trigger :: "packet_header \<Rightarrow> bool" where
  "is_trigger h \<longleftrightarrow> last (ph_random_salt h) = 0"

text \<open>
  \<^verbatim>\<open>gen\<close> draws salt and sequence from a random engine; the drawn bytes are arguments, each in
  \<open>1..255\<close>.
\<close>

definition gen_random_salt :: "bytes \<Rightarrow> packet_header \<Rightarrow> packet_header" where
  "gen_random_salt drawn h = h\<lparr>ph_random_salt := drawn\<rparr>"

definition gen_sequence :: "bytes \<Rightarrow> packet_header \<Rightarrow> packet_header" where
  "gen_sequence drawn h = h\<lparr>ph_sequence := drawn\<rparr>"

definition gen :: "bytes \<Rightarrow> bytes \<Rightarrow> packet_header \<Rightarrow> packet_header" where
  "gen salt sequ h = gen_sequence sequ (gen_random_salt salt h)"

definition drawn_ok :: "bytes \<Rightarrow> bool" where
  "drawn_ok bs \<longleftrightarrow> length bs = 4 \<and> list_all (\<lambda>b. 1 \<le> unat b) bs"

section \<open>Packets\<close>

record packet =
  pk_header :: packet_header
  pk_buf :: bytes

definition data_parse :: "nat \<Rightarrow> bytes \<Rightarrow> bytes" where
  "data_parse n pos = take n pos"

text \<open>
  \<^verbatim>\<open>packet::serialize\<close> stores the buffer size in the header and allocates header size plus that
  size, both 32-bit computations; when one of them wraps, header and buffer are copied past the end of
  the allocation (\<open>None\<close>).
\<close>

definition serialize :: "packet \<Rightarrow> (packet \<times> bytes) option" where
  "serialize p =
     (let p' = p\<lparr>pk_header := (pk_header p)\<lparr>ph_datasize := of_nat (length (pk_buf p))\<rparr>\<rparr>
      in if bytesize + length (pk_buf p) \<le> unat (of_nat bytesize + ph_datasize (pk_header p'))
         then Some (p', dump (pk_header p') @ pk_buf p) else None)"

definition packet_empty :: "packet \<Rightarrow> bool" where
  "packet_empty p \<longleftrightarrow> header_empty (pk_header p)"

section \<open>Hashes and comparisons\<close>

definition hash_combine :: "u64 \<Rightarrow> u8 \<Rightarrow> u64" where
  "hash_combine seed v = seed XOR (ucast v + 0x9e3779b9 + push_bit 6 seed + drop_bit 2 seed)"

definition hash_range :: "u64 \<Rightarrow> bytes \<Rightarrow> u64" where
  "hash_range seed bs = foldl hash_combine seed bs"

definition packet_header_key_hash :: "packet_header \<Rightarrow> u64" where
  "packet_header_key_hash h = hash_range 0x1b873593 (ph_key h)"

definition packet_header_key_compare :: "packet_header \<Rightarrow> packet_header \<Rightarrow> bool" where
  "packet_header_key_compare a b \<longleftrightarrow> ph_key a = ph_key b"

definition packet_header_full_key_hash :: "packet_header \<Rightarrow> u64" where
  "packet_header_full_key_hash h =
     hash_range (hash_range (hash_range 0x1b873593 (ph_key h)) (ph_random_salt h)) (ph_sequence h)"

definition packet_header_full_key_compare :: "packet_header \<Rightarrow> packet_header \<Rightarrow> bool" where
  "packet_header_full_key_compare a b \<longleftrightarrow>
     ph_key a = ph_key b \<and> ph_random_salt a = ph_random_salt b \<and> ph_sequence a = ph_sequence b"

text \<open>The projections that the two comparisons identify headers by.\<close>

definition full_key :: "packet_header \<Rightarrow> bytes \<times> bytes \<times> bytes" where
  "full_key h = (ph_key h, ph_random_salt h, ph_sequence h)"

interpretation key_cmp: hash_compare packet_header_key_hash packet_header_key_compare ph_key
  by unfold_locales (auto simp: packet_header_key_compare_def packet_header_key_hash_def)

interpretation full_key_cmp:
  hash_compare packet_header_full_key_hash packet_header_full_key_compare full_key
  by unfold_locales
    (auto simp: packet_header_full_key_compare_def packet_header_full_key_hash_def full_key_def)

section \<open>Round trips\<close>

lemma slice_at [codec_simps]:
  "length xs = off \<Longrightarrow> length ys = n \<Longrightarrow> slice off n (xs @ ys @ zs) = ys"
  by simp

lemma length_dump_header: "wf_header h \<Longrightarrow> length (dump h) = bytesize"
  by (simp add: wf_header_def dump_def bytesize_def)

lemma parse_dump_header: "wf_header h \<Longrightarrow> parse (dump h) = h"
  by (cases h) (simp add: wf_header_def dump_def parse_def slice_def)

lemma wf_header_parse: "length bs = bytesize \<Longrightarrow> wf_header (parse bs)"
  by (simp add: wf_header_def parse_def bytesize_def)

lemma dump_parse_header:
  assumes "length bs = bytesize"
  shows "dump (parse bs) = bs"
proof -
  have "[hd (slice 0 1 bs)] = slice 0 1 bs"
    using assms by (intro slice_single) (simp add: bytesize_def)
  then have "dump (parse bs) =
      slice 0 1 bs @ slice 1 32 bs @ slice 33 4 bs @ slice 37 4 bs @ slice 41 4 bs"
    using assms by (simp add: dump_def parse_def bytesize_def)
  also have "\<dots> = slice 0 45 bs"
    by (simp add: slice_join slice_join_append)
  also have "\<dots> = bs"
    using assms by (simp add: bytesize_def)
  finally show ?thesis .
qed

interpretation pack_wire: wire_header dump parse bytesize wf_header
  by unfold_locales (simp_all add: length_dump_header parse_dump_header bytesize_def)

definition sized :: "packet \<Rightarrow> packet_header" where
  "sized p = (pk_header p)\<lparr>ph_datasize := of_nat (length (pk_buf p))\<rparr>"

lemma wf_sized [simp]: "wf_header (sized p) = wf_header (pk_header p)"
  by (simp add: sized_def wf_header_def)

lemma serialize_Some:
  "bytesize + length (pk_buf p) < 2 ^ 32 \<Longrightarrow>
   serialize p = Some (p\<lparr>pk_header := sized p\<rparr>, dump (sized p) @ pk_buf p) \<and>
   unat (ph_datasize (sized p)) = length (pk_buf p)"
  by (simp add: serialize_def sized_def bytesize_def unat_of_nat unat_word_ariths)

lemma serialized_frames_len:
  assumes "\<forall>p \<in> set ps. wf_header (pk_header p) \<and> bytesize + length (pk_buf p) < 2 ^ 32 \<and> body_len (sized p) = length (pk_buf p)"
  shows "list_all (\<lambda>p. serialize p \<noteq> None) ps \<and>
    read_frames parse bytesize body_len (concat (map (snd \<circ> the \<circ> serialize) ps)) = (map (\<lambda>p. (sized p, pk_buf p)) ps, [])"
proof -
  let ?fs = "map (\<lambda>p. (sized p, pk_buf p)) ps"
  have ser: "serialize p = Some (p\<lparr>pk_header := sized p\<rparr>, dump (sized p) @ pk_buf p)" if "p \<in> set ps" for p
    using serialize_Some [of p] assms that by blast
  have "concat (map (snd \<circ> the \<circ> serialize) ps) = concat (map (\<lambda>(h, b). dump h @ b) ?fs)"
    by (rule arg_cong [where f = concat]) (simp add: ser cong: map_cong)
  moreover have "\<forall>(h, b) \<in> set ?fs. wf_header h \<and> length b = body_len h"
    using assms by auto
  ultimately show ?thesis
    using pack_wire.read_frames_stream [of ?fs body_len] ser by (simp add: list_all_iff)
qed

lemma serialized_frames:
  assumes "\<forall>p \<in> set ps. wf_header (pk_header p) \<and> bytesize + length (pk_buf p) < 2 ^ 32"
  shows "list_all (\<lambda>p. serialize p \<noteq> None) ps \<and>
    read_frames parse bytesize (\<lambda>h. unat (ph_datasize h)) (concat (map (snd \<circ> the \<circ> serialize) ps))
      = (map (\<lambda>p. (sized p, pk_buf p)) ps, [])"
  using assms serialize_Some by (intro serialized_frames_len) blast

section \<open>Properties\<close>

text \<open>
  Header codec. Dumping a well-formed header fills exactly the 45 bytes of
  \<^verbatim>\<open>packet_header::bytesize\<close> and parsing them gives the header back; conversely every buffer of that
  size is the dump of the header parsed from it, so the wire format has no redundancy.
\<close>

theorem header_codec:
  assumes "wf_header h" and "length bs = bytesize"
  shows "length (dump h) = bytesize \<and> parse (dump h) = h \<and>
    wf_header (parse bs) \<and> dump (parse bs) = bs"
  using assms by (simp add: length_dump_header parse_dump_header wf_header_parse dump_parse_header)

definition sample_header :: packet_header where
  "sample_header = \<lparr>ph_type = msg_val Put, ph_key = replicate 32 7, ph_datasize = 258,
     ph_sequence = [1, 2, 3, 4], ph_random_salt = [5, 6, 7, 8]\<rparr>"

lemma wf_sample_header: "wf_header sample_header"
  by (simp add: wf_header_def sample_header_def)

theorem header_codec_witness:
  "parse (dump sample_header) = sample_header \<and> dump (parse (replicate 45 9)) = replicate 45 9"
  using header_codec [of sample_header "replicate 45 9"] wf_sample_header
  by (simp add: bytesize_def)

text \<open>
  C40. Streams of packets. When packets with well-formed headers and less than 4 GiB of
  header and body are serialized one after the other, a reader that takes a header and then \<^verbatim>\<open>datasize\<close> body bytes, again
  and again, recovers exactly those packets, with \<^verbatim>\<open>datasize\<close> set to the body length, and nothing is
  left over.
\<close>

theorem packet_stream:
  assumes "\<forall>p \<in> set ps. wf_header (pk_header p) \<and> bytesize + length (pk_buf p) < 2 ^ 32"
  shows "list_all (\<lambda>p. serialize p \<noteq> None) ps \<and>
    read_frames parse bytesize (\<lambda>h. unat (ph_datasize h)) (concat (map (snd \<circ> the \<circ> serialize) ps))
      = (map (\<lambda>p. (sized p, pk_buf p)) ps, [])"
  using assms by (rule serialized_frames)

definition sample_packets :: "packet list" where
  "sample_packets = [\<lparr>pk_header = sample_header, pk_buf = [1, 2, 3]\<rparr>, \<lparr>pk_header = sample_header, pk_buf = []\<rparr>]"

theorem packet_stream_witness:
  "read_frames parse bytesize (\<lambda>h. unat (ph_datasize h)) (concat (map (snd \<circ> the \<circ> serialize) sample_packets))
     = (map (\<lambda>p. (sized p, pk_buf p)) sample_packets, [])"
  using packet_stream [of sample_packets] wf_sample_header
  by (simp add: sample_packets_def bytesize_def)

text \<open>
  Hash maps of packets. The comparisons passed to the concurrent hash maps are equivalence
  relations, and headers that compare equal have equal hashes, for the key-only pair and for the
  full-key pair (key, salt, sequence); the full comparison refines the key comparison.
\<close>

theorem header_hash_compare:
  "equivp packet_header_key_compare \<and> equivp packet_header_full_key_compare \<and>
   (packet_header_key_compare a b \<longrightarrow> packet_header_key_hash a = packet_header_key_hash b) \<and>
   (packet_header_full_key_compare a b \<longrightarrow>
      packet_header_full_key_hash a = packet_header_full_key_hash b \<and> packet_header_key_compare a b)"
  using key_cmp.equal_equivp full_key_cmp.equal_equivp key_cmp.equal_hash [of a b]
    full_key_cmp.equal_hash [of a b]
  by (auto simp: packet_header_full_key_compare_def packet_header_key_compare_def)

theorem header_hash_compare_witness:
  "packet_header_full_key_hash sample_header =
     packet_header_full_key_hash (sample_header\<lparr>ph_type := 3, ph_datasize := 0\<rparr>)"
  using header_hash_compare [of sample_header "sample_header\<lparr>ph_type := 3, ph_datasize := 0\<rparr>"]
  by (simp add: packet_header_full_key_compare_def)

end
