(* ===== verification/Launch_Policy.thy ===== *)
theory Launch_Policy
  imports Pack
begin

text \<open>
  \<^verbatim>\<open>proxy/policy/worker-launch*.hpp\<close>: how many data functions the proxy starts. The base class counts the
  workers that are being started and bounds the number of new ones; the derived classes compute the ideal
  number of workers. Virtual dispatch is case distinction over \<open>launch_policy\<close>. The three policies that
  \<^verbatim>\<open>policy/all.hpp\<close> has commented out are not modelled. Counters of type \<^verbatim>\<open>int\<close> are integers here; the 64-bit
  sums of bytes are words. The clock is in nanoseconds, read once per call. Division by zero is \<open>None\<close>.
\<close>

section \<open>The base class\<close>

record launch =
  la_max :: int
  la_starting :: int
  la_starter :: int
  la_default :: int

definition worker_launch :: "int \<Rightarrow> launch" where
  "worker_launch max_outstanding = \<lparr>la_max = max_outstanding, la_starting = 0, la_starter = 0, la_default = 1\<rparr>"

definition starting_a_new_worker :: "launch \<Rightarrow> launch" where
  "starting_a_new_worker b = b\<lparr>la_starting := la_starting b + 1\<rparr>"

definition registered_a_new_worker :: "launch \<Rightarrow> launch" where
  "registered_a_new_worker b = b\<lparr>la_starting := la_starting b - 1\<rparr>"

definition get_ideal_worker_count_delta :: "int \<Rightarrow> nat \<Rightarrow> launch \<Rightarrow> int" where
  "get_ideal_worker_count_delta ideal ws_size b =
     (let should_start = max (ideal - (int ws_size + la_starting b)) 0;
          can_start = max (la_max b - la_starting b) 0
      in min should_start can_start)"

definition schedule_a_new_job :: "nat \<Rightarrow> launch \<Rightarrow> launch" where
  "schedule_a_new_job ws_size b = b\<lparr>la_starter := (if ws_size = 0 then la_default b else 0)\<rparr>"

definition reschedule_a_job :: "nat \<Rightarrow> launch \<Rightarrow> launch" where
  "reschedule_a_job ws_size b = b\<lparr>la_starter := (if ws_size = 0 then la_default b else 0)\<rparr>"

section \<open>The policies\<close>

record single_request =
  sr_base :: launch
  sr_request_count :: int

record max_queue =
  mq_base :: launch
  mq_max_average_queue :: u64
  mq_queue_size :: u64
  mq_ideal :: int

record average_load =
  av_base :: launch
  av_max_average_load :: u64
  av_last_update :: u64
  av_ideal :: int
  av_processed_size :: u64

datatype launch_policy =
    Base launch
  | Fix_pool launch
  | Single_request single_request
  | Max_queue max_queue
  | Average_load average_load

definition new_fix_pool :: "int \<Rightarrow> int \<Rightarrow> launch_policy" where
  "new_fix_pool max_outstanding n = Fix_pool ((worker_launch max_outstanding)\<lparr>la_default := n\<rparr>)"

definition new_single_request :: "int \<Rightarrow> launch_policy" where
  "new_single_request max_outstanding = Single_request \<lparr>sr_base = worker_launch max_outstanding, sr_request_count = 0\<rparr>"

definition new_max_queue :: "int \<Rightarrow> u64 \<Rightarrow> launch_policy" where
  "new_max_queue max_outstanding kb = Max_queue \<lparr>mq_base = worker_launch max_outstanding, mq_max_average_queue = kb * 1024,
     mq_queue_size = 0, mq_ideal = 0\<rparr>"

definition new_average_load :: "int \<Rightarrow> u64 \<Rightarrow> u64 \<Rightarrow> launch_policy" where
  "new_average_load max_outstanding kbps now = Average_load \<lparr>av_base = worker_launch max_outstanding,
     av_max_average_load = kbps * 1024, av_last_update = now, av_ideal = 0, av_processed_size = 0\<rparr>"

text \<open>Storing a 64-bit value in an \<^verbatim>\<open>int\<close>.\<close>

definition to_int :: "u64 \<Rightarrow> int" where
  "to_int w = sint (ucast w :: u32)"

fun base :: "launch_policy \<Rightarrow> launch" where
  "base (Base b) = b"
| "base (Fix_pool b) = b"
| "base (Single_request p) = sr_base p"
| "base (Max_queue p) = mq_base p"
| "base (Average_load p) = av_base p"

fun map_base :: "(launch \<Rightarrow> launch) \<Rightarrow> launch_policy \<Rightarrow> launch_policy" where
  "map_base f (Base b) = Base (f b)"
| "map_base f (Fix_pool b) = Fix_pool (f b)"
| "map_base f (Single_request p) = Single_request (p\<lparr>sr_base := f (sr_base p)\<rparr>)"
| "map_base f (Max_queue p) = Max_queue (p\<lparr>mq_base := f (mq_base p)\<rparr>)"
| "map_base f (Average_load p) = Average_load (p\<lparr>av_base := f (av_base p)\<rparr>)"

fun get_ideal_worker_count :: "launch_policy \<Rightarrow> int" where
  "get_ideal_worker_count (Base b) = la_starter b"
| "get_ideal_worker_count (Fix_pool b) = la_default b"
| "get_ideal_worker_count (Single_request p) = max (la_starter (sr_base p)) (sr_request_count p)"
| "get_ideal_worker_count (Max_queue p) = max (la_starter (mq_base p)) (mq_ideal p)"
| "get_ideal_worker_count (Average_load p) = max (la_starter (av_base p)) (av_ideal p)"

definition delta :: "nat \<Rightarrow> launch_policy \<Rightarrow> int" where
  "delta ws_size p = get_ideal_worker_count_delta (get_ideal_worker_count p) ws_size (base p)"

fun policy_schedule :: "nat \<Rightarrow> u32 \<Rightarrow> launch_policy \<Rightarrow> launch_policy" where
  "policy_schedule n datasize (Base b) = Base (schedule_a_new_job n b)"
| "policy_schedule n datasize (Fix_pool b) = Fix_pool (schedule_a_new_job n b)"
| "policy_schedule n datasize (Single_request p) = Single_request (p\<lparr>sr_request_count := sr_request_count p + 1,
     sr_base := schedule_a_new_job n (sr_base p)\<rparr>)"
| "policy_schedule n datasize (Max_queue p) = Max_queue (p\<lparr>mq_queue_size := mq_queue_size p + ucast datasize,
     mq_base := schedule_a_new_job n (mq_base p)\<rparr>)"
| "policy_schedule n datasize (Average_load p) = Average_load (p\<lparr>av_base := schedule_a_new_job n (av_base p)\<rparr>)"

definition policy_reschedule :: "nat \<Rightarrow> launch_policy \<Rightarrow> launch_policy" where
  "policy_reschedule n p = map_base (reschedule_a_job n) p"

fun policy_started :: "u32 \<Rightarrow> launch_policy \<Rightarrow> launch_policy" where
  "policy_started datasize (Average_load p) = Average_load (p\<lparr>av_processed_size := av_processed_size p + ucast datasize\<rparr>)"
| "policy_started datasize p = p"

fun policy_finished :: "u32 \<Rightarrow> launch_policy \<Rightarrow> launch_policy" where
  "policy_finished datasize (Single_request p) = Single_request (p\<lparr>sr_request_count := sr_request_count p - 1\<rparr>)"
| "policy_finished datasize (Max_queue p) = Max_queue (p\<lparr>mq_queue_size := mq_queue_size p - ucast datasize\<rparr>)"
| "policy_finished datasize (Average_load p) = Average_load (p\<lparr>av_processed_size := av_processed_size p + ucast datasize\<rparr>)"
| "policy_finished datasize p = p"

fun policy_execute :: "u64 \<Rightarrow> launch_policy \<Rightarrow> launch_policy option" where
  "policy_execute now (Max_queue p) =
     (if mq_max_average_queue p = 0 then None
      else Some (Max_queue (p\<lparr>mq_ideal := to_int (mq_queue_size p div mq_max_average_queue p)\<rparr>)))"
| "policy_execute now (Average_load p) =
     (let duration = (now - av_last_update p) div 1000000 in
      if duration = 0 \<or> av_max_average_load p = 0 then None
      else let normalized = (av_processed_size p * 1000) div duration in
        Some (Average_load (p\<lparr>av_last_update := now, av_processed_size := 0,
          av_ideal := to_int (normalized div av_max_average_load p)\<rparr>)))"
| "policy_execute now p = Some p"

definition policy_starting :: "launch_policy \<Rightarrow> launch_policy" where
  "policy_starting p = map_base starting_a_new_worker p"

definition policy_registered :: "launch_policy \<Rightarrow> launch_policy" where
  "policy_registered p = map_base registered_a_new_worker p"

text \<open>
  \<^verbatim>\<open>launcher::start_create_worker_with_policy\<close>: the number is computed once, then that many workers are
  started. The result is the policy and the number of started workers.
\<close>

definition start_create_worker_with_policy :: "nat \<Rightarrow> launch_policy \<Rightarrow> launch_policy \<times> nat" where
  "start_create_worker_with_policy ws_size p =
     (let should_start = delta ws_size p in ((policy_starting ^^ nat should_start) p, nat should_start))"

section \<open>What every launch policy promises\<close>

text \<open>
  The interface the launcher uses: starting a worker is counted, and counting does not change the ideal
  number. Then a round of starts stays below the bound on outstanding starts, and below the
  ideal number of workers.
\<close>

locale launcher_policy =
  fixes pbase :: "'p \<Rightarrow> launch"
    and ideal :: "'p \<Rightarrow> int"
    and starting :: "'p \<Rightarrow> 'p"
  assumes base_starting: "pbase (starting p) = starting_a_new_worker (pbase p)"
    and ideal_starting: "ideal (starting p) = ideal p"
begin

lemma started: "la_starting (pbase ((starting ^^ n) p)) = la_starting (pbase p) + int n"
  "la_max (pbase ((starting ^^ n) p)) = la_max (pbase p)" "ideal ((starting ^^ n) p) = ideal p"
  by (induction n) (simp_all add: base_starting ideal_starting starting_a_new_worker_def)

lemma round_bounds:
  fixes n :: nat and p :: 'p
  defines "d \<equiv> get_ideal_worker_count_delta (ideal p) n (pbase p)"
  shows "0 \<le> d" "la_starting (pbase ((starting ^^ nat d) p)) \<le> max (la_starting (pbase p)) (la_max (pbase p))"
    "int n + la_starting (pbase ((starting ^^ nat d) p)) \<le> max (int n + la_starting (pbase p)) (ideal p)"
  unfolding d_def by (auto simp: started get_ideal_worker_count_delta_def Let_def)

lemma round_complete:
  fixes n :: nat and p :: 'p
  defines "d \<equiv> get_ideal_worker_count_delta (ideal p) n (pbase p)"
  shows "la_max (pbase p) \<le> la_starting (pbase ((starting ^^ nat d) p)) \<or>
    ideal p \<le> int n + la_starting (pbase ((starting ^^ nat d) p))"
  unfolding d_def by (auto simp: started get_ideal_worker_count_delta_def Let_def)

end

lemma base_map_base [simp]: "base (map_base f p) = f (base p)"
  by (cases p) simp_all

interpretation launches: launcher_policy base get_ideal_worker_count policy_starting
proof
  show "base (policy_starting p) = starting_a_new_worker (base p)" for p
    by (simp add: policy_starting_def)
  show "get_ideal_worker_count (policy_starting p) = get_ideal_worker_count p" for p
    by (cases p) (simp_all add: policy_starting_def starting_a_new_worker_def)
qed

section \<open>Runs of the launcher's policy\<close>

text \<open>The calls of \<^verbatim>\<open>launcher_policy\<close> on its launch policy; \<open>Round\<close> is \<open>start_create_worker_with_policy\<close>.\<close>

datatype launch_event =
    Schedule nat u32
  | Reschedule nat
  | Started u32
  | Finished u32
  | Execute u64
  | Registered
  | Round nat

fun launch_step :: "launch_policy \<Rightarrow> launch_event \<Rightarrow> (launch_policy \<times> nat) option" where
  "launch_step p (Schedule n sz) = Some (policy_schedule n sz p, 0)"
| "launch_step p (Reschedule n) = Some (policy_reschedule n p, 0)"
| "launch_step p (Started sz) = Some (policy_started sz p, 0)"
| "launch_step p (Finished sz) = Some (policy_finished sz p, 0)"
| "launch_step p (Execute now) = map_option (\<lambda>q. (q, 0)) (policy_execute now p)"
| "launch_step p Registered = Some (policy_registered p, 0)"
| "launch_step p (Round n) = Some (start_create_worker_with_policy n p)"

fun launch_run :: "launch_policy \<Rightarrow> launch_event list \<Rightarrow> (launch_policy \<times> nat) option" where
  "launch_run p [] = Some (p, 0)"
| "launch_run p (e # es) =
     (case launch_step p e of None \<Rightarrow> None
      | Some (q, k) \<Rightarrow> map_option (\<lambda>(r, l). (r, k + l)) (launch_run q es))"

lemma round_base:
  "fst (start_create_worker_with_policy n p) = (policy_starting ^^ nat (delta n p)) p"
  "int (snd (start_create_worker_with_policy n p)) = delta n p"
  using launches.round_bounds(1)[of p n]
  by (simp_all add: start_create_worker_with_policy_def delta_def Let_def)

lemma step_base:
  assumes "launch_step p e = Some (q, k)"
  shows "la_max (base q) = la_max (base p)"
    and "la_starting (base q) = la_starting (base p) + int k - (if e = Registered then 1 else 0)"
    and "int k \<le> max 0 (la_max (base p) - la_starting (base p))"
proof -
  have r: "la_max (base ((policy_starting ^^ m) p)) = la_max (base p)"
    "la_starting (base ((policy_starting ^^ m) p)) = la_starting (base p) + int m" for m
    by (simp_all add: launches.started)
  have d: "delta n p \<le> max 0 (la_max (base p) - la_starting (base p))" "0 \<le> delta n p" for n
    by (auto simp: delta_def get_ideal_worker_count_delta_def Let_def)
  have "(la_max (base q) = la_max (base p) \<and> la_starting (base q) = la_starting (base p) + int k - (if e = Registered then 1 else 0))
    \<and> int k \<le> max 0 (la_max (base p) - la_starting (base p))"
  proof (cases e)
    case (Round n)
    with assms have "start_create_worker_with_policy n p = (q, k)" by simp
    with round_base[of n p] have "q = (policy_starting ^^ nat (delta n p)) p" "int k = delta n p" by simp_all
    with Round d[of n] r[of "nat (delta n p)"] show ?thesis by simp
  qed (use assms in \<open>cases p; auto simp: policy_reschedule_def policy_registered_def reschedule_a_job_def schedule_a_new_job_def
      registered_a_new_worker_def Let_def split: if_splits\<close>)+
  then show "la_max (base q) = la_max (base p)"
    "la_starting (base q) = la_starting (base p) + int k - (if e = Registered then 1 else 0)"
    "int k \<le> max 0 (la_max (base p) - la_starting (base p))"
    by blast+
qed

lemma run_base:
  assumes "launch_run p es = Some (q, k)"
  shows "la_max (base q) = la_max (base p)
    \<and> la_starting (base q) = la_starting (base p) + int k - int (length (filter ((=) Registered) es))
    \<and> la_starting (base q) \<le> max (la_starting (base p)) (la_max (base p))"
  using assms
proof (induction es arbitrary: p k)
  case (Cons e es)
  then obtain r k1 k2 where s: "launch_step p e = Some (r, k1)" and t: "launch_run r es = Some (q, k2)" "k = k1 + k2"
    by (auto split: option.splits)
  from step_base[OF s] Cons.IH[OF t(1)] show ?case
    using t(2) by (auto split: if_splits)
qed simp

lemma registered_pow:
  "(policy_registered ^^ k) (Fix_pool b) = Fix_pool (b\<lparr>la_starting := la_starting b - int k\<rparr>)"
  by (induction k arbitrary: b) (simp_all add: policy_registered_def registered_a_new_worker_def del: funpow.simps(2) add: funpow_Suc_right)

lemma starting_pow:
  "(policy_starting ^^ k) (Fix_pool b) = Fix_pool (b\<lparr>la_starting := la_starting b + int k\<rparr>)"
  by (induction k arbitrary: b) (simp_all add: policy_starting_def starting_a_new_worker_def del: funpow.simps(2) add: funpow_Suc_right)

lemma fix_round:
  "start_create_worker_with_policy n (Fix_pool b) =
     (let k = nat (min (la_default b - (int n + la_starting b)) (la_max b - la_starting b))
      in (Fix_pool (b\<lparr>la_starting := la_starting b + int k\<rparr>), k))"
proof -
  have "nat (delta n (Fix_pool b)) = nat (min (la_default b - (int n + la_starting b)) (la_max b - la_starting b))"
    by (simp add: delta_def get_ideal_worker_count_delta_def Let_def min_def max_def)
  then show ?thesis
    by (simp only: start_create_worker_with_policy_def starting_pow Let_def)
qed

lemmas launch_sims = new_fix_pool_def worker_launch_def fix_round policy_registered_def policy_reschedule_def
  registered_a_new_worker_def schedule_a_new_job_def reschedule_a_job_def Let_def



text \<open>
  The workers of a pool: in each round the policy starts workers, and all of them register before the
  next round.
\<close>

definition pool_round :: "launch_policy \<times> nat \<Rightarrow> launch_policy \<times> nat" where
  "pool_round s = (let (p, n) = s; (q, k) = start_create_worker_with_policy n p in ((policy_registered ^^ k) q, n + k))"

lemma pool_round_fix:
  assumes "la_starting b = 0"
  shows "pool_round (Fix_pool b, n) = (Fix_pool b, max n (min (nat (la_default b)) (n + nat (la_max b))))"
  using assms
  by (cases b) (auto simp: pool_round_def fix_round registered_pow Let_def)

text \<open>
  A fixed pool fills up. With a positive bound on outstanding starts, rounds in which the started workers
  register bring the number of workers from any \<open>n \<le> sz\<close> to exactly the configured size \<open>sz\<close>: after
  \<open>k\<close> rounds there are \<open>min sz (n + k * m)\<close> workers.
\<close>

theorem fix_pool_fills:
  assumes "0 < m" "n \<le> sz"
  shows "snd ((pool_round ^^ k) (new_fix_pool (int m) (int sz), n)) = min sz (n + k * m) \<and>
    snd ((pool_round ^^ sz) (new_fix_pool (int m) (int sz), n)) = sz"
proof -
  have *: "(pool_round ^^ k) (new_fix_pool (int m) (int sz), n) = (new_fix_pool (int m) (int sz), min sz (n + k * m))" for k
    using assms(2) by (induction k) (auto simp: new_fix_pool_def worker_launch_def pool_round_fix min_def max_def)
  from assms(1) have "sz \<le> n + sz * m" by (cases m) simp_all
  with * show ?thesis by (simp add: min_def)
qed

theorem fix_pool_fills_witness:
  "snd ((pool_round ^^ 2) (new_fix_pool 2 5, 0)) = 4 \<and> snd ((pool_round ^^ 5) (new_fix_pool 2 5, 0)) = 5"
  using fix_pool_fills[of 2 0 5 2] by simp

end
