(* ===== verification/Keepalive.thy ===== *)
theory Keepalive
  imports Pack "HOL-Library.Signed_Division"
begin

text \<open>
  \<^verbatim>\<open>proxy/policy/worker-keepalive*.hpp\<close>: how long an idle data function stays alive. The policies compute a
  duration and send it in a \<^verbatim>\<open>set_timer\<close> packet; the moving-interval policies follow the mean of the last
  request intervals, kept in a ring buffer. 32-bit sums wrap. Indexing outside the buffer and division by
  zero are \<open>None\<close>. Values the code computes in floating point (the duration with its error margin, the
  test of the deviation) are parameters. Clock readings are nanoseconds.
\<close>

section \<open>The ring buffer of the moving average\<close>

record sma =
  sma_N :: u32
  sma_index :: u32
  sma_previous :: "u32 list"
  sma_sum :: u32

definition sma_new :: "u32 \<Rightarrow> sma" where
  "sma_new buffer_size =
     (let n = (if buffer_size \<noteq> 0 then buffer_size else 1)
      in \<lparr>sma_N = n, sma_index = 0, sma_previous = replicate (unat n) 0, sma_sum = 0\<rparr>)"

definition get_sma :: "sma \<Rightarrow> u32" where
  "get_sma s = (sma_sum s + sma_N s div 2) div sma_N s"

definition sma_push :: "u32 \<Rightarrow> sma \<Rightarrow> sma option" where
  "sma_push input s =
     (if unat (sma_index s) < length (sma_previous s)
      then let i = sma_index s + 1
           in Some (s\<lparr>sma_sum := sma_sum s - sma_previous s ! unat (sma_index s) + input,
                      sma_previous := (sma_previous s)[unat (sma_index s) := input],
                      sma_index := (if i = sma_N s then 0 else i)\<rparr>)
      else None)"

definition sma_record :: "u32 \<Rightarrow> sma \<Rightarrow> (sma \<times> u32) option" where
  "sma_record input s = map_option (\<lambda>s. (s, get_sma s)) (sma_push input s)"

text \<open>The variant with a counter of the records; \<^verbatim>\<open>iter_counter_\<close> starts at one. \<^verbatim>\<open>N_ + 1\<close> is a 32-bit sum.\<close>

record sma_global =
  sg_sma :: sma
  sg_iter :: int

definition sma_global_new :: "u32 \<Rightarrow> sma_global" where
  "sma_global_new buffer_size = \<lparr>sg_sma = sma_new buffer_size, sg_iter = 1\<rparr>"

definition get_sma_global :: "sma_global \<Rightarrow> u32" where
  "get_sma_global g =
     (let s = sg_sma g; n = sma_sum s + sma_N s div 2
      in if sg_iter g < uint (sma_N s + 1) then of_int (uint n div sg_iter g) else n div sma_N s)"

definition sma_global_record :: "u32 \<Rightarrow> sma_global \<Rightarrow> (sma_global \<times> u32) option" where
  "sma_global_record input g =
     map_option (\<lambda>s. let g = \<lparr>sg_sma = s, sg_iter = sg_iter g + 1\<rparr> in (g, get_sma_global g)) (sma_push input (sg_sma g))"

section \<open>Messages\<close>

definition send_worker_keepalive :: "packet_header \<Rightarrow> bytes \<Rightarrow> bytes \<Rightarrow> u32 \<Rightarrow> packet" where
  "send_worker_keepalive h salt sequ duration_in_ms =
     \<lparr>pk_header = set_type Set_timer (gen salt sequ h), pk_buf = mem32 (hton32 duration_in_ms)\<rparr>"

text \<open>
  The base policy and \<^verbatim>\<open>keepalive_const_time\<close>: the duration of a policy. \<open>None\<close> is undefined
  behaviour, \<open>Some None\<close> an early return without a message.
\<close>

definition base_keepalive :: "u32 option option" where
  "base_keepalive = Some (Some 10000)"

definition const_keepalive :: "u32 \<Rightarrow> u32 option option" where
  "const_keepalive waittime = Some (Some waittime)"

section \<open>The moving interval of each worker\<close>

record moving =
  mi_buffer_size :: u32
  mi_default :: u32
  mi_threshold :: u32
  mi_wait_times :: "u64 \<rightharpoonup> sma"
  mi_last_request :: "u64 \<rightharpoonup> int"

definition moving_new :: "u32 \<Rightarrow> u32 \<Rightarrow> u32 \<Rightarrow> moving" where
  "moving_new buffer_size default_ms threshold = \<lparr>mi_buffer_size = buffer_size, mi_default = default_ms,
     mi_threshold = threshold, mi_wait_times = Map.empty, mi_last_request = Map.empty\<rparr>"

definition interval_ms :: "int \<Rightarrow> int \<Rightarrow> int" where
  "interval_ms now before = (now - before) sdiv 1000000"

text \<open>\<open>margin v\<close> is the value \<open>v + error_margin * v\<close>, truncated.\<close>

definition moving_keepalive :: "(u32 \<Rightarrow> u32) \<Rightarrow> u64 \<Rightarrow> moving \<Rightarrow> u32 option option" where
  "moving_keepalive margin worker k =
     (case mi_wait_times k worker of
        None \<Rightarrow> Some None
      | Some s \<Rightarrow>
          if get_sma s < mi_threshold k then Some (Some (mi_default k))
          else if get_sma s > 100 then Some (Some (margin (get_sma s)))
          else if get_sma s = 0 then None
          else Some (Some (get_sma s + 100 div get_sma s)))"

definition moving_started :: "int \<Rightarrow> u64 \<Rightarrow> moving \<Rightarrow> moving option" where
  "moving_started now worker k =
     (case mi_last_request k worker of
        None \<Rightarrow>
          let ws = (if worker \<in> dom (mi_wait_times k) then mi_wait_times k
                    else (mi_wait_times k)(worker \<mapsto> sma_new (mi_buffer_size k)))
          in map_option (\<lambda>(s, _). k\<lparr>mi_wait_times := ws(worker \<mapsto> s), mi_last_request := (mi_last_request k)(worker \<mapsto> now)\<rparr>)
               (sma_record (mi_default k) (the (ws worker)))
      | Some before \<Rightarrow>
          let k = k\<lparr>mi_last_request := (mi_last_request k)(worker \<mapsto> now)\<rparr>;
              request_interval = interval_ms now before
          in if request_interval > uint (mi_threshold k)
             then case mi_wait_times k worker of
                 None \<Rightarrow> Some k
               | Some s \<Rightarrow> map_option (\<lambda>(s, _). k\<lparr>mi_wait_times := (mi_wait_times k)(worker \<mapsto> s)\<rparr>)
                   (sma_record (of_int request_interval) s)
             else Some k)"

section \<open>The moving interval of all workers\<close>

record moving_global =
  mg_sma :: sma_global
  mg_first_req :: bool
  mg_default :: u32
  mg_threshold :: u32
  mg_last_request :: int

definition moving_global_new :: "u32 \<Rightarrow> u32 \<Rightarrow> u32 \<Rightarrow> moving_global" where
  "moving_global_new buffer_size default_ms threshold = \<lparr>mg_sma = sma_global_new buffer_size, mg_first_req = True,
     mg_default = default_ms, mg_threshold = threshold, mg_last_request = 0\<rparr>"

text \<open>\<open>within\<close> is \<^verbatim>\<open>is_within_2_stdev\<close>, \<open>margin v\<close> the truncated \<open>v + error_margin * v + 300\<close>.\<close>

definition moving_global_keepalive :: "(sma \<Rightarrow> bool) \<Rightarrow> (u32 \<Rightarrow> u32) \<Rightarrow> moving_global \<Rightarrow> u32 option option" where
  "moving_global_keepalive within margin k =
     (let v = get_sma_global (mg_sma k) in
      if v < mg_threshold k \<or> \<not> within (sg_sma (mg_sma k)) then Some (Some (mg_default k))
      else if v > 100 then Some (Some (margin v))
      else if v = 0 then None
      else Some (Some (v + 100 div v + 300)))"

definition moving_global_started :: "int \<Rightarrow> moving_global \<Rightarrow> moving_global option" where
  "moving_global_started now k =
     (if mg_first_req k then Some (k\<lparr>mg_first_req := False, mg_last_request := now\<rparr>)
      else let request_interval = interval_ms now (mg_last_request k);
               k = k\<lparr>mg_last_request := now\<rparr>
           in if request_interval > uint (mg_threshold k)
              then map_option (\<lambda>(g, _). k\<lparr>mg_sma := g\<rparr>) (sma_global_record (of_int request_interval) (mg_sma k))
              else Some k)"

section \<open>The ring buffer is a window over the inputs\<close>

definition sma_ok :: "sma \<Rightarrow> bool" where
  "sma_ok s \<longleftrightarrow> sma_N s \<noteq> 0 \<and> length (sma_previous s) = unat (sma_N s) \<and> sma_index s < sma_N s \<and>
     sma_sum s = sum_list (sma_previous s)"

text \<open>The inputs in the buffer, oldest first.\<close>

definition window :: "sma \<Rightarrow> u32 list" where
  "window s = drop (unat (sma_index s)) (sma_previous s) @ take (unat (sma_index s)) (sma_previous s)"

definition slide :: "u32 \<Rightarrow> u32 list \<Rightarrow> u32 list" where
  "slide x w = tl w @ [x]"

lemma sum_list_update_word:
  "i < length xs \<Longrightarrow> sum_list (xs[i := x]) = sum_list xs - xs ! i + (x :: 'a :: ab_group_add)"
  by (induction xs arbitrary: i) (auto split: nat.splits)

lemma sma_new_ok: "sma_ok (sma_new n)" "window (sma_new n) = replicate (unat (sma_N (sma_new n))) 0"
  "sma_N (sma_new n) = (if n = 0 then 1 else n)"
  by (auto simp: sma_new_def sma_ok_def window_def Let_def word_neq_0_conv sum_list_replicate)

lemma sma_push_slide:
  assumes "sma_ok s"
  shows "\<exists>s'. sma_push x s = Some s' \<and> sma_ok s' \<and> sma_N s' = sma_N s \<and> window s' = slide x (window s)"
proof -
  let ?i = "unat (sma_index s)" and ?xs = "sma_previous s" and ?n = "sma_N s"
  from assms have i: "?i < length ?xs" "length ?xs = unat ?n" by (simp_all add: sma_ok_def word_less_nat_alt)
  have suc: "unat (sma_index s + 1) = Suc ?i"
  proof -
    from i have "Suc ?i < 4294967296" using unat_u32_less [of ?n] by linarith
    then show ?thesis by (simp add: unat_word_ariths)
  qed
  let ?s = "s\<lparr>sma_sum := sma_sum s - ?xs ! ?i + x, sma_previous := ?xs[?i := x],
    sma_index := (if sma_index s + 1 = ?n then 0 else sma_index s + 1)\<rparr>"
  have push: "sma_push x s = Some ?s" using i(1) by (simp add: sma_push_def Let_def)
  have eq: "sma_index s + 1 = ?n \<longleftrightarrow> Suc ?i = unat ?n" by (simp add: word_unat_eq_iff suc)
  have ok: "sma_ok ?s"
    using assms i suc eq by (auto simp: sma_ok_def sum_list_update_word word_less_nat_alt word_neq_0_conv)
  have "drop ?i ?xs = ?xs ! ?i # drop (Suc ?i) ?xs" using i(1) by (rule Cons_nth_drop_Suc [symmetric])
  then have w: "slide x (window s) = drop (Suc ?i) ?xs @ take ?i ?xs @ [x]" by (simp add: slide_def window_def)
  have "window ?s = drop (Suc ?i) ?xs @ take ?i ?xs @ [x]"
  proof (cases "Suc ?i = unat ?n")
    case True
    then have "?xs[?i := x] = take ?i ?xs @ [x]" using i by (simp add: upd_conv_take_nth_drop)
    with True i eq show ?thesis by (simp add: window_def)
  next
    case False
    with i eq suc show ?thesis by (simp add: window_def take_Suc_conv_app_nth)
  qed
  with push ok w show ?thesis by auto
qed

text \<open>The last \<open>n\<close> of the inputs, filled up with zeros.\<close>

definition window_of :: "nat \<Rightarrow> u32 list \<Rightarrow> u32 list" where
  "window_of n xs = drop (length xs) (replicate n 0 @ xs)"

lemma window_of_Nil [simp]: "window_of n [] = replicate n 0"
  by (simp add: window_of_def)

lemma length_window_of [simp]: "length (window_of n xs) = n"
  by (simp add: window_of_def)

lemma slide_window_of: "0 < n \<Longrightarrow> slide x (window_of n xs) = window_of n (xs @ [x])"
proof -
  assume "0 < n"
  then have "window_of n xs \<noteq> []" using length_window_of [of n xs] by force
  then have "tl (window_of n xs) @ [x] = tl (window_of n xs @ [x])" by simp
  also have "window_of n xs @ [x] = drop (length xs) (replicate n 0 @ xs @ [x])" by (simp add: window_of_def)
  finally show ?thesis by (simp only: slide_def window_of_def drop_Suc tl_drop length_append_singleton)
qed

fun sma_records :: "u32 list \<Rightarrow> sma \<Rightarrow> sma option" where
  "sma_records [] s = Some s"
| "sma_records (x # xs) s = (case sma_record x s of None \<Rightarrow> None | Some (s, _) \<Rightarrow> sma_records xs s)"

lemma sma_records_window:
  assumes "sma_ok s" "window s = window_of (unat (sma_N s)) ys"
  shows "\<exists>s'. sma_records xs s = Some s' \<and> sma_ok s' \<and> sma_N s' = sma_N s \<and> window s' = window_of (unat (sma_N s)) (ys @ xs)"
  using assms
proof (induction xs arbitrary: s ys)
  case (Cons x xs)
  obtain s' where s': "sma_push x s = Some s'" "sma_ok s'" "sma_N s' = sma_N s" "window s' = slide x (window s)"
    using sma_push_slide [OF Cons.prems(1)] by blast
  have "0 < unat (sma_N s)" using Cons.prems(1) by (simp add: sma_ok_def word_neq_0_conv word_less_nat_alt)
  then have "window s' = window_of (unat (sma_N s')) (ys @ [x])" using s' Cons.prems(2) by (simp add: slide_window_of)
  from Cons.IH [OF s'(2) this] s' show ?case by (simp add: sma_record_def)
qed simp

lemma sum_window: "sma_ok s \<Longrightarrow> sma_sum s = sum_list (window s)"
proof -
  assume "sma_ok s"
  then have "sma_sum s = sum_list (take (unat (sma_index s)) (sma_previous s) @ drop (unat (sma_index s)) (sma_previous s))"
    by (simp add: sma_ok_def)
  then show ?thesis by (simp only: window_def sum_list_append add.commute)
qed

lemma unat_sum_list: "sum_list (map unat xs) < 2 ^ 32 \<Longrightarrow> unat (sum_list xs :: u32) = sum_list (map unat xs)"
  by (induction xs) (simp_all add: unat_word_ariths)

lemma get_sma_mean:
  assumes "sma_ok s" "sum_list (map unat (window s)) + unat (sma_N s) div 2 < 2 ^ 32"
  shows "unat (get_sma s) = (sum_list (map unat (window s)) + unat (sma_N s) div 2) div unat (sma_N s)"
  using assms unat_sum_list [of "window s"]
  by (simp add: get_sma_def sum_window unat_div_distrib unat_word_ariths)

lemma near: "a \<le> t + n div 2 \<Longrightarrow> t + n div 2 < a + n \<Longrightarrow> 2 * \<bar>int a - int t\<bar> \<le> int n"
proof -
  define h where "h = n div 2"
  have "2 * h \<le> n" "n \<le> 2 * h + 1" by (simp_all add: h_def)
  moreover assume "a \<le> t + n div 2" "t + n div 2 < a + n"
  then have "a \<le> t + h" "t + h < a + n" by (simp_all add: h_def)
  ultimately have *: "2 * a \<le> 2 * t + n" "2 * t \<le> 2 * a + n" by linarith+
  show ?thesis
  proof (cases "a \<le> t")
    case True
    then obtain d where "t = a + d" using le_Suc_ex by blast
    with *(2) show ?thesis by simp
  next
    case False
    then obtain d where "a = t + d" using le_Suc_ex nat_le_linear by blast
    with *(1) show ?thesis by simp
  qed
qed

text \<open>
  The moving average. Recording any sequence of inputs never leaves the buffer; afterwards the buffer
  holds exactly the last \<open>N\<close> inputs, filled up with zeros, and, as long as their sum fits 32 bits, the reported
  average is their mean rounded to the nearest integer.
\<close>

theorem sma_is_rounded_mean:
  assumes "N = (if n = 0 then 1 else unat n)" "w = window_of N xs"
  shows "\<exists>s. sma_records xs (sma_new n) = Some s \<and> window s = w \<and>
    (sum_list (map unat w) + N div 2 < 2 ^ 32 \<longrightarrow>
      unat (get_sma s) = (sum_list (map unat w) + N div 2) div N \<and>
      2 * \<bar>int (N * unat (get_sma s)) - int (sum_list (map unat w))\<bar> \<le> int N)"
proof -
  have N: "unat (sma_N (sma_new n)) = N" using assms(1) by (simp add: sma_new_ok)
  obtain s where s: "sma_records xs (sma_new n) = Some s" "sma_ok s" "unat (sma_N s) = N" "window s = w"
    using sma_records_window [OF sma_new_ok(1), of n "[]" xs] N assms(2) by (auto simp: sma_new_ok(2))
  have "2 * \<bar>int (N * ((t + N div 2) div N)) - int t\<bar> \<le> int N" for t
  proof -
    have "0 < N" using assms(1) by (simp add: unat_gt_0)
    then have "N * ((t + N div 2) div N) \<le> t + N div 2" "t + N div 2 < N * ((t + N div 2) div N) + N"
      using dividend_less_times_div [of N "t + N div 2"] by simp_all
    then show ?thesis by (rule near)
  qed
  moreover have "sum_list (map unat w) + N div 2 < 2 ^ 32 \<Longrightarrow> unat (get_sma s) = (sum_list (map unat w) + N div 2) div N"
    using get_sma_mean [OF s(2)] s(3,4) by simp
  ultimately show ?thesis using s(1,4) by metis
qed

theorem sma_is_rounded_mean_witness:
  "\<exists>s. sma_records [10, 20, 30, 41] (sma_new 3) = Some s \<and> window s = [20, 30, 41] \<and> unat (get_sma s) = 30"
proof -
  have "window_of 3 [10, 20, 30, 41] = [20, 30, 41]" by (simp add: window_of_def)
  then show ?thesis using sma_is_rounded_mean [of 3 3 "[20, 30, 41]" "[10, 20, 30, 41]"] by (auto simp del: sma_records.simps)
qed

section \<open>The average of the global policy\<close>

fun sma_global_records :: "u32 list \<Rightarrow> sma_global \<Rightarrow> sma_global option" where
  "sma_global_records [] g = Some g"
| "sma_global_records (x # xs) g = (case sma_global_record x g of None \<Rightarrow> None | Some (g, _) \<Rightarrow> sma_global_records xs g)"

lemma sma_global_records_sma:
  "map_option sg_sma (sma_global_records xs g) = sma_records xs (sg_sma g) \<and>
   (\<forall>g'. sma_global_records xs g = Some g' \<longrightarrow> sg_iter g' = sg_iter g + int (length xs))"
proof (induction xs arbitrary: g)
  case (Cons x xs)
  show ?case
  proof (cases "sma_push x (sg_sma g)")
    case None
    then show ?thesis by (simp add: sma_global_record_def sma_record_def)
  next
    case (Some s)
    then show ?thesis using Cons.IH [of "\<lparr>sg_sma = s, sg_iter = sg_iter g + 1\<rparr>"]
      by (simp add: sma_global_record_def sma_record_def Let_def)
  qed
qed simp

text \<open>
  While fewer than \<open>N\<close> inputs have been recorded, the sum is divided by one more than their number, so that the
  first interval counts only half.
\<close>

lemma global_average_biased:
  assumes "sma_global_records xs (sma_global_new n) = Some g" "length xs < unat n" "unat n < 2 ^ 32 - 1"
    and "sum_list (map unat xs) + unat n div 2 < 2 ^ 32"
  shows "unat (get_sma_global g) = (sum_list (map unat xs) + unat n div 2) div (length xs + 1)"
proof -
  from assms(2) have n: "n \<noteq> 0" by auto
  then have N: "sma_N (sma_new n) = n" by (simp add: sma_new_ok)
  obtain s where s: "sma_records xs (sma_new n) = Some s" "sma_ok s" "sma_N s = n" "window s = window_of (unat n) xs"
    using sma_records_window [OF sma_new_ok(1), of n "[]" xs] N by (auto simp: sma_new_ok(2))
  have g: "sg_sma g = s" "sg_iter g = 1 + int (length xs)"
    using sma_global_records_sma [of xs "sma_global_new n"] assms(1) s(1) by (simp_all add: sma_global_new_def)
  have w: "window_of (unat n) xs = replicate (unat n - length xs) 0 @ xs" using assms(2) by (simp add: window_of_def)
  have sum: "unat (sma_sum s) = sum_list (map unat xs)"
    using unat_sum_list [of xs] assms(4) sum_window [OF s(2)] by (simp add: s(4) w sum_list_replicate)
  let ?t = "sma_sum s + n div 2"
  have t: "unat ?t = sum_list (map unat xs) + unat n div 2"
    using assms(4) by (simp add: unat_word_ariths unat_div_distrib sum)
  have "Suc (unat n) < 4294967296" using assms(3) by simp
  then have "unat (n + 1) = Suc (unat n)" by (simp add: unat_word_ariths)
  then have "1 + length xs < unat (n + 1)" using assms(2) by simp
  then have "sg_iter g < uint (n + 1)" unfolding g(2) uint_nat by linarith
  then have "get_sma_global g = of_int (uint ?t div (1 + int (length xs)))"
    by (simp add: get_sma_global_def g s(3) Let_def)
  also have "uint ?t div (1 + int (length xs)) = int (unat ?t div (length xs + 1))"
    by (simp only: uint_nat zdiv_int of_nat_add of_nat_1 add.commute [of 1])
  finally have "get_sma_global g = of_nat (unat ?t div (length xs + 1))" by simp
  moreover have "unat ?t div (length xs + 1) < 2 ^ 32"
    by (rule le_less_trans [OF div_le_dividend]) simp
  ultimately show ?thesis by (simp add: unat_of_nat t)
qed

section \<open>The intervals of a worker\<close>

fun gaps :: "int \<Rightarrow> int list \<Rightarrow> int list" where
  "gaps thr (t # u # ts) = (if thr < interval_ms u t then interval_ms u t # gaps thr (u # ts) else gaps thr (u # ts))"
| "gaps thr ts = []"

lemma gaps_snoc: "gaps thr (ts @ [t, u]) = gaps thr (ts @ [t]) @ (if thr < interval_ms u t then [interval_ms u t] else [])"
proof (induction ts)
  case (Cons a ts)
  then show ?case by (cases ts) simp_all
qed simp

definition times_of :: "u64 \<Rightarrow> (u64 \<times> int) list \<Rightarrow> int list" where
  "times_of worker es = map snd (filter (\<lambda>e. fst e = worker) es)"

fun moving_run :: "(u64 \<times> int) list \<Rightarrow> moving \<Rightarrow> moving option" where
  "moving_run [] k = Some k"
| "moving_run (e # es) k = Option.bind (moving_started (snd e) (fst e) k) (moving_run es)"

lemma moving_run_append: "moving_run (es @ fs) k = Option.bind (moving_run es k) (moving_run fs)"
  by (induction es arbitrary: k) (auto split: bind_splits)

definition worker_window :: "u32 \<Rightarrow> u32 \<Rightarrow> u32 \<Rightarrow> int list \<Rightarrow> u32 list" where
  "worker_window n default_ms thr ts =
     window_of (unat (sma_N (sma_new n))) (default_ms # map of_int (gaps (uint thr) ts))"

definition moving_inv :: "u32 \<Rightarrow> u32 \<Rightarrow> u32 \<Rightarrow> (u64 \<times> int) list \<Rightarrow> moving \<Rightarrow> bool" where
  "moving_inv n default_ms thr es k \<longleftrightarrow> mi_buffer_size k = n \<and> mi_default k = default_ms \<and> mi_threshold k = thr \<and>
     (\<forall>w. if times_of w es = [] then mi_wait_times k w = None \<and> mi_last_request k w = None
          else mi_last_request k w = Some (last (times_of w es)) \<and>
            (\<exists>s. mi_wait_times k w = Some s \<and> sma_ok s \<and> sma_N s = sma_N (sma_new n) \<and>
                 window s = worker_window n default_ms thr (times_of w es)))"

lemma times_of_snoc:
  "times_of w (es @ [(v, now)]) = (if v = w then times_of w es @ [now] else times_of w es)"
  by (simp add: times_of_def)

lemma window_N: "0 < unat (sma_N (sma_new n))"
  by (simp add: sma_new_ok unat_gt_0)

lemma worker_window_snoc:
  assumes "ts \<noteq> []"
  shows "worker_window n d thr (ts @ [u]) =
    (if uint thr < interval_ms u (last ts) then slide (of_int (interval_ms u (last ts))) (worker_window n d thr ts)
     else worker_window n d thr ts)"
proof -
  have ts: "butlast ts @ [last ts] = ts" using assms by simp
  then have "butlast ts @ [last ts, u] = ts @ [u]" by (metis append.assoc append_Cons append_Nil)
  then have "gaps (uint thr) (ts @ [u]) = gaps (uint thr) ts @ (if uint thr < interval_ms u (last ts) then [interval_ms u (last ts)] else [])"
    using gaps_snoc [of "uint thr" "butlast ts" "last ts" u] ts by (simp only: )
  then show ?thesis by (simp add: worker_window_def slide_window_of window_N)
qed

lemma moving_started_inv:
  assumes "moving_inv n d thr es k"
  shows "\<exists>k'. moving_started now v k = Some k' \<and> moving_inv n d thr (es @ [(v, now)]) k'"
proof -
  have f: "mi_buffer_size k = n" "mi_default k = d" "mi_threshold k = thr"
    and w: "\<And>w. times_of w es = [] \<Longrightarrow> mi_wait_times k w = None \<and> mi_last_request k w = None"
    and w': "\<And>w. times_of w es \<noteq> [] \<Longrightarrow> mi_last_request k w = Some (last (times_of w es)) \<and>
            (\<exists>s. mi_wait_times k w = Some s \<and> sma_ok s \<and> sma_N s = sma_N (sma_new n) \<and>
                 window s = worker_window n d thr (times_of w es))"
    using assms unfolding moving_inv_def by metis+
  show ?thesis
  proof (cases "times_of v es = []")
    case True
    obtain s where s: "sma_push d (sma_new n) = Some s" "sma_ok s" "sma_N s = sma_N (sma_new n)"
        "window s = worker_window n d thr [now]"
      using sma_push_slide [OF sma_new_ok(1), of d n] slide_window_of [OF window_N, of d n "[]"]
      by (auto simp: worker_window_def sma_new_ok(2))
    have "moving_started now v k = Some (k\<lparr>mi_wait_times := (mi_wait_times k)(v \<mapsto> s),
        mi_last_request := (mi_last_request k)(v \<mapsto> now)\<rparr>)"
      using w [OF True] f s(1) by (simp add: moving_started_def sma_record_def domIff)
    moreover have "moving_inv n d thr (es @ [(v, now)]) (k\<lparr>mi_wait_times := (mi_wait_times k)(v \<mapsto> s),
        mi_last_request := (mi_last_request k)(v \<mapsto> now)\<rparr>)"
      using w w' f s True by (auto simp: moving_inv_def times_of_snoc)
    ultimately show ?thesis by blast
  next
    case False
    let ?t = "last (times_of v es)" and ?k = "k\<lparr>mi_last_request := (mi_last_request k)(v \<mapsto> now)\<rparr>"
    let ?i = "interval_ms now ?t"
    obtain s where s: "mi_wait_times k v = Some s" "sma_ok s" "sma_N s = sma_N (sma_new n)"
        "window s = worker_window n d thr (times_of v es)"
      using w' [OF False] by blast
    obtain s' where s': "sma_push (of_int ?i) s = Some s'" "sma_ok s'" "sma_N s' = sma_N (sma_new n)"
        "window s' = slide (of_int ?i) (window s)"
      using sma_push_slide [OF s(2), of "of_int ?i"] s(3) by auto
    show ?thesis
    proof (cases "uint thr < ?i")
      case True
      have "moving_started now v k = Some (?k\<lparr>mi_wait_times := (mi_wait_times k)(v \<mapsto> s')\<rparr>)"
        using w' [OF False] f s(1) s'(1) True by (simp add: moving_started_def sma_record_def)
      moreover have "moving_inv n d thr (es @ [(v, now)]) (?k\<lparr>mi_wait_times := (mi_wait_times k)(v \<mapsto> s')\<rparr>)"
        using w w' f s s' True False by (auto simp: moving_inv_def times_of_snoc worker_window_snoc)
      ultimately show ?thesis by blast
    next
      case small: False
      have "moving_started now v k = Some ?k"
        using w' [OF False] f small by (simp add: moving_started_def)
      moreover have "moving_inv n d thr (es @ [(v, now)]) ?k"
        using w w' f s small False by (auto simp: moving_inv_def times_of_snoc worker_window_snoc)
      ultimately show ?thesis by blast
    qed
  qed
qed

lemma moving_run_inv: "\<exists>k. moving_run es (moving_new n d thr) = Some k \<and> moving_inv n d thr es k"
proof (induction es rule: rev_induct)
  case Nil
  then show ?case by (simp add: moving_inv_def moving_new_def times_of_def)
next
  case (snoc e es)
  then obtain k where "moving_run es (moving_new n d thr) = Some k" "moving_inv n d thr es k" by blast
  moreover from moving_started_inv [OF this(2), of "snd e" "fst e"]
  obtain k' where "moving_started (snd e) (fst e) k = Some k'" "moving_inv n d thr (es @ [e]) k'" by auto
  ultimately show ?case by (simp add: moving_run_append)
qed



end
