(* ===== verification/External.thy ===== *)
theory External
  imports Prelude "HOL-Library.AList"
begin

text \<open>
  The third-party libraries the program calls, as parameters. A component that uses LevelDB, a
  \<^verbatim>\<open>tbb::concurrent_hash_map\<close> or a \<^verbatim>\<open>tbb::concurrent_queue\<close> takes the operations of that
  library as a record argument; what the code relies on is the predicate next to it
  (\<open>leveldb_ok\<close>, \<open>chmap_ok\<close>, \<open>cqueue_ok\<close>), which states the documented behaviour of the
  operations. The instances at the end show that each predicate can hold; the witnesses of the
  properties use them.
\<close>

section \<open>LevelDB\<close>

text \<open>
  \<open>ldb_Get\<close> is \<^verbatim>\<open>leveldb::DB::Get\<close>: \<open>None\<close> is a status that is not \<^verbatim>\<open>ok()\<close>, and then the output
  string is left as it was. \<open>ldb_Put\<close> is \<^verbatim>\<open>leveldb::DB::Put\<close>.
\<close>

record 'db leveldb =
  ldb_Get :: "'db \<Rightarrow> bytes \<Rightarrow> bytes option"
  ldb_Put :: "'db \<Rightarrow> bytes \<Rightarrow> bytes \<Rightarrow> 'db"

definition leveldb_ok :: "'db leveldb \<Rightarrow> bool" where
  "leveldb_ok L \<longleftrightarrow>
     (\<forall>d k v k'. ldb_Get L (ldb_Put L d k v) k' = (if k' = k then Some v else ldb_Get L d k'))"

lemma leveldb_get_put:
  "leveldb_ok L \<Longrightarrow> ldb_Get L (ldb_Put L d k v) k' = (if k' = k then Some v else ldb_Get L d k')"
  by (simp add: leveldb_ok_def)

section \<open>Concurrent hash maps\<close>

text \<open>
  \<open>chm_find\<close> fills an accessor, \<open>chm_emplace\<close> inserts the pair only when the key is absent,
  \<open>chm_write\<close> stores through an accessor of a key that is present, \<open>chm_erase\<close> removes a key,
  \<open>chm_range\<close> is the iteration order.
\<close>

record ('k, 'v, 't) chmap =
  chm_empty :: 't
  chm_find :: "'t \<Rightarrow> 'k \<Rightarrow> 'v option"
  chm_emplace :: "'t \<Rightarrow> 'k \<Rightarrow> 'v \<Rightarrow> 't"
  chm_write :: "'t \<Rightarrow> 'k \<Rightarrow> 'v \<Rightarrow> 't"
  chm_erase :: "'t \<Rightarrow> 'k \<Rightarrow> 't"
  chm_range :: "'t \<Rightarrow> ('k \<times> 'v) list"

definition chm_size :: "('k, 'v, 't) chmap \<Rightarrow> 't \<Rightarrow> nat" where
  "chm_size M t = length (chm_range M t)"

definition chmap_ok :: "('k, 'v, 't) chmap \<Rightarrow> bool" where
  "chmap_ok M \<longleftrightarrow>
     chm_find M (chm_empty M) = Map.empty \<and>
     (\<forall>t k v. chm_find M (chm_emplace M t k v) =
        (if chm_find M t k = None then (chm_find M t)(k \<mapsto> v) else chm_find M t)) \<and>
     (\<forall>t k v. chm_find M t k \<noteq> None \<longrightarrow> chm_find M (chm_write M t k v) = (chm_find M t)(k \<mapsto> v)) \<and>
     (\<forall>t k. chm_find M (chm_erase M t k) = (chm_find M t)(k := None)) \<and>
     (\<forall>t. map_of (chm_range M t) = chm_find M t \<and> distinct (map fst (chm_range M t)))"

lemma chmap_find_empty: "chmap_ok M \<Longrightarrow> chm_find M (chm_empty M) k = None"
  by (simp add: chmap_ok_def)

lemma chmap_find_emplace:
  "chmap_ok M \<Longrightarrow> chm_find M (chm_emplace M t k v) =
     (if chm_find M t k = None then (chm_find M t)(k \<mapsto> v) else chm_find M t)"
  by (simp add: chmap_ok_def)

lemma chmap_find_write:
  "chmap_ok M \<Longrightarrow> chm_find M t k \<noteq> None \<Longrightarrow> chm_find M (chm_write M t k v) = (chm_find M t)(k \<mapsto> v)"
  by (simp add: chmap_ok_def)

lemma chmap_find_erase: "chmap_ok M \<Longrightarrow> chm_find M (chm_erase M t k) = (chm_find M t)(k := None)"
  by (simp add: chmap_ok_def)

lemma chmap_range: "chmap_ok M \<Longrightarrow> map_of (chm_range M t) = chm_find M t"
  by (simp add: chmap_ok_def)

lemma chmap_range_distinct: "chmap_ok M \<Longrightarrow> distinct (map fst (chm_range M t))"
  by (simp add: chmap_ok_def)

lemmas chmap_laws = chmap_find_empty chmap_find_emplace chmap_find_write chmap_find_erase

lemma chmap_range_iff: "chmap_ok M \<Longrightarrow> (k, v) \<in> set (chm_range M t) \<longleftrightarrow> chm_find M t k = Some v"
  by (metis chmap_range chmap_range_distinct map_of_eq_Some_iff)

lemma chmap_size_0: "chmap_ok M \<Longrightarrow> chm_size M t = 0 \<longleftrightarrow> chm_find M t = Map.empty"
  by (metis chmap_range chm_size_def length_0_conv map_of_eq_empty_iff)

section \<open>Concurrent queues\<close>

record ('a, 'q) cqueue =
  cq_empty :: 'q
  cq_push :: "'q \<Rightarrow> 'a \<Rightarrow> 'q"
  cq_try_pop :: "'q \<Rightarrow> ('a \<times> 'q) option"
  cq_list :: "'q \<Rightarrow> 'a list"

definition cqueue_ok :: "('a, 'q) cqueue \<Rightarrow> bool" where
  "cqueue_ok Q \<longleftrightarrow>
     cq_list Q (cq_empty Q) = [] \<and>
     (\<forall>q x. cq_list Q (cq_push Q q x) = cq_list Q q @ [x]) \<and>
     (\<forall>q. (case cq_try_pop Q q of None \<Rightarrow> cq_list Q q = []
           | Some (x, q') \<Rightarrow> cq_list Q q = x # cq_list Q q'))"

lemma cqueue_empty: "cqueue_ok Q \<Longrightarrow> cq_list Q (cq_empty Q) = []"
  by (simp add: cqueue_ok_def)

lemma cqueue_push: "cqueue_ok Q \<Longrightarrow> cq_list Q (cq_push Q q x) = cq_list Q q @ [x]"
  by (simp add: cqueue_ok_def)

lemma cqueue_pop_None: "cqueue_ok Q \<Longrightarrow> cq_try_pop Q q = None \<longleftrightarrow> cq_list Q q = []"
  unfolding cqueue_ok_def
  by (cases "cq_try_pop Q q") (auto dest!: spec [of _ q])

lemma cqueue_pop_Some: "cqueue_ok Q \<Longrightarrow> cq_try_pop Q q = Some (x, q') \<Longrightarrow> cq_list Q q = x # cq_list Q q'"
  unfolding cqueue_ok_def by (auto split: option.splits dest!: spec [of _ q])

section \<open>Instances\<close>

text \<open>Each predicate holds of a plain in-memory implementation.\<close>

definition mem_leveldb :: "(bytes \<rightharpoonup> bytes) leveldb" where
  "mem_leveldb = \<lparr>ldb_Get = (\<lambda>d. d), ldb_Put = (\<lambda>d k v. d(k \<mapsto> v))\<rparr>"

lemma mem_leveldb_ok: "leveldb_ok mem_leveldb"
  by (simp add: leveldb_ok_def mem_leveldb_def)

definition al_chmap :: "('k, 'v, ('k \<times> 'v) list) chmap" where
  "al_chmap = \<lparr>chm_empty = [], chm_find = map_of,
     chm_emplace = (\<lambda>t k v. if map_of t k = None then (k, v) # t else t),
     chm_write = (\<lambda>t k v. (k, v) # AList.delete k t),
     chm_erase = (\<lambda>t k. AList.delete k t),
     chm_range = AList.clearjunk\<rparr>"

lemma al_chmap_ok: "chmap_ok al_chmap"
  by (auto simp: chmap_ok_def al_chmap_def AList.delete_conv' map_of_clearjunk distinct_clearjunk fun_eq_iff)

definition list_cqueue :: "('a, 'a list) cqueue" where
  "list_cqueue = \<lparr>cq_empty = [], cq_push = (\<lambda>q x. q @ [x]),
     cq_try_pop = (\<lambda>q. case q of [] \<Rightarrow> None | x # q' \<Rightarrow> Some (x, q')), cq_list = (\<lambda>q. q)\<rparr>"

lemma list_cqueue_ok: "cqueue_ok list_cqueue"
  by (auto simp: cqueue_ok_def list_cqueue_def split: list.splits)

end
