(* ===== verification/File_To_Worker.thy ===== *)
theory File_To_Worker
  imports External Pack
begin

text \<open>
  \<^verbatim>\<open>proxy/policy/worker-filetoworker*.hpp\<close>: which worker gets the jobs of a file. The base class keeps the
  binding of files to workers; the derived classes pick_worker a worker for an unbound file: the one with the
  fewest pending jobs, a random one, or the one with the fewest pending jobs while the busiest file is moved to a new
  worker. Workers are numbers (the pointers of the code); \<open>valid\<close> and \<open>pending\<close> are
  \<^verbatim>\<open>is_valid\<close> and \<^verbatim>\<open>pending_jobs\<close> of the worker objects. The concurrent maps are library
  parameters (see \<open>External\<close>); the map of bindings compares headers by their key and keeps the header it was given first.
\<close>

section \<open>State\<close>

type_synonym 'f fileid_map = "(bytes, packet_header \<times> nat, 'f) chmap"
type_synonym 'c count_map = "(bytes, int, 'c) chmap"

record 'c counter =
  ct_total :: int
  ct_files :: 'c

record ('f, 'c, 'w) ftw_libs =
  fl_files :: "'f fileid_map"
  fl_counts :: "'c count_map"
  fl_workers :: "(u64, 'c counter, 'w) chmap"

definition ftw_libs_ok :: "('f, 'c, 'w) ftw_libs \<Rightarrow> bool" where
  "ftw_libs_ok L \<longleftrightarrow> chmap_ok (fl_files L) \<and> chmap_ok (fl_counts L) \<and> chmap_ok (fl_workers L)"

text \<open>The draws of the random engine are part of the policy: \<open>draw i\<close> is the \<open>i\<close>-th one.\<close>

datatype ftw_kind = Lowest_load | Random_assign "nat \<Rightarrow> nat" | Active_lowest_load

record ('f, 'c, 'w) ftw =
  fw_kind :: ftw_kind
  fw_fileid :: 'f
  fw_most_count_file :: bytes
  fw_worker_file :: 'w
  fw_transfering :: 'c

definition ftw_new :: "('f, 'c, 'w) ftw_libs \<Rightarrow> ftw_kind \<Rightarrow> ('f, 'c, 'w) ftw" where
  "ftw_new L kind = \<lparr>fw_kind = kind, fw_fileid = chm_empty (fl_files L), fw_most_count_file = replicate 32 0,
     fw_worker_file = chm_empty (fl_workers L), fw_transfering = chm_empty (fl_counts L)\<rparr>"

section \<open>Assigned workers\<close>

definition base_assigned_worker :: "('f, 'c, 'w) ftw_libs \<Rightarrow> packet_header \<Rightarrow> ('f, 'c, 'w) ftw \<Rightarrow> nat option" where
  "base_assigned_worker L h p = map_option snd (chm_find (fl_files L) (fw_fileid p) (ph_key h))"

definition get_assigned_worker :: "('f, 'c, 'w) ftw_libs \<Rightarrow> packet_header \<Rightarrow> ('f, 'c, 'w) ftw \<Rightarrow> nat option" where
  "get_assigned_worker L h p =
     (if fw_kind p = Active_lowest_load \<and> chm_find (fl_counts L) (fw_transfering p) (ph_key h) \<noteq> None then None
      else base_assigned_worker L h p)"

definition emplace_binding :: "('f, 'c, 'w) ftw_libs \<Rightarrow> packet_header \<Rightarrow> nat \<Rightarrow> ('f, 'c, 'w) ftw \<Rightarrow> ('f, 'c, 'w) ftw" where
  "emplace_binding L h w p = p\<lparr>fw_fileid := chm_emplace (fl_files L) (fw_fileid p) (ph_key h) (h, w)\<rparr>"

definition erase_binding :: "('f, 'c, 'w) ftw_libs \<Rightarrow> packet_header \<Rightarrow> ('f, 'c, 'w) ftw \<Rightarrow> ('f, 'c, 'w) ftw" where
  "erase_binding L h p = p\<lparr>fw_fileid := chm_erase (fl_files L) (fw_fileid p) (ph_key h)\<rparr>"

section \<open>Available workers\<close>

fun lowest_loop :: "(nat \<Rightarrow> bool) \<Rightarrow> (nat \<Rightarrow> nat) \<Rightarrow> nat list \<Rightarrow> nat option \<Rightarrow> nat \<Rightarrow> nat option" where
  "lowest_loop valid pending [] best job = best"
| "lowest_loop valid pending (w # ws) best job =
     (if valid w \<and> pending w < job then lowest_loop valid pending ws (Some w) (pending w)
      else lowest_loop valid pending ws best job)"

definition lowest_available :: "(nat \<Rightarrow> bool) \<Rightarrow> (nat \<Rightarrow> nat) \<Rightarrow> nat list \<Rightarrow> nat option" where
  "lowest_available valid pending current_workers = lowest_loop valid pending current_workers None 2147483647"

text \<open>
  The loop of \<^verbatim>\<open>random_assign\<close> draws until it hits a valid worker; a run that does not end is \<open>None\<close>.
\<close>

partial_function (option) random_loop :: "(nat \<Rightarrow> bool) \<Rightarrow> (nat \<Rightarrow> nat) \<Rightarrow> nat list \<Rightarrow> nat \<Rightarrow> nat option" where
  "random_loop valid draw ws i =
     (let pick = ws ! (draw i mod length ws) in if valid pick then Some pick else random_loop valid draw ws (i + 1))"

declare random_loop.simps [code]

definition random_available :: "(nat \<Rightarrow> bool) \<Rightarrow> (nat \<Rightarrow> nat) \<Rightarrow> nat list \<Rightarrow> nat option option" where
  "random_available valid draw current_workers =
     (if current_workers = [] then Some None else map_option Some (random_loop valid draw current_workers 0))"

fun get_available_worker :: "ftw_kind \<Rightarrow> (nat \<Rightarrow> bool) \<Rightarrow> (nat \<Rightarrow> nat) \<Rightarrow> nat list \<Rightarrow> nat option option" where
  "get_available_worker (Random_assign draw) valid pending ws = random_available valid draw ws"
| "get_available_worker _ valid pending ws = Some (lowest_available valid pending ws)"

section \<open>Moving the busiest file\<close>

fun top_file :: "(bytes \<times> int) list \<Rightarrow> bytes \<Rightarrow> int \<Rightarrow> bytes" where
  "top_file [] most worker_top = most"
| "top_file ((h, n) # cs) most worker_top =
     (if n > worker_top then top_file cs h n else top_file cs most worker_top)"

definition reset_counts :: "'c count_map \<Rightarrow> 'c \<Rightarrow> 'c" where
  "reset_counts C t = foldl (\<lambda>t (h, n). chm_write C t h 0) t (chm_range C t)"

fun execute_loop ::
  "('f, 'c, 'w) ftw_libs \<Rightarrow> (u64 \<times> 'c counter) list \<Rightarrow> int \<Rightarrow> bytes \<Rightarrow> 'w \<Rightarrow> bytes \<times> 'w" where
  "execute_loop L [] busiest most t = (most, t)"
| "execute_loop L ((w, info) # ws) busiest most t =
     (let hit = ct_total info > busiest \<and> chm_size (fl_counts L) (ct_files info) > 1;
          most = (if hit then top_file (chm_range (fl_counts L) (ct_files info)) most (-1) else most);
          busiest = (if hit then ct_total info else busiest);
          info = \<lparr>ct_total = 0, ct_files = reset_counts (fl_counts L) (ct_files info)\<rparr>
      in execute_loop L ws busiest most (chm_write (fl_workers L) t w info))"

definition active_execute :: "('f, 'c, 'w) ftw_libs \<Rightarrow> ('f, 'c, 'w) ftw \<Rightarrow> ('f, 'c, 'w) ftw" where
  "active_execute L p =
     (let (most, t) = execute_loop L (chm_range (fl_workers L) (fw_worker_file p)) (-1) (fw_most_count_file p) (fw_worker_file p)
      in p\<lparr>fw_most_count_file := most, fw_worker_file := t\<rparr>)"

definition ftw_execute :: "('f, 'c, 'w) ftw_libs \<Rightarrow> ('f, 'c, 'w) ftw \<Rightarrow> ('f, 'c, 'w) ftw" where
  "ftw_execute L p = (if fw_kind p = Active_lowest_load then active_execute L p else p)"

definition ftw_started_a_new_job :: "('f, 'c, 'w) ftw_libs \<Rightarrow> u64 \<Rightarrow> packet_header \<Rightarrow> ('f, 'c, 'w) ftw \<Rightarrow> ('f, 'c, 'w) ftw" where
  "ftw_started_a_new_job L wid h p =
     (if fw_kind p \<noteq> Active_lowest_load then p
      else case chm_find (fl_workers L) (fw_worker_file p) wid of
          None \<Rightarrow> p\<lparr>fw_worker_file := chm_emplace (fl_workers L) (fw_worker_file p) wid
                     \<lparr>ct_total = 1, ct_files = chm_empty (fl_counts L)\<rparr>\<rparr>
        | Some info \<Rightarrow>
            let C = fl_counts L;
                m = (case chm_find C (ct_files info) (ph_key h) of
                       Some n \<Rightarrow> chm_write C (ct_files info) (ph_key h) (n + 1)
                     | None \<Rightarrow> chm_emplace C (ct_files info) (ph_key h) 1)
            in p\<lparr>fw_worker_file := chm_write (fl_workers L) (fw_worker_file p) wid \<lparr>ct_total = ct_total info + 1, ct_files = m\<rparr>\<rparr>)"

definition ftw_finished_a_job :: "('f, 'c, 'w) ftw_libs \<Rightarrow> u64 \<Rightarrow> packet_header \<Rightarrow> ('f, 'c, 'w) ftw \<Rightarrow> ('f, 'c, 'w) ftw" where
  "ftw_finished_a_job L wid h p =
     (if fw_kind p \<noteq> Active_lowest_load then p
      else case chm_find (fl_workers L) (fw_worker_file p) wid of
          None \<Rightarrow> p
        | Some info \<Rightarrow>
            (case chm_find (fl_counts L) (ct_files info) (ph_key h) of
               None \<Rightarrow> p
             | Some n \<Rightarrow>
                 let p = p\<lparr>fw_worker_file := chm_write (fl_workers L) (fw_worker_file p) wid
                             (info\<lparr>ct_files := chm_write (fl_counts L) (ct_files info) (ph_key h) (n - 1)\<rparr>)\<rparr>
                 in if n - 1 = 0
                    then erase_binding L h (p\<lparr>fw_transfering := chm_erase (fl_counts L) (fw_transfering p) (ph_key h)\<rparr>)
                    else p))"

definition ftw_start_transfer :: "('f, 'c, 'w) ftw_libs \<Rightarrow> ('f, 'c, 'w) ftw \<Rightarrow> ('f, 'c, 'w) ftw" where
  "ftw_start_transfer L p =
     (if fw_kind p \<noteq> Active_lowest_load then p
      else active_execute L (p\<lparr>fw_transfering := chm_emplace (fl_counts L) (fw_transfering p) (fw_most_count_file p) 0\<rparr>))"

section \<open>What the choice promises\<close>

text \<open>
  The interface the launcher relies on: a chosen worker is one of the current workers and valid. A choice that
  never returns is \<open>None\<close>.
\<close>

locale worker_choice =
  fixes pick_worker :: "(nat \<Rightarrow> bool) \<Rightarrow> (nat \<Rightarrow> nat) \<Rightarrow> nat list \<Rightarrow> nat option option"
  assumes chosen: "pick_worker valid pending ws = Some (Some w) \<Longrightarrow> w \<in> set ws \<and> valid w"
begin

lemma none_valid: "\<forall>w \<in> set ws. \<not> valid w \<Longrightarrow> pick_worker valid pending ws = None \<or> pick_worker valid pending ws = Some None"
  using chosen by (metis option.exhaust)

lemma chosen_member: "pick_worker valid pending ws = Some (Some w) \<Longrightarrow> set ws \<subseteq> A \<Longrightarrow> w \<in> A"
  using chosen by blast

end

lemma lowest_loop_in:
  "lowest_loop valid pending ws best job = Some w \<Longrightarrow> (w \<in> set ws \<and> valid w) \<or> best = Some w"
  by (induction ws arbitrary: best job) (fastforce split: if_splits)+

lemma random_loop_valid:
  assumes "random_loop valid draw ws i = Some w" "ws \<noteq> []"
  shows "w \<in> set ws \<and> valid w"
proof -
  have "ws \<noteq> [] \<longrightarrow> w \<in> set ws \<and> valid w"
    by (rule random_loop.raw_induct [where P = "\<lambda>valid draw ws i w. ws \<noteq> [] \<longrightarrow> w \<in> set ws \<and> valid w", OF _ assms(1)])
      (auto simp: Let_def split: if_splits, blast)
  with assms(2) show ?thesis by blast
qed

interpretation choice: worker_choice "get_available_worker kind" for kind
proof
  show "get_available_worker kind valid pending ws = Some (Some w) \<Longrightarrow> w \<in> set ws \<and> valid w" for valid pending ws w
    by (cases kind)
      (auto simp: lowest_available_def random_available_def dest: lowest_loop_in random_loop_valid split: if_splits)
qed

lemma lowest_loop_min:
  assumes "case best of None \<Rightarrow> True | Some b \<Rightarrow> pending b = job"
  shows "case lowest_loop valid pending ws best job of
      None \<Rightarrow> best = None \<and> (\<forall>v \<in> set ws. valid v \<longrightarrow> job \<le> pending v)
    | Some w \<Rightarrow> (\<forall>v \<in> set ws. valid v \<longrightarrow> pending w \<le> pending v) \<and> pending w \<le> job"
  using assms
proof (induction ws arbitrary: best job)
  case Nil
  then show ?case by (auto split: option.splits)
next
  case (Cons u ws)
  show ?case
  proof (cases "valid u \<and> pending u < job")
    case True
    with Cons.IH [where best = "Some u" and job = "pending u"] show ?thesis by (auto split: option.splits)
  next
    case False
    with Cons.IH [where best = best and job = job] Cons.prems show ?thesis by (auto split: option.splits)
  qed
qed

lemma lowest_loop_less:
  "lowest_loop valid pending ws best job = Some w \<Longrightarrow> best = Some w \<or> pending w < job"
  by (induction ws arbitrary: best job) (fastforce split: if_splits)+

lemma random_loop_hits:
  "\<lbrakk>valid (ws ! (draw (i + n) mod length ws)); \<forall>m < n. \<not> valid (ws ! (draw (i + m) mod length ws))\<rbrakk> \<Longrightarrow>
   random_loop valid draw ws i = Some (ws ! (draw (i + n) mod length ws))"
proof (induction n arbitrary: i)
  case 0
  then show ?case by (subst random_loop.simps) (simp add: Let_def)
next
  case (Suc n)
  from Suc.prems(2) have "\<not> valid (ws ! (draw i mod length ws))" by fastforce
  moreover have "random_loop valid draw ws (i + 1) = Some (ws ! (draw (i + Suc n) mod length ws))"
    using Suc.IH [of "i + 1"] Suc.prems by fastforce
  ultimately show ?case by (subst random_loop.simps) (simp add: Let_def)
qed



section \<open>A binding lost too early\<close>

text \<open>
  The first job of a worker is not entered into its file counters, so after two started jobs of one file, the first
  finished one brings the counter to zero and removes the binding while the other job is still running.
\<close>

lemma active_binding_lost_early:
  assumes ok: "ftw_libs_ok L" and p: "fw_kind p = Active_lowest_load" "chm_find (fl_workers L) (fw_worker_file p) wid = None"
  shows "base_assigned_worker L h
    (ftw_finished_a_job L wid h (ftw_started_a_new_job L wid h (ftw_started_a_new_job L wid h p))) = None"
proof -
  have F: "chmap_ok (fl_files L)" and C: "chmap_ok (fl_counts L)" and W: "chmap_ok (fl_workers L)"
    using ok by (simp_all add: ftw_libs_ok_def)
  define p1 where "p1 = ftw_started_a_new_job L wid h p"
  have 1: "fw_kind p1 = Active_lowest_load"
    "chm_find (fl_workers L) (fw_worker_file p1) wid = Some \<lparr>ct_total = 1, ct_files = chm_empty (fl_counts L)\<rparr>"
    using p by (simp_all add: p1_def ftw_started_a_new_job_def chmap_find_emplace [OF W])
  define c where "c = chm_emplace (fl_counts L) (chm_empty (fl_counts L)) (ph_key h) 1"
  define p2 where "p2 = ftw_started_a_new_job L wid h p1"
  have 2: "fw_kind p2 = Active_lowest_load" "chm_find (fl_workers L) (fw_worker_file p2) wid = Some \<lparr>ct_total = 2, ct_files = c\<rparr>"
    using 1 by (simp_all add: p2_def ftw_started_a_new_job_def chmap_find_write [OF W] chmap_find_empty [OF C] c_def Let_def)
  have "chm_find (fl_counts L) c (ph_key h) = Some 1"
    by (simp add: c_def chmap_find_emplace [OF C] chmap_find_empty [OF C])
  with 2 show ?thesis
    by (simp add: ftw_finished_a_job_def base_assigned_worker_def erase_binding_def Let_def chmap_find_erase [OF F]
        flip: p1_def p2_def)
qed

end
