(* ===== verification/Launcher.thy ===== *)
theory Launcher
  imports Launch_Policy Keepalive File_To_Worker "HOL-Library.Monad_Syntax"
begin

text \<open>
  The scheduler of the proxy: \<^verbatim>\<open>proxy/launcher.hpp\<close>, \<^verbatim>\<open>launcher-job.hpp\<close>, \<^verbatim>\<open>launcher-policy.hpp\<close>
  and \<^verbatim>\<open>worker.hpp\<close>. Workers and jobs are shared objects, here numbers into the lists of the state.
  What the code hands to \<^verbatim>\<open>net::post\<close> is in the list of open tasks, and any of them may run next; a handler
  runs without interruption. Packets written to a worker and completed jobs are recorded as outputs. \<open>None\<close> is a read or
  copy outside a buffer, a division by zero or a loop that does not return.
\<close>

section \<open>Jobs, workers and the state\<close>

datatype job_state = Job_registered | Job_started | Job_finished

record launcher_job =
  jb_state :: job_state
  jb_pack :: packet
  jb_next :: nat
  jb_timer :: bool

definition job_new :: "packet \<Rightarrow> nat \<Rightarrow> launcher_job" where
  "job_new pack next = \<lparr>jb_state = Job_registered, jb_pack = pack, jb_next = next, jb_timer = False\<rparr>"

record 'j worker =
  wk_id :: u64
  wk_valid :: bool
  wk_jobs :: 'j

type_synonym worker_endpoint = "bytes \<times> u16"

record transfer_request =
  tr_file_bindings :: "packet_header list"
  tr_cache_tables :: packet

datatype keepalive = K_base | K_const u32 | K_moving moving | K_global moving_global

datatype notice =
    N_execute
  | N_schedule nat
  | N_reschedule nat
  | N_started nat nat
  | N_finished nat nat
  | N_starting
  | N_registered nat bool
  | N_deregistered nat u32 u32

datatype launcher_task =
    Process nat
  | Process_direct packet nat
  | Notify notice
  | Ack_task nat packet
  | Response_task nat packet
  | Create_workers

datatype effect =
    Send nat packet
  | Completed nat packet
  | Reply nat packet
  | Shutdown nat

record ('j, 's, 'q, 'f, 'c, 'w) launcher =
  lc_workers :: "'j worker list"
  lc_jobs :: "launcher_job list"
  lc_worker_set :: 's
  lc_launch :: launch_policy
  lc_keepalive :: keepalive
  lc_ftw :: "('f, 'c, 'w) ftw"
  lc_transfers :: 'q
  lc_tasks :: "launcher_task list"
  lc_outs :: "effect list"

text \<open>The libraries, and the values of a policy that the code computes in floating point or draws at random.\<close>

record ('j, 's, 'q, 'f, 'c, 'w) libs =
  li_jobs :: "(bytes \<times> bytes \<times> bytes, nat, 'j) chmap"
  li_set :: "(nat, worker_endpoint, 's) chmap"
  li_queue :: "(transfer_request, 'q) cqueue"
  li_ftw :: "('f, 'c, 'w) ftw_libs"
  li_margin :: "u32 \<Rightarrow> u32"
  li_margin_global :: "u32 \<Rightarrow> u32"
  li_within :: "sma \<Rightarrow> bool"
  li_timer_header :: packet_header

definition libs_ok :: "('j, 's, 'q, 'f, 'c, 'w) libs \<Rightarrow> bool" where
  "libs_ok L \<longleftrightarrow> chmap_ok (li_jobs L) \<and> chmap_ok (li_set L) \<and> cqueue_ok (li_queue L) \<and> ftw_libs_ok (li_ftw L)"

definition launcher_new ::
  "('j, 's, 'q, 'f, 'c, 'w) libs \<Rightarrow> launch_policy \<Rightarrow> keepalive \<Rightarrow> ftw_kind \<Rightarrow> ('j, 's, 'q, 'f, 'c, 'w) launcher" where
  "launcher_new L launch keep kind = \<lparr>lc_workers = [], lc_jobs = [], lc_worker_set = chm_empty (li_set L), lc_launch = launch,
     lc_keepalive = keep, lc_ftw = ftw_new (li_ftw L) kind, lc_transfers = cq_empty (li_queue L), lc_tasks = [], lc_outs = []\<rparr>"

definition post :: "launcher_task list \<Rightarrow> ('j, 's, 'q, 'f, 'c, 'w) launcher \<Rightarrow> ('j, 's, 'q, 'f, 'c, 'w) launcher" where
  "post ts l = l\<lparr>lc_tasks := lc_tasks l @ ts\<rparr>"

definition emit :: "effect list \<Rightarrow> ('j, 's, 'q, 'f, 'c, 'w) launcher \<Rightarrow> ('j, 's, 'q, 'f, 'c, 'w) launcher" where
  "emit os l = l\<lparr>lc_outs := lc_outs l @ os\<rparr>"

definition job_header :: "('j, 's, 'q, 'f, 'c, 'w) launcher \<Rightarrow> nat \<Rightarrow> packet_header" where
  "job_header l j = pk_header (jb_pack (lc_jobs l ! j))"

definition is_valid :: "('j, 's, 'q, 'f, 'c, 'w) launcher \<Rightarrow> nat \<Rightarrow> bool" where
  "is_valid l w = wk_valid (lc_workers l ! w)"

definition pending_jobs :: "('j, 's, 'q, 'f, 'c, 'w) libs \<Rightarrow> ('j, 's, 'q, 'f, 'c, 'w) launcher \<Rightarrow> nat \<Rightarrow> nat" where
  "pending_jobs L l w = chm_size (li_jobs L) (wk_jobs (lc_workers l ! w))"

section \<open>Scheduling\<close>

definition schedule :: "nat \<Rightarrow> ('j, 's, 'q, 'f, 'c, 'w) launcher \<Rightarrow> ('j, 's, 'q, 'f, 'c, 'w) launcher" where
  "schedule j l = post [Notify (N_schedule j), Process j] l"

definition reschedule :: "nat \<Rightarrow> ('j, 's, 'q, 'f, 'c, 'w) launcher \<Rightarrow> ('j, 's, 'q, 'f, 'c, 'w) launcher" where
  "reschedule j l = post [Notify (N_reschedule j), Process j] l"

definition worker_write ::
  "nat \<Rightarrow> packet \<Rightarrow> ('j, 's, 'q, 'f, 'c, 'w) launcher \<Rightarrow> ('j, 's, 'q, 'f, 'c, 'w) launcher" where
  "worker_write w pack l = emit [Send w pack] l"

definition worker_start_job ::
  "('j, 's, 'q, 'f, 'c, 'w) libs \<Rightarrow> nat \<Rightarrow> nat \<Rightarrow> ('j, 's, 'q, 'f, 'c, 'w) launcher \<Rightarrow> ('j, 's, 'q, 'f, 'c, 'w) launcher" where
  "worker_start_job L w j l =
     (let wk = lc_workers l ! w;
          wk = wk\<lparr>wk_jobs := chm_emplace (li_jobs L) (wk_jobs wk) (full_key (job_header l j)) j\<rparr>
      in emit [Send w (jb_pack (lc_jobs l ! j))] (l\<lparr>lc_workers := (lc_workers l)[w := wk]\<rparr>))"

text \<open>A null or invalid pointer is no worker.\<close>

definition usable :: "('j, 's, 'q, 'f, 'c, 'w) launcher \<Rightarrow> nat option \<Rightarrow> nat option" where
  "usable l r = (case r of Some w \<Rightarrow> if is_valid l w then Some w else None | None \<Rightarrow> None)"

text \<open>The common beginning of \<^verbatim>\<open>process_job\<close> and \<^verbatim>\<open>process_job_with_worker\<close>: assigned, else available, then bound.\<close>

definition find_worker ::
  "('j, 's, 'q, 'f, 'c, 'w) libs \<Rightarrow> packet_header \<Rightarrow> ('j, 's, 'q, 'f, 'c, 'w) launcher \<Rightarrow>
     (nat option \<times> ('j, 's, 'q, 'f, 'c, 'w) launcher) option" where
  "find_worker L h l =
     (case usable l (get_assigned_worker (li_ftw L) h (lc_ftw l)) of
        Some w \<Rightarrow> Some (Some w, l)
      | None \<Rightarrow> do {
          r \<leftarrow> get_available_worker (fw_kind (lc_ftw l)) (is_valid l) (pending_jobs L l)
                 (map fst (chm_range (li_set L) (lc_worker_set l)));
          Some (case usable l r of
              None \<Rightarrow> (None, l)
            | Some w \<Rightarrow> (Some w, l\<lparr>lc_ftw := emplace_binding (li_ftw L) h w (lc_ftw l)\<rparr>))
        })"

definition process_job ::
  "('j, 's, 'q, 'f, 'c, 'w) libs \<Rightarrow> nat \<Rightarrow> ('j, 's, 'q, 'f, 'c, 'w) launcher \<Rightarrow> ('j, 's, 'q, 'f, 'c, 'w) launcher option" where
  "process_job L j l = do {
     (r, l) \<leftarrow> find_worker L (job_header l j) l;
     Some (case r of
         None \<Rightarrow> reschedule j l
       | Some w \<Rightarrow>
           let l = worker_start_job L w j (post [Notify (N_started w j)] l)
           in l\<lparr>lc_jobs := (lc_jobs l)[j := (lc_jobs l ! j)\<lparr>jb_timer := True\<rparr>]\<rparr>)
   }"

text \<open>In direct mode the client gets the address of the worker.\<close>

definition direct_answer ::
  "('j, 's, 'q, 'f, 'c, 'w) libs \<Rightarrow> packet \<Rightarrow> nat \<Rightarrow> ('j, 's, 'q, 'f, 'c, 'w) launcher \<Rightarrow> packet" where
  "direct_answer L pack w l =
     (let (host, port) = (case chm_find (li_set L) (lc_worker_set l) w of Some e \<Rightarrow> e | None \<Rightarrow> (replicate 4 0, 0))
      in pack\<lparr>pk_buf := host @ mem16 (hton16 port)\<rparr>)"

definition process_job_with_worker ::
  "('j, 's, 'q, 'f, 'c, 'w) libs \<Rightarrow> packet \<Rightarrow> nat \<Rightarrow> ('j, 's, 'q, 'f, 'c, 'w) launcher \<Rightarrow> ('j, 's, 'q, 'f, 'c, 'w) launcher option" where
  "process_job_with_worker L pack next l = do {
     (r, l) \<leftarrow> find_worker L (pk_header pack) l;
     Some (case r of
         None \<Rightarrow> post [Process_direct pack next] l
       | Some w \<Rightarrow> emit [Reply next (direct_answer L pack w l)] l)
   }"

definition start_trigger_post ::
  "('j, 's, 'q, 'f, 'c, 'w) libs \<Rightarrow> bool \<Rightarrow> bytes \<Rightarrow> packet \<Rightarrow> nat \<Rightarrow>
     ('j, 's, 'q, 'f, 'c, 'w) launcher \<Rightarrow> ('j, 's, 'q, 'f, 'c, 'w) launcher option" where
  "start_trigger_post L enable_direct body original_pack next l =
     (let pack = \<lparr>pk_header = set_type Worker_push_request (pk_header original_pack), pk_buf = body\<rparr>
      in if enable_direct then process_job_with_worker L pack next l
         else let j = length (lc_jobs l) in Some (schedule j (l\<lparr>lc_jobs := lc_jobs l @ [job_new pack next]\<rparr>)))"

section \<open>Answers of a worker\<close>

definition on_worker_ack ::
  "('j, 's, 'q, 'f, 'c, 'w) libs \<Rightarrow> nat \<Rightarrow> packet \<Rightarrow> ('j, 's, 'q, 'f, 'c, 'w) launcher \<Rightarrow> ('j, 's, 'q, 'f, 'c, 'w) launcher" where
  "on_worker_ack L w pack l =
     (if packet_empty pack then l
      else case chm_find (li_jobs L) (wk_jobs (lc_workers l ! w)) (full_key (pk_header pack)) of
          None \<Rightarrow> l
        | Some j \<Rightarrow> l\<lparr>lc_jobs := (lc_jobs l)[j := (lc_jobs l ! j)\<lparr>jb_state := Job_started, jb_timer := False\<rparr>]\<rparr>)"

definition on_worker_response ::
  "('j, 's, 'q, 'f, 'c, 'w) libs \<Rightarrow> nat \<Rightarrow> packet \<Rightarrow> ('j, 's, 'q, 'f, 'c, 'w) launcher \<Rightarrow> ('j, 's, 'q, 'f, 'c, 'w) launcher" where
  "on_worker_response L w pack l =
     (let wk = lc_workers l ! w; k = full_key (pk_header pack) in
      case chm_find (li_jobs L) (wk_jobs wk) k of
        None \<Rightarrow> l
      | Some j \<Rightarrow>
          post [Notify (N_finished w j)]
            (emit [Completed j pack]
              (l\<lparr>lc_workers := (lc_workers l)[w := wk\<lparr>wk_jobs := chm_erase (li_jobs L) (wk_jobs wk) k\<rparr>],
                 lc_jobs := (lc_jobs l)[j := (lc_jobs l ! j)\<lparr>jb_state := Job_finished\<rparr>]\<rparr>)))"

section \<open>Closing a worker\<close>

text \<open>
  The files named in a cache table: 32 bytes of key, then everything up to the next space is skipped. The header
  of a binding has its key only; its other fields are overwritten before they are used.
\<close>

definition binding_header :: "bytes \<Rightarrow> packet_header" where
  "binding_header key = \<lparr>ph_type = 0, ph_key = key, ph_datasize = 0, ph_sequence = replicate 4 0, ph_random_salt = replicate 4 0\<rparr>"

function get_fileids_from_transfer :: "bytes \<Rightarrow> packet_header list option" where
  "get_fileids_from_transfer buf =
     (if buf = [] then Some []
      else if length buf < 32 then None
      else map_option ((#) (binding_header (take 32 buf)))
             (get_fileids_from_transfer (drop 1 (dropWhile (\<lambda>c. c \<noteq> 32) (drop 32 buf)))))"
  by pat_completeness auto
termination
proof (relation "measure length")
  fix buf :: bytes
  assume "buf \<noteq> []"
  then have "0 < length buf" by simp
  moreover have "length (dropWhile (\<lambda>c. c \<noteq> 32) (drop 32 buf)) \<le> length buf - 32"
    using length_dropWhile_le [of "\<lambda>c. c \<noteq> 32" "drop 32 buf"] by (simp only: length_drop)
  ultimately have "length (dropWhile (\<lambda>c. c \<noteq> 32) (drop 32 buf)) - 1 < length buf" by arith
  then show "(drop 1 (dropWhile (\<lambda>c. c \<noteq> 32) (drop 32 buf)), buf) \<in> measure length" by simp
qed simp

declare get_fileids_from_transfer.simps [simp del]

definition on_worker_close ::
  "('j, 's, 'q, 'f, 'c, 'w) libs \<Rightarrow> nat \<Rightarrow> packet \<Rightarrow> ('j, 's, 'q, 'f, 'c, 'w) launcher \<Rightarrow> ('j, 's, 'q, 'f, 'c, 'w) launcher option" where
  "on_worker_close L w to_transfer l =
     (let buf = pk_buf to_transfer; n = length buf - 8 in
      if length buf < 8 then None
      else do {
        let to_transfer = to_transfer\<lparr>pk_buf := take n buf\<rparr>;
        file_bindings \<leftarrow> get_fileids_from_transfer (take n buf);
        Some (post [Notify (N_deregistered w (of_mem32 (slice n 4 buf)) (of_mem32 (slice (n + 4) 4 buf)))]
          (l\<lparr>lc_transfers := cq_push (li_queue L) (lc_transfers l) \<lparr>tr_file_bindings = file_bindings, tr_cache_tables = to_transfer\<rparr>,
             lc_worker_set := chm_erase (li_set L) (lc_worker_set l) w\<rparr>))
      })"

definition on_worker_reschedule ::
  "('j, 's, 'q, 'f, 'c, 'w) libs \<Rightarrow> nat \<Rightarrow> ('j, 's, 'q, 'f, 'c, 'w) launcher \<Rightarrow> ('j, 's, 'q, 'f, 'c, 'w) launcher" where
  "on_worker_reschedule L j l = reschedule j (l\<lparr>lc_ftw := erase_binding (li_ftw L) (job_header l j) (lc_ftw l)\<rparr>)"

definition worker_close ::
  "('j, 's, 'q, 'f, 'c, 'w) libs \<Rightarrow> nat \<Rightarrow> packet option \<Rightarrow> ('j, 's, 'q, 'f, 'c, 'w) launcher \<Rightarrow> ('j, 's, 'q, 'f, 'c, 'w) launcher option" where
  "worker_close L w to_transfer l = do {
     let l = emit [Shutdown w] (l\<lparr>lc_workers := (lc_workers l)[w := (lc_workers l ! w)\<lparr>wk_valid := False\<rparr>]\<rparr>);
     l \<leftarrow> (case to_transfer of None \<Rightarrow> Some l | Some pack \<Rightarrow> on_worker_close L w pack l);
     Some (foldl (\<lambda>l (_, j). on_worker_reschedule L j l) l (chm_range (li_jobs L) (wk_jobs (lc_workers l ! w))))
   }"

section \<open>New workers\<close>

text \<open>
  A binding of a transferred file is added when the file is unbound; when it is bound to an invalid worker, the code
  calls \<^verbatim>\<open>emplace\<close> too.
\<close>

definition add_binding ::
  "('j, 's, 'q, 'f, 'c, 'w) libs \<Rightarrow> nat \<Rightarrow> ('j, 's, 'q, 'f, 'c, 'w) launcher \<Rightarrow> packet_header \<Rightarrow> ('j, 's, 'q, 'f, 'c, 'w) launcher" where
  "add_binding L w l h =
     (case base_assigned_worker (li_ftw L) h (lc_ftw l) of
        Some v \<Rightarrow> if \<not> is_valid l v then l\<lparr>lc_ftw := emplace_binding (li_ftw L) h w (lc_ftw l)\<rparr> else l
      | None \<Rightarrow> l\<lparr>lc_ftw := emplace_binding (li_ftw L) h w (lc_ftw l)\<rparr>)"

definition parse_endpoint :: "bytes \<Rightarrow> worker_endpoint option" where
  "parse_endpoint buf = (if length buf < 6 then None else Some (take 4 buf, ntoh16 (of_mem16 (slice 4 2 buf))))"

definition add_worker ::
  "('j, 's, 'q, 'f, 'c, 'w) libs \<Rightarrow> u64 \<Rightarrow> packet \<Rightarrow> ('j, 's, 'q, 'f, 'c, 'w) launcher \<Rightarrow> ('j, 's, 'q, 'f, 'c, 'w) launcher option" where
  "add_worker L wid worker_info l = do {
     let w = length (lc_workers l);
     endpoint \<leftarrow> parse_endpoint (pk_buf worker_info);
     let l = l\<lparr>lc_workers := lc_workers l @ [\<lparr>wk_id = wid, wk_valid = True, wk_jobs = chm_empty (li_jobs L)\<rparr>],
               lc_worker_set := chm_emplace (li_set L) (lc_worker_set l) w endpoint\<rparr>;
     Some (case cq_try_pop (li_queue L) (lc_transfers l) of
         None \<Rightarrow> post [Notify (N_registered w False)] l
       | Some (tr, q) \<Rightarrow>
           let l = foldl (add_binding L w) (l\<lparr>lc_transfers := q\<rparr>) (tr_file_bindings tr);
               pack = (tr_cache_tables tr)\<lparr>pk_header := set_type Cache_transfer (pk_header (tr_cache_tables tr))\<rparr>
           in post [Notify (N_registered w True)] (worker_write w pack l))
   }"

definition create_worker ::
  "('j, 's, 'q, 'f, 'c, 'w) libs \<Rightarrow> ('j, 's, 'q, 'f, 'c, 'w) launcher \<Rightarrow> ('j, 's, 'q, 'f, 'c, 'w) launcher" where
  "create_worker L l = (let l = post [Notify N_starting] l in l\<lparr>lc_ftw := ftw_start_transfer (li_ftw L) (lc_ftw l)\<rparr>)"

definition start_create_workers ::
  "('j, 's, 'q, 'f, 'c, 'w) libs \<Rightarrow> ('j, 's, 'q, 'f, 'c, 'w) launcher \<Rightarrow> ('j, 's, 'q, 'f, 'c, 'w) launcher" where
  "start_create_workers L l =
     (create_worker L ^^ nat (delta (chm_size (li_set L) (lc_worker_set l)) (lc_launch l))) l"

text \<open>The policy timer, every second.\<close>

definition start_execute_policy :: "('j, 's, 'q, 'f, 'c, 'w) launcher \<Rightarrow> ('j, 's, 'q, 'f, 'c, 'w) launcher" where
  "start_execute_policy l = post [Notify N_execute, Create_workers] l"

section \<open>The policies\<close>

definition keepalive_duration :: "('j, 's, 'q, 'f, 'c, 'w) libs \<Rightarrow> u64 \<Rightarrow> keepalive \<Rightarrow> u32 option option" where
  "keepalive_duration L wid k = (case k of
     K_base \<Rightarrow> base_keepalive
   | K_const ms \<Rightarrow> const_keepalive ms
   | K_moving m \<Rightarrow> moving_keepalive (li_margin L) wid m
   | K_global g \<Rightarrow> moving_global_keepalive (li_within L) (li_margin_global L) g)"

definition keepalive_started :: "int \<Rightarrow> u64 \<Rightarrow> keepalive \<Rightarrow> keepalive option" where
  "keepalive_started now wid k = (case k of
     K_moving m \<Rightarrow> map_option K_moving (moving_started now wid m)
   | K_global g \<Rightarrow> map_option K_global (moving_global_started now g)
   | _ \<Rightarrow> Some k)"

text \<open>The random fields of a timer packet are in \<open>li_timer_header\<close>.\<close>

fun set_worker_keepalive ::
  "('j, 's, 'q, 'f, 'c, 'w) libs \<Rightarrow> nat list \<Rightarrow> ('j, 's, 'q, 'f, 'c, 'w) launcher \<Rightarrow> ('j, 's, 'q, 'f, 'c, 'w) launcher option" where
  "set_worker_keepalive L [] l = Some l"
| "set_worker_keepalive L (w # ws) l =
     (if is_valid l w then do {
        d \<leftarrow> keepalive_duration L (wk_id (lc_workers l ! w)) (lc_keepalive l);
        set_worker_keepalive L ws (case d of
            None \<Rightarrow> l
          | Some ms \<Rightarrow> let h = li_timer_header L in
              worker_write w (send_worker_keepalive h (ph_random_salt h) (ph_sequence h) ms) l)
      }
      else set_worker_keepalive L ws l)"

definition datasize :: "('j, 's, 'q, 'f, 'c, 'w) launcher \<Rightarrow> nat \<Rightarrow> u32" where
  "datasize l j = ph_datasize (job_header l j)"

definition ws_size :: "('j, 's, 'q, 'f, 'c, 'w) libs \<Rightarrow> ('j, 's, 'q, 'f, 'c, 'w) launcher \<Rightarrow> nat" where
  "ws_size L l = chm_size (li_set L) (lc_worker_set l)"

text \<open>The posted notices; \<open>now\<close> is the clock in nanoseconds.\<close>

fun run_notice ::
  "('j, 's, 'q, 'f, 'c, 'w) libs \<Rightarrow> nat \<Rightarrow> notice \<Rightarrow> ('j, 's, 'q, 'f, 'c, 'w) launcher \<Rightarrow> ('j, 's, 'q, 'f, 'c, 'w) launcher option" where
  "run_notice L now N_execute l = do {
     l \<leftarrow> set_worker_keepalive L (map fst (chm_range (li_set L) (lc_worker_set l))) l;
     la \<leftarrow> policy_execute (of_nat now) (lc_launch l);
     Some (l\<lparr>lc_launch := la, lc_ftw := ftw_execute (li_ftw L) (lc_ftw l)\<rparr>)
   }"
| "run_notice L now (N_schedule j) l = Some (l\<lparr>lc_launch := policy_schedule (ws_size L l) (datasize l j) (lc_launch l)\<rparr>)"
| "run_notice L now (N_reschedule j) l = Some (l\<lparr>lc_launch := policy_reschedule (ws_size L l) (lc_launch l)\<rparr>)"
| "run_notice L now (N_started w j) l = do {
     let wid = wk_id (lc_workers l ! w);
     k \<leftarrow> keepalive_started (int now) wid (lc_keepalive l);
     Some (l\<lparr>lc_keepalive := k, lc_launch := policy_started (datasize l j) (lc_launch l),
             lc_ftw := ftw_started_a_new_job (li_ftw L) wid (job_header l j) (lc_ftw l)\<rparr>)
   }"
| "run_notice L now (N_finished w j) l =
     Some (l\<lparr>lc_launch := policy_finished (datasize l j) (lc_launch l),
             lc_ftw := ftw_finished_a_job (li_ftw L) (wk_id (lc_workers l ! w)) (job_header l j) (lc_ftw l)\<rparr>)"
| "run_notice L now N_starting l = Some (l\<lparr>lc_launch := policy_starting (lc_launch l)\<rparr>)"
| "run_notice L now (N_registered w tr) l = Some (l\<lparr>lc_launch := policy_registered (lc_launch l)\<rparr>)"
| "run_notice L now (N_deregistered w hits evictions) l = Some l"

section \<open>Packets of a worker\<close>

text \<open>
  A header of a worker is followed by its body for two types only; other known types are dropped, and after an
  unknown type the connection is not read any more.
\<close>

definition worker_body_len :: "packet_header \<Rightarrow> nat" where
  "worker_body_len h = (case msg_of (ph_type h) of
     Some Worker_dereg \<Rightarrow> unat (ph_datasize h)
   | Some Worker_response \<Rightarrow> unat (ph_datasize h)
   | _ \<Rightarrow> 0)"

fun worker_packets ::
  "('j, 's, 'q, 'f, 'c, 'w) libs \<Rightarrow> nat \<Rightarrow> (packet_header \<times> bytes) list \<Rightarrow> ('j, 's, 'q, 'f, 'c, 'w) launcher \<Rightarrow>
     ('j, 's, 'q, 'f, 'c, 'w) launcher option" where
  "worker_packets L w [] l = Some l"
| "worker_packets L w ((h, body) # ps) l =
     (let pack = \<lparr>pk_header = h, pk_buf = body\<rparr> in
      case msg_of (ph_type h) of
        Some Worker_dereg \<Rightarrow> worker_close L w (Some pack) l
      | Some Worker_response \<Rightarrow> worker_packets L w ps (post [Response_task w pack] l)
      | Some Ack \<Rightarrow> worker_packets L w ps (post [Ack_task w pack] l)
      | Some _ \<Rightarrow> worker_packets L w ps l
      | None \<Rightarrow> Some l)"

definition worker_read ::
  "('j, 's, 'q, 'f, 'c, 'w) libs \<Rightarrow> nat \<Rightarrow> bytes \<Rightarrow> ('j, 's, 'q, 'f, 'c, 'w) launcher \<Rightarrow> ('j, 's, 'q, 'f, 'c, 'w) launcher option" where
  "worker_read L w stream l = worker_packets L w (fst (read_frames parse bytesize worker_body_len stream)) l"

text \<open>
  The timer of a job: the handler acts on errors other than a cancellation only, so that an expired timer
  does nothing.
\<close>

datatype timer_result = Expired | Canceled | Timer_error

definition job_timer ::
  "timer_result \<Rightarrow> nat \<Rightarrow> ('j, 's, 'q, 'f, 'c, 'w) launcher \<Rightarrow> ('j, 's, 'q, 'f, 'c, 'w) launcher" where
  "job_timer ec j l = (if ec = Timer_error then reschedule j l else l)"

section \<open>Reconfiguration\<close>

text \<open>\<^verbatim>\<open>std::upper_bound\<close> on the sorted list of proxies, wrapping around at the end.\<close>

fun array_less :: "bytes \<Rightarrow> bytes \<Rightarrow> bool" where
  "array_less (a # as) (b # bs) = (a < b \<or> (a = b \<and> array_less as bs))"
| "array_less [] (b # bs) = True"
| "array_less as [] = False"

definition proxy_of :: "bytes list \<Rightarrow> bytes \<Rightarrow> bytes option" where
  "proxy_of proxies key = (case List.find (array_less key) proxies of Some p \<Rightarrow> Some p | None \<Rightarrow> (case proxies of [] \<Rightarrow> None | p # _ \<Rightarrow> Some p))"

definition start_send_reconfigure_message ::
  "packet_header \<Rightarrow> nat \<Rightarrow> worker_endpoint \<Rightarrow> ('j, 's, 'q, 'f, 'c, 'w) launcher \<Rightarrow> ('j, 's, 'q, 'f, 'c, 'w) launcher" where
  "start_send_reconfigure_message h w new_proxy l =
     worker_write w \<lparr>pk_header = set_type Proxyjoin h, pk_buf = fst new_proxy @ mem16 (hton16 (snd new_proxy))\<rparr> l"

fun reconfigure_loop ::
  "bytes list \<Rightarrow> (bytes \<Rightarrow> worker_endpoint) \<Rightarrow> bytes \<Rightarrow> (bytes \<times> packet_header \<times> nat) list \<Rightarrow>
     ('j, 's, 'q, 'f, 'c, 'w) launcher \<Rightarrow> ('j, 's, 'q, 'f, 'c, 'w) launcher option" where
  "reconfigure_loop proxies resolve me [] l = Some l"
| "reconfigure_loop proxies resolve me ((key, h, w) # bs) l = do {
     p \<leftarrow> proxy_of proxies key;
     reconfigure_loop proxies resolve me bs
       (if p \<noteq> me then start_send_reconfigure_message h w (resolve p) l else l)
   }"

definition reconfigure ::
  "('j, 's, 'q, 'f, 'c, 'w) libs \<Rightarrow> bytes list \<Rightarrow> (bytes \<Rightarrow> worker_endpoint) \<Rightarrow> bytes \<Rightarrow>
     ('j, 's, 'q, 'f, 'c, 'w) launcher \<Rightarrow> ('j, 's, 'q, 'f, 'c, 'w) launcher option" where
  "reconfigure L proxies resolve me l =
     reconfigure_loop proxies resolve me (chm_range (fl_files (li_ftw L)) (fw_fileid (lc_ftw l))) l"

lemma array_less_replicate: "array_less (replicate n a) (replicate n b) \<longleftrightarrow> 0 < n \<and> a < b"
  by (induction n) auto

end
