(* ===== verification/Membership.thy ===== *)
theory Membership
  imports Launcher "HOL-Library.List_Lexorder"
begin

text \<open>
  The membership of proxies, \<^verbatim>\<open>proxy/zookeeper.hpp\<close>, with the textual form of their identifiers,
  \<^verbatim>\<open>proxy/uuid.hpp\<close>. The proxies are nodes below \<open>/slsfs/proxy\<close> of a ZooKeeper service. Each writes its node
  every two seconds, and each checks the node that follows its own in the order of the identifiers. The service and
  the base64 codec are parameters (\<open>zk_ok\<close>, \<open>codec_ok\<close>). Shown: the owner of a file moves only with the proxy that
  joins or leaves, the ring of checks removes every crashed proxy and no other one, and when the clock of a proxy
  differs from the clock of the service the check is off by twice the difference.
\<close>

section \<open>Libraries\<close>

text \<open>\<open>b64_enc\<close> and \<open>b64_dec\<close> are \<^verbatim>\<open>Poco::Base64Encoder\<close> and \<^verbatim>\<open>Poco::Base64Decoder\<close> on whole strings.\<close>

record codec =
  b64_enc :: "bytes \<Rightarrow> bytes"
  b64_dec :: "bytes \<Rightarrow> bytes"

definition codec_ok :: "codec \<Rightarrow> bool" where
  "codec_ok C \<longleftrightarrow> (\<forall>b. length b = 32 \<longrightarrow> b64_dec C (b64_enc C b) = b \<and> 95 \<notin> set (b64_enc C b) \<and> b64_enc C b \<noteq> [])"

text \<open>
  The service as the client library presents it: \<open>None\<close> is a future that holds an exception. A node has its data
  and the time of its last modification on the clock of the service, which the writing operations take as an
  argument.
\<close>

record 'z zkservice =
  zk_get :: "'z \<Rightarrow> bytes \<Rightarrow> (bytes \<times> int) option"
  zk_children :: "'z \<Rightarrow> bytes \<Rightarrow> bytes list option"
  zk_create :: "'z \<Rightarrow> bytes \<Rightarrow> bytes \<Rightarrow> int \<Rightarrow> 'z option"
  zk_set :: "'z \<Rightarrow> bytes \<Rightarrow> bytes \<Rightarrow> int \<Rightarrow> 'z option"
  zk_erase :: "'z \<Rightarrow> bytes \<Rightarrow> 'z option"

definition zk_ok :: "'z zkservice \<Rightarrow> bool" where
  "zk_ok Z \<longleftrightarrow>
     (\<forall>z p cs. zk_children Z z p = Some cs \<longrightarrow> distinct cs \<and> set cs = {c. c \<noteq> [] \<and> 47 \<notin> set c \<and> zk_get Z z (p @ 47 # c) \<noteq> None}) \<and>
     (\<forall>z p. zk_children Z z p = None \<longleftrightarrow> zk_get Z z p = None) \<and>
     (\<forall>z p d t z'. zk_create Z z p d t = Some z' \<longrightarrow> zk_get Z z p = None \<and> zk_get Z z' = (zk_get Z z)(p \<mapsto> (d, t))) \<and>
     (\<forall>z p d t. zk_set Z z p d t = None \<longleftrightarrow> zk_get Z z p = None) \<and>
     (\<forall>z p d t z'. zk_set Z z p d t = Some z' \<longrightarrow> zk_get Z z' = (zk_get Z z)(p \<mapsto> (d, t))) \<and>
     (\<forall>z p. zk_children Z z p = Some [] \<longrightarrow> zk_erase Z z p \<noteq> None) \<and>
     (\<forall>z p z'. zk_erase Z z p = Some z' \<longrightarrow> zk_get Z z' = (zk_get Z z)(p := None))"

lemma zk_okD:
  assumes "zk_ok Z"
  shows "zk_children Z z p = Some cs \<Longrightarrow> distinct cs \<and> set cs = {c. c \<noteq> [] \<and> 47 \<notin> set c \<and> zk_get Z z (p @ 47 # c) \<noteq> None}"
    and "zk_children Z z p = None \<longleftrightarrow> zk_get Z z p = None"
    and "zk_create Z z p d t = Some z' \<Longrightarrow> zk_get Z z p = None \<and> zk_get Z z' = (zk_get Z z)(p \<mapsto> (d, t))"
    and "zk_set Z z p d t = None \<longleftrightarrow> zk_get Z z p = None"
    and "zk_set Z z p d t = Some z' \<Longrightarrow> zk_get Z z' = (zk_get Z z)(p \<mapsto> (d, t))"
    and "zk_children Z z p = Some [] \<Longrightarrow> zk_erase Z z p \<noteq> None"
    and "zk_erase Z z p = Some z' \<Longrightarrow> zk_get Z z' = (zk_get Z z)(p := None)"
  using assms unfolding zk_ok_def by (simp_all del: fun_upd_apply)

section \<open>Identifiers\<close>

text \<open>
  The encoded identifier is the name of a node, so the slash of the base64 alphabet is replaced by an underscore.
  \<open>decode_base64\<close> copies into an array of 32 bytes that is not initialised: a shorter or longer text is undefined.
\<close>

definition encode_base64 :: "codec \<Rightarrow> bytes \<Rightarrow> bytes" where
  "encode_base64 C u = map (\<lambda>c. if c = 47 then 95 else c) (b64_enc C u)"

definition decode_base64 :: "codec \<Rightarrow> bytes \<Rightarrow> bytes option" where
  "decode_base64 C s =
     (let id = b64_dec C (map (\<lambda>c. if c = 95 then 47 else c) s) in if length id = 32 then Some id else None)"

definition short_hash :: "codec \<Rightarrow> bytes \<Rightarrow> bytes" where
  "short_hash C u = take 6 (encode_base64 C u)"

lemma decode_encode:
  assumes "codec_ok C" "length u = 32"
  shows "decode_base64 C (encode_base64 C u) = Some u"
proof -
  have C: "b64_dec C (b64_enc C u) = u" "95 \<notin> set (b64_enc C u)" using assms unfolding codec_ok_def by blast+
  have "map ((\<lambda>c. if c = 95 then 47 else c) \<circ> (\<lambda>c. if c = 47 then 95 else c)) (b64_enc C u) = b64_enc C u"
  proof (rule map_idI)
    fix x assume "x \<in> set (b64_enc C u)"
    with C(2) have "x \<noteq> 95" by blast
    then show "((\<lambda>c. if c = 95 then 47 else c) \<circ> (\<lambda>c. if c = 47 then 95 else c)) x = x"
      unfolding comp_def by presburger
  qed
  then show ?thesis using assms(2) C(1) by (simp add: decode_base64_def encode_base64_def Let_def)
qed

lemma encode_inj:
  assumes "codec_ok C" "length u = 32" "length v = 32" "encode_base64 C u = encode_base64 C v"
  shows "u = v"
  using decode_encode [OF assms(1,2)] decode_encode [OF assms(1,3)] assms(4) by (metis option.inject)

lemma encode_name:
  assumes "codec_ok C" "length u = 32"
  shows "encode_base64 C u \<noteq> []" "47 \<notin> set (encode_base64 C u)"
proof -
  have "b64_enc C u \<noteq> []" using assms unfolding codec_ok_def by blast
  then show "encode_base64 C u \<noteq> []" "47 \<notin> set (encode_base64 C u)" by (auto simp: encode_base64_def)
qed

section \<open>A proxy as a member\<close>

record 'c member =
  zm_uuid :: bytes
  zm_announce :: bytes
  zm_closed :: bool
  zm_diff :: int
  zm_cache :: 'c

definition proxy_dir :: bytes where
  "proxy_dir = str ''/slsfs/proxy''"

definition proxy_node :: "bytes \<Rightarrow> bytes" where
  "proxy_node child = proxy_dir @ 47 # child"

definition new_member :: "(bytes, 'e, 'c) chmap \<Rightarrow> bytes \<Rightarrow> bytes \<Rightarrow> 'c member" where
  "new_member M u announce = \<lparr>zm_uuid = u, zm_announce = announce, zm_closed = False, zm_diff = 0, zm_cache = chm_empty M\<rparr>"

text \<open>
  The recursive \<^verbatim>\<open>erase\<close>; every exception is caught where it occurs. The first argument bounds the depth of the
  recursion, which ends because the paths grow: \<open>erase_tree_returns\<close> below.
\<close>

fun erase_tree :: "'z zkservice \<Rightarrow> nat \<Rightarrow> bytes \<Rightarrow> 'z \<Rightarrow> 'z option"
  and erase_list :: "'z zkservice \<Rightarrow> nat \<Rightarrow> bytes \<Rightarrow> bytes list \<Rightarrow> 'z \<Rightarrow> 'z option" where
  "erase_tree Z 0 p z = None"
| "erase_tree Z (Suc n) p z =
     (case zk_children Z z p of
        None \<Rightarrow> Some z
      | Some cs \<Rightarrow> map_option (\<lambda>z. case zk_erase Z z p of Some z' \<Rightarrow> z' | None \<Rightarrow> z) (erase_list Z n p cs z))"
| "erase_list Z n p [] z = Some z"
| "erase_list Z n p (c # cs) z = Option.bind (erase_tree Z n (p @ 47 # c) z) (erase_list Z n p cs)"

definition remove_uuid :: "'z zkservice \<Rightarrow> bytes \<Rightarrow> 'z \<Rightarrow> 'z" where
  "remove_uuid Z child z = (case zk_erase Z z (proxy_node child) of Some z' \<Rightarrow> z' | None \<Rightarrow> z)"

definition shutdown :: "'z zkservice \<Rightarrow> codec \<Rightarrow> 'c member \<times> 'z \<Rightarrow> 'c member \<times> 'z" where
  "shutdown Z C = (\<lambda>(m, z). (m\<lparr>zm_closed := True\<rparr>, remove_uuid Z (encode_base64 C (zm_uuid m)) z))"

text \<open>
  \<open>start_setup\<close> and \<open>reset\<close> also tell whether the watch and the heartbeat were started: an exception in a continuation is
  stored in a future that nobody reads, and nothing after it runs.
\<close>

definition start_setup :: "'z zkservice \<Rightarrow> codec \<Rightarrow> int \<Rightarrow> 'c member \<Rightarrow> 'z \<Rightarrow> 'z \<times> bool" where
  "start_setup Z C t m z =
     (case zk_create Z z (proxy_node (encode_base64 C (zm_uuid m))) (zm_announce m) t of
        Some z' \<Rightarrow> (z', True) | None \<Rightarrow> (z, False))"

definition reset :: "'z zkservice \<Rightarrow> codec \<Rightarrow> nat \<Rightarrow> int \<Rightarrow> 'c member \<Rightarrow> 'z \<Rightarrow> ('z \<times> bool) option" where
  "reset Z C n t m z =
     map_option (\<lambda>z. case zk_create Z z (str ''/slsfs'') [] t of
         None \<Rightarrow> (z, False)
       | Some z \<Rightarrow>
           (case zk_create Z z (str ''/slsfs/timeadjust'') [] t of
              None \<Rightarrow> (z, False)
            | Some z \<Rightarrow>
                (case zk_create Z z proxy_dir [] t of
                   None \<Rightarrow> (z, False)
                 | Some z \<Rightarrow> start_setup Z C t m z)))
       (erase_tree Z n (str ''/slsfs'') z)"

text \<open>The names below \<open>/slsfs/proxy\<close> are decoded and sorted.\<close>

definition proxy_list :: "codec \<Rightarrow> bytes list \<Rightarrow> bytes list option" where
  "proxy_list C cs = map_option sort (those (map (decode_base64 C) cs))"

definition start_reconfigure ::
  "'z zkservice \<Rightarrow> codec \<Rightarrow> ('j, 's, 'q, 'f, 'c, 'w) libs \<Rightarrow> (bytes \<Rightarrow> worker_endpoint) \<Rightarrow> 'm member \<Rightarrow> 'z \<Rightarrow>
     ('j, 's, 'q, 'f, 'c, 'w) launcher \<Rightarrow> ('j, 's, 'q, 'f, 'c, 'w) launcher option" where
  "start_reconfigure Z C L resolve m z l =
     (case zk_children Z z proxy_dir of
        None \<Rightarrow> Some l
      | Some cs \<Rightarrow> Option.bind (proxy_list C cs) (\<lambda>ps. reconfigure L ps resolve (zm_uuid m) l))"

text \<open>A heartbeat ignores the result of \<^verbatim>\<open>set\<close>; the next one is two seconds later.\<close>

definition start_heartbeat :: "'z zkservice \<Rightarrow> codec \<Rightarrow> int \<Rightarrow> 'c member \<Rightarrow> 'z \<Rightarrow> 'z" where
  "start_heartbeat Z C t m z =
     (if zm_closed m then z
      else case zk_set Z z (proxy_node (encode_base64 C (zm_uuid m))) (zm_announce m) t of Some z' \<Rightarrow> z' | None \<Rightarrow> z)"

text \<open>
  The first check measures the difference of the clocks: \<open>(t, now)\<close> are the time of the service at which
  \<open>timeadjust\<close> was written and the time on the local clock afterwards. It is repeated while the difference is zero.
\<close>

fun time_adjust :: "'z zkservice \<Rightarrow> (int \<times> int) list \<Rightarrow> 'c member \<times> 'z \<Rightarrow> 'c member \<times> 'z" where
  "time_adjust Z [] (m, z) = (m, z)"
| "time_adjust Z ((t, now) # samples) (m, z) =
     (if zm_diff m \<noteq> 0 then (m, z)
      else case zk_set Z z (str ''/slsfs/timeadjust'') [] t of
             None \<Rightarrow> (m, z)
           | Some z' \<Rightarrow> time_adjust Z samples (m\<lparr>zm_diff := now - t\<rparr>, z'))"

definition check_successor :: "'z zkservice \<Rightarrow> codec \<Rightarrow> int \<Rightarrow> 'c member \<Rightarrow> 'z \<Rightarrow> 'z option" where
  "check_successor Z C now m z =
     (case zk_children Z z proxy_dir of
        None \<Rightarrow> Some z
      | Some cs \<Rightarrow> do {
          ps \<leftarrow> proxy_list C cs;
          it \<leftarrow> proxy_of ps (zm_uuid m);
          if it = zm_uuid m then Some z
          else case zk_get Z z (proxy_node (encode_base64 C it)) of
                 None \<Rightarrow> Some z
               | Some (_, modified_time) \<Rightarrow>
                   Some (if now + zm_diff m - modified_time > 4 * 10 ^ 9 then remove_uuid Z (encode_base64 C it) z else z)
        })"

definition start_check_alive ::
  "'z zkservice \<Rightarrow> codec \<Rightarrow> (int \<times> int) list \<Rightarrow> int \<Rightarrow> 'c member \<times> 'z \<Rightarrow> ('c member \<times> 'z) option" where
  "start_check_alive Z C samples now mz =
     (let (m, z) = time_adjust Z samples mz
      in if zm_diff m = 0 then Some (m, z) else map_option (Pair m) (check_successor Z C now m z))"

text \<open>
  \<open>get_uuid\<close>: the address of a proxy, from the cache or from its node \<open>host:port\<close>. \<open>resolve\<close> is the resolver;
  \<open>Inl ()\<close> is an exception, \<open>None\<close> a node without a colon, where the code steps behind the end of the buffer.
\<close>

definition get_uuid ::
  "'z zkservice \<Rightarrow> (bytes, worker_endpoint, 'c) chmap \<Rightarrow> (bytes \<Rightarrow> bytes \<Rightarrow> worker_endpoint list option) \<Rightarrow> bytes \<Rightarrow>
     'z \<Rightarrow> 'c \<Rightarrow> (unit + worker_endpoint \<times> 'c) option" where
  "get_uuid Z M resolve child z cache =
     (case chm_find M cache child of
        Some e \<Rightarrow> Some (Inr (e, cache))
      | None \<Rightarrow>
          (case zk_get Z z (proxy_node child) of
             None \<Rightarrow> Some (Inl ())
           | Some (buf, _) \<Rightarrow>
               if 58 \<notin> set buf then None
               else (case resolve (takeWhile ((\<noteq>) 58) buf) (tl (dropWhile ((\<noteq>) 58) buf)) of
                       None \<Rightarrow> Some (Inl ())
                     | Some [] \<Rightarrow> Some (Inr (([0, 0, 0, 0], 0), cache))
                     | Some (e # _) \<Rightarrow> Some (Inr (e, chm_emplace M cache child e)))))"

section \<open>The owner of a file\<close>

text \<open>
  The specification of the choice of a proxy: the next identifier on a ring. \<^verbatim>\<open>std::upper_bound\<close> on the sorted list
  implements it.
\<close>

definition owner :: "bytes set \<Rightarrow> bytes \<Rightarrow> bytes" where
  "owner U k = (if \<exists>u \<in> U. k < u then Min {u \<in> U. k < u} else Min U)"

lemma array_less_iff: "array_less a b \<longleftrightarrow> a < b"
  by (induction a b rule: array_less.induct) auto

lemma find_sorted:
  assumes "sorted xs"
  shows "List.find P xs = (if \<exists>x \<in> set xs. P x then Some (Min {x \<in> set xs. P x}) else None)"
  using assms
proof (induction xs)
  case (Cons a xs)
  show ?case
  proof (cases "P a")
    case True
    then have "Min {x \<in> set (a # xs). P x} = a" using Cons.prems by (intro Min_eqI) auto
    with True show ?thesis by auto
  next
    case False
    then have "{x \<in> set (a # xs). P x} = {x \<in> set xs. P x}" by auto
    with False Cons show ?thesis by simp
  qed
qed simp

lemma proxy_of_owner:
  assumes "finite U" "U \<noteq> {}"
  shows "proxy_of (sorted_list_of_set U) k = Some (owner U k)"
proof -
  have "List.find (array_less k) (sorted_list_of_set U) =
      (if \<exists>x \<in> U. k < x then Some (Min {x \<in> U. k < x}) else None)"
    using find_sorted [OF sorted_sorted_list_of_set [of U]] assms(1) by (simp add: array_less_iff)
  moreover obtain us where "sorted_list_of_set U = Min U # us"
    using assms sorted_list_of_set_nonempty by blast
  ultimately show ?thesis by (simp add: proxy_of_def owner_def)
qed

lemma owner_in: "finite U \<Longrightarrow> U \<noteq> {} \<Longrightarrow> owner U k \<in> U"
  unfolding owner_def using Min_in [of "{u \<in> U. k < u}"] Min_in [of U] by auto

lemma Min_subset:
  assumes "finite A" "B \<subseteq> A" "Min A \<in> B"
  shows "Min B = Min A"
  using assms by (intro Min_eqI) (auto intro: finite_subset)

lemma owner_subset:
  assumes "finite U" "V \<subseteq> U" "owner U k \<in> V"
  shows "owner V k = owner U k"
proof (cases "\<exists>u \<in> U. k < u")
  case True
  then have o: "owner U k = Min {u \<in> U. k < u}" by (simp add: owner_def)
  have "Min {u \<in> U. k < u} \<in> {u \<in> U. k < u}" using True assms(1) by (intro Min_in) auto
  then have "Min {u \<in> U. k < u} \<in> {u \<in> V. k < u}" using assms(3) o by simp
  moreover from this have "\<exists>u \<in> V. k < u" by blast
  ultimately show ?thesis using o assms(1,2) by (auto simp: owner_def intro!: Min_subset)
next
  case False
  then have "\<not> (\<exists>u \<in> V. k < u)" using assms(2) by blast
  with False show ?thesis using assms by (simp add: owner_def Min_subset)
qed

text \<open>
  What a choice of a proxy from the sorted list of identifiers promises. The launcher, the check of the next proxy and the client
  library each make this choice.
\<close>

locale ownership =
  fixes pick :: "bytes list \<Rightarrow> bytes \<Rightarrow> bytes option"
  assumes pick_owner: "finite U \<Longrightarrow> U \<noteq> {} \<Longrightarrow> pick (sorted_list_of_set U) k = Some (owner U k)"
begin

lemma pick_member:
  assumes "finite U" "U \<noteq> {}"
  obtains q where "pick (sorted_list_of_set U) k = Some q" "q \<in> U"
  using pick_owner [OF assms] owner_in [OF assms] by blast

lemma moves_minimally:
  assumes "finite U" "U \<noteq> {}"
  shows "\<exists>q r. pick (sorted_list_of_set U) k = Some q \<and> pick (sorted_list_of_set (insert p U)) k = Some r \<and> q \<in> U \<and> (r = q \<or> r = p)"
proof -
  have "pick (sorted_list_of_set (insert p U)) k = Some (owner (insert p U) k)" using assms(1) by (intro pick_owner) auto
  moreover have "owner (insert p U) k \<in> insert p U" using assms(1) by (intro owner_in) auto
  moreover from this have "owner (insert p U) k = p \<or> owner U k = owner (insert p U) k"
    using owner_subset [of "insert p U" U k] assms(1) by auto
  ultimately show ?thesis using pick_owner [OF assms] owner_in [OF assms] by metis
qed

lemma picks_agree:
  assumes "ownership pick'" "finite U"
  shows "U \<noteq> {} \<Longrightarrow> pick (sorted_list_of_set U) k = pick' (sorted_list_of_set U) k"
  using pick_owner ownership.pick_owner [OF assms(1)] assms(2) by metis

end

interpretation proxy_ring: ownership proxy_of
  by unfold_locales (rule proxy_of_owner)

text \<open>On a ring some member of a proper part is followed by a node outside it.\<close>

lemma owner_leaves:
  assumes "finite U" "A \<subset> U" "A \<noteq> {}"
  shows "\<exists>a \<in> A. owner U a \<notin> A"
proof (rule ccontr)
  assume "\<not> ?thesis"
  then have closed: "owner U a \<in> A" if "a \<in> A" for a using that by blast
  from assms obtain x where x: "x \<in> U" "x \<notin> A" by blast
  have fin: "finite A" using assms by (auto intro: finite_subset)
  show False
  proof (cases "\<exists>a \<in> A. a < x")
    case True
    let ?B = "{a \<in> A. a < x}" and ?a = "Max {a \<in> A. a < x}"
    have a: "?a \<in> ?B" using True fin by (intro Max_in) auto
    then have "owner U ?a = Min {u \<in> U. ?a < u}" using x by (auto simp: owner_def)
    moreover have "Min {u \<in> U. ?a < u} \<le> x" using a x assms(1) by (intro Min_le) auto
    moreover have "Min {u \<in> U. ?a < u} \<in> {u \<in> U. ?a < u}" using a x assms(1) by (intro Min_in) auto
    ultimately have o: "owner U ?a \<le> x" "?a < owner U ?a" by auto
    have oA: "owner U ?a \<in> A" using a closed by blast
    then have "owner U ?a \<noteq> x" using x by metis
    with o oA have "owner U ?a \<in> ?B" by (simp add: order.strict_iff_order)
    then have "owner U ?a \<le> ?a" using fin by (intro Max_ge) auto
    with o(2) show False by (simp add: not_less [symmetric])
  next
    case False
    have above: "x < a" if "a \<in> A" for a using False x(2) that by (metis linorder_neqE)
    have m: "Max A \<in> A" using fin assms(3) by simp
    show False
    proof (cases "\<exists>u \<in> U. Max A < u")
      case True
      then have "Min {u \<in> U. Max A < u} \<in> {u \<in> U. Max A < u}" using assms(1) by (intro Min_in) auto
      with True have "owner U (Max A) \<in> {u \<in> U. Max A < u}" by (simp add: owner_def)
      then have "Max A < owner U (Max A)" by blast
      moreover have "owner U (Max A) \<le> Max A" using closed [OF m] fin by simp
      ultimately show False by (simp add: not_less [symmetric])
    next
      case False
      then have "owner U (Max A) = Min U" by (simp add: owner_def)
      then have "Min U \<in> A" using closed [OF m] by simp
      moreover have "Min U \<le> x" using x(1) assms(1) by simp
      ultimately show False using above by (simp add: not_less [symmetric])
    qed
  qed
qed

section \<open>The ring of nodes\<close>

text \<open>The proxies with the identifiers \<open>U\<close> are exactly the nodes below \<open>/slsfs/proxy\<close>, and these nodes are leaves.\<close>

definition ring :: "'z zkservice \<Rightarrow> codec \<Rightarrow> bytes set \<Rightarrow> 'z \<Rightarrow> bool" where
  "ring Z C U z \<longleftrightarrow> finite U \<and> (\<forall>u \<in> U. length u = 32) \<and> zk_get Z z proxy_dir \<noteq> None \<and>
     (\<forall>c. c \<noteq> [] \<and> 47 \<notin> set c \<longrightarrow> (zk_get Z z (proxy_node c) \<noteq> None \<longleftrightarrow> c \<in> encode_base64 C ` U)) \<and>
     (\<forall>u \<in> U. \<forall>c. c \<noteq> [] \<longrightarrow> zk_get Z z (proxy_node (encode_base64 C u) @ 47 # c) = None)"

lemma proxy_node_inject [simp]: "proxy_node c = proxy_node d \<longleftrightarrow> c = d"
  by (simp add: proxy_node_def)

lemma proxy_node_below [simp]: "proxy_node c \<noteq> proxy_dir" "proxy_dir \<noteq> proxy_node c"
  by (simp_all add: proxy_node_def)

lemma proxy_node_append: "proxy_node c @ 47 # d = proxy_node (c @ 47 # d)"
  by (simp add: proxy_node_def)

lemma ring_get:
  assumes "ring Z C U z" "codec_ok C" "u \<in> U"
  shows "\<exists>d t. zk_get Z z (proxy_node (encode_base64 C u)) = Some (d, t)"
proof -
  have "length u = 32" using assms(1,3) by (simp add: ring_def)
  from encode_name [OF assms(2) this] have "zk_get Z z (proxy_node (encode_base64 C u)) \<noteq> None"
    using assms(1,3) unfolding ring_def by blast
  then show ?thesis by auto
qed

lemma ring_proxy_list:
  assumes "zk_ok Z" "codec_ok C" "ring Z C U z"
  obtains cs where "zk_children Z z proxy_dir = Some cs" "proxy_list C cs = Some (sorted_list_of_set U)"
proof -
  have U: "finite U" "\<And>u. u \<in> U \<Longrightarrow> length u = 32" using assms(3) by (simp_all add: ring_def)
  obtain cs where cs: "zk_children Z z proxy_dir = Some cs"
    using zk_okD(2) [OF assms(1), of z proxy_dir] assms(3) by (cases "zk_children Z z proxy_dir") (auto simp: ring_def)
  from zk_okD(1) [OF assms(1) cs] have d: "distinct cs"
    and s: "set cs = {c. c \<noteq> [] \<and> 47 \<notin> set c \<and> zk_get Z z (proxy_node c) \<noteq> None}"
    by (auto simp: proxy_node_def)
  have set: "set cs = encode_base64 C ` U"
  proof (rule set_eqI)
    fix c
    have "c \<in> encode_base64 C ` U \<Longrightarrow> c \<noteq> [] \<and> 47 \<notin> set c" using encode_name [OF assms(2) U(2)] by auto
    moreover have "c \<noteq> [] \<and> 47 \<notin> set c \<longrightarrow> (zk_get Z z (proxy_node c) \<noteq> None \<longleftrightarrow> c \<in> encode_base64 C ` U)"
      using assms(3) unfolding ring_def by blast
    ultimately show "c \<in> set cs \<longleftrightarrow> c \<in> encode_base64 C ` U" unfolding s by blast
  qed
  have dec: "decode_base64 C c = Some (inv_into U (encode_base64 C) c)" "inv_into U (encode_base64 C) c \<in> U" if c: "c \<in> set cs" for c
  proof -
    obtain u where u: "u \<in> U" "c = encode_base64 C u" using c set by blast
    have "inj_on (encode_base64 C) U" using encode_inj [OF assms(2) U(2) U(2)] by (auto intro: inj_onI)
    then have "inv_into U (encode_base64 C) c = u" using u by simp
    then show "decode_base64 C c = Some (inv_into U (encode_base64 C) c)" "inv_into U (encode_base64 C) c \<in> U"
      using decode_encode [OF assms(2) U(2) [OF u(1)]] u by simp_all
  qed
  let ?us = "map (inv_into U (encode_base64 C)) cs"
  have "those (map (decode_base64 C) xs) = Some (map (inv_into U (encode_base64 C)) xs)" if "set xs \<subseteq> set cs" for xs
    using that dec by (induction xs) auto
  then have "proxy_list C cs = Some (sort ?us)" by (simp add: proxy_list_def)
  moreover have "distinct ?us"
    using d dec(1) by (simp add: distinct_map inj_on_def) (metis set f_inv_into_f)
  moreover have "set ?us = U"
  proof -
    have "inj_on (encode_base64 C) U" using encode_inj [OF assms(2) U(2) U(2)] by (auto intro: inj_onI)
    then show ?thesis by (auto simp: set image_image)
  qed
  ultimately have "proxy_list C cs = Some (sorted_list_of_set U)"
    using sorted_list_of_set_sort_remdups [of ?us] by (simp add: distinct_remdups_id)
  with cs show ?thesis by (rule that)
qed

lemma ring_remove:
  assumes Z: "zk_ok Z" and C: "codec_ok C" and R: "ring Z C U z" and u: "u \<in> U"
  shows "zk_get Z (remove_uuid Z (encode_base64 C u) z) = (zk_get Z z)(proxy_node (encode_base64 C u) := None)"
    and "ring Z C (U - {u}) (remove_uuid Z (encode_base64 C u) z)"
proof -
  let ?p = "proxy_node (encode_base64 C u)" and ?z = "remove_uuid Z (encode_base64 C u) z"
  have U: "\<And>u. u \<in> U \<Longrightarrow> length u = 32" using R by (simp add: ring_def)
  from ring_get [OF R C u] obtain cs where cs: "zk_children Z z ?p = Some cs"
    using zk_okD(2) [OF Z, of z ?p] by (cases "zk_children Z z ?p") auto
  have "set cs = {}" using zk_okD(1) [OF Z cs] R u by (auto simp: ring_def)
  with cs have "zk_erase Z z ?p \<noteq> None" using zk_okD(6) [OF Z] by simp
  then show get: "zk_get Z ?z = (zk_get Z z)(?p := None)"
    using zk_okD(7) [OF Z] by (auto simp: remove_uuid_def)
  have "encode_base64 C ` (U - {u}) = encode_base64 C ` U - {encode_base64 C u}"
    using encode_inj [OF C U U] u by (intro inj_on_image_set_diff [where C = U, of _ _ "{u}", simplified]) (auto intro: inj_onI)
  then show "ring Z C (U - {u}) ?z"
    using R unfolding ring_def get proxy_node_append by auto
qed

lemma ring_heartbeat:
  assumes Z: "zk_ok Z" and C: "codec_ok C" and R: "ring Z C U z" and m: "zm_uuid m \<in> U" "\<not> zm_closed m"
  shows "zk_get Z (start_heartbeat Z C t m z) = (zk_get Z z)(proxy_node (encode_base64 C (zm_uuid m)) \<mapsto> (zm_announce m, t))"
    and "ring Z C U (start_heartbeat Z C t m z)"
proof -
  let ?p = "proxy_node (encode_base64 C (zm_uuid m))"
  have some: "zk_get Z z ?p \<noteq> None" using ring_get [OF R C m(1)] by auto
  then obtain z' where z': "zk_set Z z ?p (zm_announce m) t = Some z'"
    using zk_okD(4) [OF Z, of z ?p "zm_announce m" t] by auto
  then show get: "zk_get Z (start_heartbeat Z C t m z) = (zk_get Z z)(?p \<mapsto> (zm_announce m, t))"
    using m(2) zk_okD(5) [OF Z z'] by (simp add: start_heartbeat_def)
  have "(zk_get Z (start_heartbeat Z C t m z) q = None) = (zk_get Z z q = None)" for q
    unfolding get using some by auto
  then show "ring Z C U (start_heartbeat Z C t m z)" using R by (simp add: ring_def)
qed

lemma heartbeat_absent:
  "zk_ok Z \<Longrightarrow> zk_get Z z (proxy_node (encode_base64 C (zm_uuid m))) = None \<Longrightarrow> start_heartbeat Z C t m z = z"
  using zk_okD(4) [of Z z "proxy_node (encode_base64 C (zm_uuid m))"] by (auto simp: start_heartbeat_def)

lemma check_successor_ring:
  assumes Z: "zk_ok Z" and C: "codec_ok C" and R: "ring Z C U z" "U \<noteq> {}"
    and get: "zk_get Z z (proxy_node (encode_base64 C (owner U (zm_uuid m)))) = Some (d, mt)"
  shows "check_successor Z C now m z =
    Some (if owner U (zm_uuid m) \<noteq> zm_uuid m \<and> now + zm_diff m - mt > 4 * 10 ^ 9
          then remove_uuid Z (encode_base64 C (owner U (zm_uuid m))) z else z)"
proof -
  obtain cs where cs: "zk_children Z z proxy_dir = Some cs" "proxy_list C cs = Some (sorted_list_of_set U)"
    using ring_proxy_list [OF Z C R(1)] .
  have "finite U" using R(1) by (simp add: ring_def)
  from proxy_of_owner [OF this R(2)] show ?thesis by (simp add: check_successor_def cs get)
qed

text \<open>One round of the detector: the proxies \<open>ms\<close>, each with the difference of its clock, write their nodes and check.\<close>

fun checks :: "'z zkservice \<Rightarrow> codec \<Rightarrow> int \<Rightarrow> ('c member \<times> int) list \<Rightarrow> 'z \<Rightarrow> 'z option" where
  "checks Z C T [] z = Some z"
| "checks Z C T ((m, skew) # ms) z =
     Option.bind (start_check_alive Z C [] (T + skew) (m, z)) (\<lambda>(_, z). checks Z C T ms z)"

fun beats :: "'z zkservice \<Rightarrow> codec \<Rightarrow> int \<Rightarrow> ('c member \<times> int) list \<Rightarrow> 'z \<Rightarrow> 'z" where
  "beats Z C T [] z = z"
| "beats Z C T ((m, skew) # ms) z = beats Z C T ms (start_heartbeat Z C T m z)"

fun detector_run :: "'z zkservice \<Rightarrow> codec \<Rightarrow> ('c member \<times> int) list \<Rightarrow> int list \<Rightarrow> 'z \<Rightarrow> 'z option" where
  "detector_run Z C ms [] z = Some z"
| "detector_run Z C ms (T # Ts) z = Option.bind (checks Z C T ms (beats Z C T ms z)) (detector_run Z C ms Ts)"

definition live :: "('c member \<times> int) list \<Rightarrow> bytes set" where
  "live ms = (zm_uuid \<circ> fst) ` set ms"

lemma beats_ring:
  assumes "zk_ok Z" "codec_ok C" "ring Z C U z" "live ms \<subseteq> U" "\<forall>(m, s) \<in> set ms. \<not> zm_closed m"
  shows "ring Z C U (beats Z C T ms z) \<and>
    (\<forall>u \<in> live ms. \<exists>d. zk_get Z (beats Z C T ms z) (proxy_node (encode_base64 C u)) = Some (d, T)) \<and>
    (\<forall>u \<in> U - live ms. zk_get Z (beats Z C T ms z) (proxy_node (encode_base64 C u)) = zk_get Z z (proxy_node (encode_base64 C u)))"
  using assms(3-)
proof (induction ms arbitrary: z)
  case (Cons a ms)
  obtain m s where a: "a = (m, s)" by (cases a)
  let ?z = "start_heartbeat Z C T m z"
  have m: "zm_uuid m \<in> U" "\<not> zm_closed m" using Cons.prems a by (auto simp: live_def)
  note b = ring_heartbeat [OF assms(1,2) Cons.prems(1) m, of T]
  have IH: "ring Z C U (beats Z C T ms ?z) \<and>
    (\<forall>u \<in> live ms. \<exists>d. zk_get Z (beats Z C T ms ?z) (proxy_node (encode_base64 C u)) = Some (d, T)) \<and>
    (\<forall>u \<in> U - live ms. zk_get Z (beats Z C T ms ?z) (proxy_node (encode_base64 C u)) = zk_get Z ?z (proxy_node (encode_base64 C u)))"
    using Cons.IH [OF b(2)] Cons.prems by (auto simp: live_def)
  have U: "\<And>u. u \<in> U \<Longrightarrow> length u = 32" using Cons.prems(1) by (simp add: ring_def)
  have other: "zk_get Z ?z (proxy_node (encode_base64 C u)) = zk_get Z z (proxy_node (encode_base64 C u))"
    if "u \<in> U" "u \<noteq> zm_uuid m" for u
    using encode_inj [OF assms(2) U U] that m(1) unfolding b(1) by auto
  have "\<exists>d. zk_get Z (beats Z C T ms ?z) (proxy_node (encode_base64 C (zm_uuid m))) = Some (d, T)"
    using IH m(1) b(1) by (cases "zm_uuid m \<in> live ms") auto
  with IH other show ?case by (auto simp: a live_def)
qed (simp add: live_def)

definition stale :: "'z zkservice \<Rightarrow> codec \<Rightarrow> ('c member \<times> int) list \<Rightarrow> int \<Rightarrow> 'z \<Rightarrow> bytes \<Rightarrow> bool" where
  "stale Z C ms T z u \<longleftrightarrow> (\<forall>d mt. zk_get Z z (proxy_node (encode_base64 C u)) = Some (d, mt) \<longrightarrow>
     (\<forall>(m, s) \<in> set ms. T + s + zm_diff m - mt > 4 * 10 ^ 9))"

lemma stale_cong:
  "zk_get Z z' (proxy_node (encode_base64 C u)) = zk_get Z z (proxy_node (encode_base64 C u)) \<Longrightarrow> stale Z C ms T z' u = stale Z C ms T z u"
  by (simp add: stale_def)

lemma checks_ring:
  assumes Z: "zk_ok Z" and C: "codec_ok C" and "ring Z C U z" "A \<subseteq> U" "A \<noteq> {}" "live ms \<subseteq> A"
    and "\<forall>u \<in> A. \<exists>d. zk_get Z z (proxy_node (encode_base64 C u)) = Some (d, T)" "\<forall>u \<in> U - A. stale Z C ms T z u"
    and "\<forall>(m, s) \<in> set ms. zm_diff m \<noteq> 0 \<and> s + zm_diff m \<le> 4 * 10 ^ 9"
  shows "\<exists>V z'. checks Z C T ms z = Some z' \<and> ring Z C V z' \<and> A \<subseteq> V \<and> V \<subseteq> U \<and>
    (\<forall>u \<in> V. zk_get Z z' (proxy_node (encode_base64 C u)) = zk_get Z z (proxy_node (encode_base64 C u))) \<and>
    (V = U \<longrightarrow> owner U ` live ms \<subseteq> A)"
  using assms(3-)
proof (induction ms arbitrary: U z)
  case (Cons a ms)
  obtain m s where a: "a = (m, s)" by (cases a)
  have live: "zm_uuid m \<in> A" "live ms \<subseteq> A" using Cons.prems(4) by (auto simp: a live_def)
  have U: "finite U" "U \<noteq> {}" "\<And>u. u \<in> U \<Longrightarrow> length u = 32" using Cons.prems(1,2,3) by (auto simp: ring_def)
  define v where "v = owner U (zm_uuid m)"
  have v: "v \<in> U" using owner_in [OF U(1,2)] by (simp add: v_def)
  obtain d mt where get: "zk_get Z z (proxy_node (encode_base64 C v)) = Some (d, mt)" using ring_get [OF Cons.prems(1) C v] by blast
  note check = check_successor_ring [OF Z C Cons.prems(1) U(2), of m d mt, folded v_def, OF get]
  have diff: "zm_diff m \<noteq> 0" "s + zm_diff m \<le> 4 * 10 ^ 9" using Cons.prems(7) by (auto simp: a)
  show ?case
  proof (cases "v \<in> A")
    case True
    then have "mt = T" using Cons.prems(5) get by fastforce
    then have "start_check_alive Z C [] (T + s) (m, z) = Some (m, z)"
      using diff by (simp add: start_check_alive_def check)
    moreover have "\<exists>V z'. checks Z C T ms z = Some z' \<and> ring Z C V z' \<and> A \<subseteq> V \<and> V \<subseteq> U \<and>
      (\<forall>u \<in> V. zk_get Z z' (proxy_node (encode_base64 C u)) = zk_get Z z (proxy_node (encode_base64 C u))) \<and>
      (V = U \<longrightarrow> owner U ` live ms \<subseteq> A)"
      using Cons.prems live by (intro Cons.IH) (auto simp: stale_def a)
    ultimately show ?thesis using True by (auto simp: a live_def v_def)
  next
    case False
    let ?z = "remove_uuid Z (encode_base64 C v) z"
    have "T + s + zm_diff m - mt > 4 * 10 ^ 9" using Cons.prems(6) v False get by (auto simp: stale_def a)
    moreover have "v \<noteq> zm_uuid m" using False live by blast
    ultimately have step: "start_check_alive Z C [] (T + s) (m, z) = Some (m, ?z)"
      using diff by (simp add: start_check_alive_def check algebra_simps)
    note r = ring_remove [OF Z C Cons.prems(1) v]
    have same: "zk_get Z ?z (proxy_node (encode_base64 C u)) = zk_get Z z (proxy_node (encode_base64 C u))" if "u \<in> U - {v}" for u
      using encode_inj [OF C U(3) U(3)] that v unfolding r(1) by auto
    have A: "A \<subseteq> U - {v}" using Cons.prems(2) False by blast
    have fresh: "\<forall>u \<in> A. \<exists>d. zk_get Z ?z (proxy_node (encode_base64 C u)) = Some (d, T)"
      using Cons.prems(5) A same by (metis subsetD)
    have old: "\<forall>u \<in> U - {v} - A. stale Z C ms T ?z u"
    proof
      fix u assume u: "u \<in> U - {v} - A"
      then have "stale Z C (a # ms) T z u" using Cons.prems(6) by blast
      then show "stale Z C ms T ?z u" using same [of u] u by (simp add: stale_def)
    qed
    have "\<exists>V z'. checks Z C T ms ?z = Some z' \<and> ring Z C V z' \<and> A \<subseteq> V \<and> V \<subseteq> U - {v} \<and>
      (\<forall>u \<in> V. zk_get Z z' (proxy_node (encode_base64 C u)) = zk_get Z ?z (proxy_node (encode_base64 C u))) \<and>
      (V = U - {v} \<longrightarrow> owner (U - {v}) ` live ms \<subseteq> A)"
      using Cons.prems(3,7) live A fresh old by (intro Cons.IH r(2)) (auto simp: a)
    then obtain V z' where V: "checks Z C T ms ?z = Some z'" "ring Z C V z'" "A \<subseteq> V" "V \<subseteq> U - {v}"
      "\<forall>u \<in> V. zk_get Z z' (proxy_node (encode_base64 C u)) = zk_get Z ?z (proxy_node (encode_base64 C u))" by blast
    then have "\<forall>u \<in> V. zk_get Z z' (proxy_node (encode_base64 C u)) = zk_get Z z (proxy_node (encode_base64 C u))"
      using same by (metis subsetD)
    moreover have "V \<noteq> U" "V \<subseteq> U" using V(4) v by auto
    moreover have "checks Z C T (a # ms) z = Some z'" using V(1) by (simp add: a step)
    ultimately show ?thesis using V(2,3) by blast
  qed
qed (auto simp: live_def)

section \<open>Properties of the membership\<close>


text \<open>
  Only the files of the proxy concerned move. When a proxy leaves, every file it did not own keeps its owner; when one
  joins, a file either keeps its owner or moves to the new proxy. The owner is computed by the code from the sorted list of
  identifiers.
\<close>

theorem ownership_moves_minimally:
  assumes "finite U" "U \<noteq> {}" "p \<notin> U"
  shows "\<exists>q r. proxy_of (sorted_list_of_set U) k = Some q \<and> proxy_of (sorted_list_of_set (insert p U)) k = Some r \<and> q \<in> U \<and> (r = q \<or> r = p)"
  using proxy_ring.moves_minimally [OF assms(1,2)] .

text \<open>
  The correction of the clock has the wrong sign. The check computes \<open>now + local_zk_diff_ - modified_time\<close> where \<open>local_zk_diff_\<close>
  is the local time minus the time of the service: with a local clock \<open>s\<close> ahead, the next proxy is removed exactly when the age of
  its node plus twice \<open>s\<close> exceeds four seconds. So a clock that is more than two seconds ahead removes a proxy that has just written its node, and
  one that is behind by \<open>s\<close> keeps a crashed proxy for \<open>2 s\<close> longer. A removed proxy does not return: its later heartbeats change nothing.
\<close>

theorem check_off_by_twice_skew:
  assumes Z: "zk_ok Z" and C: "codec_ok C" and R: "ring Z C U z" "zm_uuid m \<in> U"
    and m: "zm_diff m = 0" "s \<noteq> 0" and adj: "zk_get Z z (str ''/slsfs/timeadjust'') \<noteq> None"
    and p: "p = owner U (zm_uuid m)" "p \<noteq> zm_uuid m" "zk_get Z z (proxy_node (encode_base64 C p)) = Some (d, mt)"
  shows "\<exists>z'. start_check_alive Z C [(t, t + s)] (T + s) (m, z) = Some (m\<lparr>zm_diff := s\<rparr>, z') \<and>
    (if T - mt + 2 * s > 4 * 10 ^ 9
     then ring Z C (U - {p}) z' \<and> (\<forall>m' t'. zm_uuid m' = p \<longrightarrow> start_heartbeat Z C t' m' z' = z')
     else ring Z C U z')"
proof -
  let ?a = "str ''/slsfs/timeadjust''"
  obtain z1 where z1: "zk_set Z z ?a [] t = Some z1" using zk_okD(4) [OF Z, of z ?a] adj by fastforce
  have get: "zk_get Z z1 = (zk_get Z z)(?a \<mapsto> ([], t))" using zk_okD(5) [OF Z z1] .
  have ne: "?a \<noteq> proxy_dir" "?a \<noteq> proxy_node c" for c by (simp_all add: proxy_dir_def proxy_node_def)
  have R1: "ring Z C U z1"
    using R(1) ne(1) ne(2) [symmetric] unfolding ring_def get proxy_node_append by simp
  have U: "U \<noteq> {}" "finite U" using R by (auto simp: ring_def)
  have p1: "zk_get Z z1 (proxy_node (encode_base64 C (owner U (zm_uuid (m\<lparr>zm_diff := s\<rparr>))))) = Some (d, mt)"
    using p ne(2) [symmetric] by (simp add: get)
  have step: "start_check_alive Z C [(t, t + s)] (T + s) (m, z) = Some (m\<lparr>zm_diff := s\<rparr>,
      if T - mt + 2 * s > 4 * 10 ^ 9 then remove_uuid Z (encode_base64 C p) z1 else z1)"
    using m z1 p(1,2) check_successor_ring [OF Z C R1 U(1) p1, of "T + s"]
    by (simp add: start_check_alive_def algebra_simps)
  have "p \<in> U" using owner_in [OF U(2,1)] p(1) by simp
  note r = ring_remove [OF Z C R1 this]
  have "start_heartbeat Z C t' m' (remove_uuid Z (encode_base64 C p) z1) = remove_uuid Z (encode_base64 C p) z1" if "zm_uuid m' = p" for m' t'
    by (rule heartbeat_absent [OF Z]) (simp add: r(1) that)
  with step r(2) R1 show ?thesis by auto
qed

text \<open>
  The recursion of \<^verbatim>\<open>erase\<close> ends: a depth larger than the number of characters by which the paths below \<open>p\<close> are longer is
  enough. It creates no node and removes only \<open>p\<close> and nodes below it.
\<close>

lemma erase_tree_returns:
  assumes Z: "zk_ok Z"
  shows "0 < n \<Longrightarrow> \<forall>q. zk_get Z z q \<noteq> None \<longrightarrow> length q < length p + n \<Longrightarrow>
    \<exists>z'. erase_tree Z n p z = Some z' \<and> (\<forall>q. zk_get Z z' q = zk_get Z z q \<or> zk_get Z z' q = None \<and> take (length p) q = p)"
proof (induction n arbitrary: p z)
  case (Suc n)
  have list: "\<exists>z'. erase_list Z n p cs y = Some z' \<and> (\<forall>q. zk_get Z z' q = zk_get Z y q \<or> zk_get Z z' q = None \<and> take (length p) q = p)"
    if "cs \<noteq> [] \<longrightarrow> 0 < n" "[] \<notin> set cs" "\<forall>q. zk_get Z y q \<noteq> None \<longrightarrow> length q < length p + Suc n" for cs y
    using that
  proof (induction cs arbitrary: y)
    case (Cons c cs)
    have "\<forall>q. zk_get Z y q \<noteq> None \<longrightarrow> length q < length (p @ 47 # c) + n" using Cons.prems(3) by fastforce
    then obtain y1 where y1: "erase_tree Z n (p @ 47 # c) y = Some y1"
      "\<forall>q. zk_get Z y1 q = zk_get Z y q \<or> zk_get Z y1 q = None \<and> take (length (p @ 47 # c)) q = p @ 47 # c"
      using Suc.IH Cons.prems(1) by blast
    have below: "take (length p) q = p" if "take (length (p @ 47 # c)) q = p @ 47 # c" for q
    proof -
      have "take (length p) (take (length (p @ 47 # c)) q) = take (length p) (p @ 47 # c)" using that by (rule arg_cong)
      then show ?thesis by simp
    qed
    have "\<forall>q. zk_get Z y1 q \<noteq> None \<longrightarrow> length q < length p + Suc n" using y1(2) Cons.prems(3) by metis
    then obtain z' where "erase_list Z n p cs y1 = Some z'" "\<forall>q. zk_get Z z' q = zk_get Z y1 q \<or> zk_get Z z' q = None \<and> take (length p) q = p"
      using Cons.IH [of y1] Cons.prems(1,2) by auto
    with y1 below show ?case by (metis bind.bind_lunit erase_list.simps(2))
  qed simp
  show ?case
  proof (cases "zk_children Z z p")
    case (Some cs)
    note c = zk_okD(1) [OF Z Some]
    have "0 < n" if "cs \<noteq> []"
    proof -
      from that have "hd cs \<in> set cs" by simp
      with c have "hd cs \<noteq> []" "zk_get Z z (p @ 47 # hd cs) \<noteq> None" by blast+
      with Suc.prems(2) show ?thesis by fastforce
    qed
    then obtain y where y: "erase_list Z n p cs z = Some y" "\<forall>q. zk_get Z y q = zk_get Z z q \<or> zk_get Z y q = None \<and> take (length p) q = p"
      using list [of cs z] c Suc.prems(2) by auto
    show ?thesis
    proof (cases "zk_erase Z y p")
      case (Some z')
      with y zk_okD(7) [OF Z Some] show ?thesis using \<open>zk_children Z z p = Some cs\<close> by auto
    qed (use y Some in auto)
  qed simp
qed simp

text \<open>
  The address of a proxy is cached for ever: after it was asked for once, a proxy that registers again under another address is
  still reached at the old one.
\<close>

lemma cached_address_stays:
  assumes "chmap_ok M" "chm_find M cache child = None" "zk_get Z z (proxy_node child) = Some (host @ 58 # port, t)"
    and "58 \<notin> set host" "resolve host port = Some (e # es)"
  shows "\<exists>cache'. get_uuid Z M resolve child z cache = Some (Inr (e, cache')) \<and>
    (\<forall>z'. get_uuid Z M resolve child z' cache' = Some (Inr (e, cache')))"
proof -
  have "takeWhile ((\<noteq>) 58) (host @ 58 # port) = host" "dropWhile ((\<noteq>) 58) (host @ 58 # port) = 58 # port"
    using assms(4) by (auto simp: takeWhile_append dropWhile_append takeWhile_eq_all_conv)
  then show ?thesis using assms by (simp add: get_uuid_def chmap_laws)
qed

section \<open>Instances of the libraries\<close>

text \<open>A service in memory, and a codec that writes each byte as two letters.\<close>

definition mem_children :: "bytes \<Rightarrow> (bytes \<times> bytes \<times> int) list \<Rightarrow> bytes list" where
  "mem_children p z = remdups (map (drop (length p + 1))
     (filter (\<lambda>q. take (length p + 1) q = p @ [47] \<and> drop (length p + 1) q \<noteq> [] \<and> 47 \<notin> set (drop (length p + 1) q)) (map fst z)))"

definition mem_zk :: "(bytes \<times> bytes \<times> int) list zkservice" where
  "mem_zk = \<lparr>zk_get = map_of,
     zk_children = (\<lambda>z p. if map_of z p = None then None else Some (mem_children p z)),
     zk_create = (\<lambda>z p d t. if map_of z p = None then Some ((p, d, t) # z) else None),
     zk_set = (\<lambda>z p d t. if map_of z p = None then None else Some ((p, d, t) # z)),
     zk_erase = (\<lambda>z p. if map_of z p = None \<or> mem_children p z \<noteq> [] then None else Some (AList.delete p z))\<rparr>"

lemma mem_children_set:
  "set (mem_children p z) = {c. c \<noteq> [] \<and> 47 \<notin> set c \<and> map_of z (p @ 47 # c) \<noteq> None}"
proof (intro set_eqI iffI)
  fix c assume "c \<in> set (mem_children p z)"
  then obtain q where q: "q \<in> fst ` set z" "take (length p + 1) q = p @ [47]" "c = drop (length p + 1) q" "c \<noteq> []" "47 \<notin> set c"
    by (auto simp: mem_children_def)
  have e: "q = p @ 47 # c" using q(2,3) by (metis append_take_drop_id append_Cons append_Nil append_assoc)
  have "p @ 47 # c \<in> fst ` set z" using q(1) unfolding e .
  with q(4,5) show "c \<in> {c. c \<noteq> [] \<and> 47 \<notin> set c \<and> map_of z (p @ 47 # c) \<noteq> None}" unfolding map_of_eq_None_iff by blast
next
  fix c assume "c \<in> {c. c \<noteq> [] \<and> 47 \<notin> set c \<and> map_of z (p @ 47 # c) \<noteq> None}"
  then have "p @ 47 # c \<in> fst ` set z" "c \<noteq> []" "47 \<notin> set c" unfolding map_of_eq_None_iff by blast+
  then have "p @ 47 # c \<in> set (filter (\<lambda>q. take (length p + 1) q = p @ [47] \<and> drop (length p + 1) q \<noteq> [] \<and> 47 \<notin> set (drop (length p + 1) q)) (map fst z))"
    by simp
  then have "drop (length p + 1) (p @ 47 # c) \<in> set (mem_children p z)" unfolding mem_children_def set_remdups set_map by (rule imageI)
  then show "c \<in> set (mem_children p z)" by simp
qed

lemma mem_zk_simps [simp]:
  "zk_get mem_zk = map_of"
  "zk_children mem_zk z p = (if map_of z p = None then None else Some (mem_children p z))"
  "zk_create mem_zk z p d t = (if map_of z p = None then Some ((p, d, t) # z) else None)"
  "zk_set mem_zk z p d t = (if map_of z p = None then None else Some ((p, d, t) # z))"
  "zk_erase mem_zk z p = (if map_of z p = None \<or> mem_children p z \<noteq> [] then None else Some (AList.delete p z))"
  by (simp_all add: mem_zk_def)

lemma mem_zk_ok: "zk_ok mem_zk"
  unfolding zk_ok_def
proof (intro conjI allI impI)
  fix z p cs assume "zk_children mem_zk z p = Some cs"
  then have cs: "cs = mem_children p z" by (simp split: if_splits)
  show "distinct cs" unfolding cs mem_children_def by (rule distinct_remdups)
  show "set cs = {c. c \<noteq> [] \<and> 47 \<notin> set c \<and> zk_get mem_zk z (p @ 47 # c) \<noteq> None}" unfolding cs mem_children_set by simp
qed (auto simp: AList.delete_conv' split: if_splits)

text \<open>The escape character replaces the two characters that the real encoding does not produce.\<close>

fun esc :: "bytes \<Rightarrow> bytes" where
  "esc [] = []"
| "esc (x # xs) = (if x = 95 then [64, 65] else if x = 64 then [64, 66] else [x]) @ esc xs"

fun unesc :: "bytes \<Rightarrow> bytes" where
  "unesc [] = []"
| "unesc [c] = [c]"
| "unesc (c # d # r) = (if c = 64 then (if d = 65 then 95 else 64) # unesc r else c # unesc (d # r))"

lemma unesc_plain: "c \<noteq> 64 \<Longrightarrow> unesc (c # r) = c # unesc r"
  by (cases r) auto

lemma unesc_esc: "unesc (esc b) = b"
  by (induction b) (auto simp: unesc_plain)

lemma esc_plain: "95 \<notin> set (esc b)"
  by (induction b) auto

definition esc_codec :: codec where
  "esc_codec = \<lparr>b64_enc = esc, b64_dec = unesc\<rparr>"

lemma esc_codec_ok: "codec_ok esc_codec"
proof -
  have "esc b \<noteq> []" if "length b = 32" for b using that by (cases b) auto
  then show ?thesis by (simp add: codec_ok_def esc_codec_def unesc_esc esc_plain)
qed

lemma encode_replicate:
  "x \<notin> {47, 64, 95} \<Longrightarrow> encode_base64 esc_codec (replicate n x) = replicate n x"
proof -
  assume x: "x \<notin> {47, 64, 95}"
  then have "esc (replicate n x) = replicate n x" by (induction n) auto
  with x show ?thesis by (simp add: encode_base64_def esc_codec_def)
qed

definition sample_zk :: "(bytes \<times> bytes \<times> int) list" where
  "sample_zk = [(proxy_node (replicate 32 3), str ''10.0.0.1:12000'', 0), (proxy_node (replicate 32 9), str ''10.0.0.2:12000'', 0),
     (proxy_dir, [], 0), (str ''/slsfs/timeadjust'', [], 0), (str ''/slsfs'', [], 0)]"

definition sample_member :: "unit member" where
  "sample_member = \<lparr>zm_uuid = replicate 32 3, zm_announce = str ''10.0.0.1:12000'', zm_closed = False, zm_diff = 0, zm_cache = ()\<rparr>"

lemma timeadjust_no_node [simp]: "proxy_node c \<noteq> str ''/slsfs/timeadjust''" "proxy_dir \<noteq> str ''/slsfs/timeadjust''"
    "proxy_node c \<noteq> str ''/slsfs''" "proxy_dir \<noteq> str ''/slsfs''"
  by (simp_all add: proxy_node_def proxy_dir_def)

lemma map_of_sample_zk:
  "map_of sample_zk (proxy_node c) = (if c = replicate 32 3 then Some (str ''10.0.0.1:12000'', 0)
     else if c = replicate 32 9 then Some (str ''10.0.0.2:12000'', 0) else None)"
  "map_of sample_zk proxy_dir = Some ([], 0)" "map_of sample_zk (str ''/slsfs/timeadjust'') = Some ([], 0)"
  unfolding sample_zk_def by (simp_all add: timeadjust_no_node [symmetric] del: str_Cons)

lemma sample_ring: "ring mem_zk esc_codec {replicate 32 3, replicate 32 9} sample_zk"
proof -
  have ne: "replicate 32 x @ 47 # c \<noteq> replicate 32 y" for x y :: u8 and c
  proof
    assume "replicate 32 x @ 47 # c = replicate 32 y"
    then have "length (replicate 32 x @ 47 # c) = length (replicate 32 y)" by (rule arg_cong)
    then show False by simp
  qed
  show ?thesis by (simp add: ring_def encode_replicate proxy_node_append map_of_sample_zk ne)
qed

lemma sample_owner: "owner {replicate 32 3, replicate 32 9} (replicate 32 3) = (replicate 32 9 :: bytes)"
proof -
  have "replicate 32 3 < (replicate 32 9 :: bytes)" unfolding array_less_iff [symmetric] by (simp add: array_less_replicate)
  then have "{u \<in> {replicate 32 3, replicate 32 9}. replicate 32 3 < u} = {replicate 32 9 :: bytes}" by auto
  then show ?thesis by (auto simp: owner_def)
qed


theorem ownership_moves_minimally_witness:
  "\<exists>q r. proxy_of (sorted_list_of_set {[3 :: u8]}) [5] = Some q \<and> proxy_of (sorted_list_of_set {[7], [3 :: u8]}) [5] = Some r \<and> q \<in> {[3]} \<and> (r = q \<or> r = [7])"
  using ownership_moves_minimally [of "{[3 :: u8]}" "[7]" "[5]"] by simp

theorem check_off_by_twice_skew_witness:
  "\<exists>z'. start_check_alive mem_zk esc_codec [(1, 1 + 3 * 10 ^ 9)] (0 + 3 * 10 ^ 9) (sample_member, sample_zk) =
       Some (sample_member\<lparr>zm_diff := 3 * 10 ^ 9\<rparr>, z') \<and> ring mem_zk esc_codec {replicate 32 3} z'"
proof -
  have "{replicate 32 3, replicate 32 9} - {replicate 32 9} = {replicate 32 3 :: bytes}" by auto
  then show ?thesis
    using check_off_by_twice_skew [OF mem_zk_ok esc_codec_ok sample_ring, of sample_member "3 * 10 ^ 9" "replicate 32 9" "str ''10.0.0.2:12000''" 0 1 0]
    by (auto simp: sample_member_def sample_owner encode_replicate map_of_sample_zk simp del: str_Cons)
qed

end
