(* ===== verification/Launcher_Runs.thy ===== *)
theory Launcher_Runs
  imports Launcher
begin

text \<open>
  Runs of the launcher: any interleaving of arriving requests, open tasks, registering workers, packets and
  failures of workers, and timers. The invariant says where a job is; from it follow that no job is
  lost and where the jobs of a file go.
\<close>

section \<open>Events\<close>

datatype levent =
    New_request bool bytes packet nat
  | Run nat nat
  | Register u64 packet
  | Worker_bytes nat bytes
  | Worker_eof nat
  | Write_error nat
  | Policy_timer
  | Job_timer timer_result nat

fun run_task ::
  "('j, 's, 'q, 'f, 'c, 'w) libs \<Rightarrow> nat \<Rightarrow> launcher_task \<Rightarrow> ('j, 's, 'q, 'f, 'c, 'w) launcher \<Rightarrow> ('j, 's, 'q, 'f, 'c, 'w) launcher option" where
  "run_task L now (Process j) l = process_job L j l"
| "run_task L now (Process_direct pack next) l = process_job_with_worker L pack next l"
| "run_task L now (Notify n) l = run_notice L now n l"
| "run_task L now (Ack_task w pack) l = Some (on_worker_ack L w pack l)"
| "run_task L now (Response_task w pack) l = Some (on_worker_response L w pack l)"
| "run_task L now Create_workers l = Some (start_create_workers L l)"

definition drop_task :: "nat \<Rightarrow> ('j, 's, 'q, 'f, 'c, 'w) launcher \<Rightarrow> ('j, 's, 'q, 'f, 'c, 'w) launcher" where
  "drop_task i l = l\<lparr>lc_tasks := take i (lc_tasks l) @ drop (Suc i) (lc_tasks l)\<rparr>"

fun launcher_step ::
  "('j, 's, 'q, 'f, 'c, 'w) libs \<Rightarrow> levent \<Rightarrow> ('j, 's, 'q, 'f, 'c, 'w) launcher \<Rightarrow> ('j, 's, 'q, 'f, 'c, 'w) launcher option" where
  "launcher_step L (New_request direct body original next) l = start_trigger_post L direct body original next l"
| "launcher_step L (Run i now) l = (if i < length (lc_tasks l) then run_task L now (lc_tasks l ! i) (drop_task i l) else Some l)"
| "launcher_step L (Register wid info) l = add_worker L wid info l"
| "launcher_step L (Worker_bytes w stream) l = (if w < length (lc_workers l) then worker_read L w stream l else Some l)"
| "launcher_step L (Worker_eof w) l = (if w < length (lc_workers l) then worker_close L w None l else Some l)"
| "launcher_step L (Write_error w) l = (if w < length (lc_workers l) then worker_close L w None l else Some l)"
| "launcher_step L Policy_timer l = Some (start_execute_policy l)"
| "launcher_step L (Job_timer ec j) l = (if j < length (lc_jobs l) \<and> jb_timer (lc_jobs l ! j) then Some (job_timer ec j l) else Some l)"

fun launcher_run ::
  "('j, 's, 'q, 'f, 'c, 'w) libs \<Rightarrow> levent list \<Rightarrow> ('j, 's, 'q, 'f, 'c, 'w) launcher \<Rightarrow> ('j, 's, 'q, 'f, 'c, 'w) launcher option" where
  "launcher_run L [] l = Some l"
| "launcher_run L (e # es) l = Option.bind (launcher_step L e l) (launcher_run L es)"

section \<open>Where a job is\<close>

definition jobs_of :: "('j, 's, 'q, 'f, 'c, 'w) libs \<Rightarrow> ('j, 's, 'q, 'f, 'c, 'w) launcher \<Rightarrow> nat \<Rightarrow> bytes \<times> bytes \<times> bytes \<Rightarrow> nat option" where
  "jobs_of L l w = chm_find (li_jobs L) (wk_jobs (lc_workers l ! w))"

definition job_keys :: "('j, 's, 'q, 'f, 'c, 'w) launcher \<Rightarrow> (bytes \<times> bytes \<times> bytes) list" where
  "job_keys l = map (\<lambda>jb. full_key (pk_header (jb_pack jb))) (lc_jobs l)"

definition with_worker :: "('j, 's, 'q, 'f, 'c, 'w) libs \<Rightarrow> ('j, 's, 'q, 'f, 'c, 'w) launcher \<Rightarrow> nat \<Rightarrow> bool" where
  "with_worker L l j \<longleftrightarrow> (\<exists>w < length (lc_workers l). is_valid l w \<and> jobs_of L l w (job_keys l ! j) = Some j)"

definition placed :: "('j, 's, 'q, 'f, 'c, 'w) libs \<Rightarrow> ('j, 's, 'q, 'f, 'c, 'w) launcher \<Rightarrow> nat \<Rightarrow> bool" where
  "placed L l j \<longleftrightarrow> (\<exists>p. Completed j p \<in> set (lc_outs l)) \<or> Process j \<in> set (lc_tasks l) \<or> with_worker L l j"

fun task_ok :: "nat \<Rightarrow> nat \<Rightarrow> launcher_task \<Rightarrow> bool" where
  "task_ok nj nw (Process j) = (j < nj)"
| "task_ok nj nw (Ack_task w pack) = (w < nw)"
| "task_ok nj nw (Response_task w pack) = (w < nw)"
| "task_ok nj nw _ = True"

definition bound :: "('j, 's, 'q, 'f, 'c, 'w) libs \<Rightarrow> ('j, 's, 'q, 'f, 'c, 'w) launcher \<Rightarrow> bytes \<rightharpoonup> packet_header \<times> nat" where
  "bound L l = chm_find (fl_files (li_ftw L)) (fw_fileid (lc_ftw l))"

definition refs :: "('j, 's, 'q, 'f, 'c, 'w) libs \<Rightarrow> ('j, 's, 'q, 'f, 'c, 'w) launcher \<Rightarrow> bool" where
  "refs L l \<longleftrightarrow>
     (\<forall>w < length (lc_workers l). \<forall>k j. jobs_of L l w k = Some j \<longrightarrow> j < length (lc_jobs l) \<and> k = job_keys l ! j) \<and>
     (\<forall>w \<in> dom (chm_find (li_set L) (lc_worker_set l)). w < length (lc_workers l)) \<and>
     (\<forall>(h, w) \<in> ran (bound L l). w < length (lc_workers l)) \<and>
     (\<forall>t \<in> set (lc_tasks l). task_ok (length (lc_jobs l)) (length (lc_workers l)) t)"

text \<open>What every handler keeps: the jobs and their keys, the references, and the place of every job.\<close>

definition keeps :: "('j, 's, 'q, 'f, 'c, 'w) libs \<Rightarrow> ('j, 's, 'q, 'f, 'c, 'w) launcher \<Rightarrow> ('j, 's, 'q, 'f, 'c, 'w) launcher \<Rightarrow> bool" where
  "keeps L l l' \<longleftrightarrow> (\<exists>ks. job_keys l' = job_keys l @ ks) \<and> refs L l' \<and> length (lc_workers l) \<le> length (lc_workers l') \<and>
     (\<forall>j < length (lc_jobs l'). (j < length (lc_jobs l) \<longrightarrow> placed L l j) \<longrightarrow> placed L l' j)"

lemma length_job_keys [simp]: "length (job_keys l) = length (lc_jobs l)"
  by (simp add: job_keys_def)

lemma job_keys_nth: "j < length (lc_jobs l) \<Longrightarrow> job_keys l ! j = full_key (job_header l j)"
  by (simp add: job_keys_def job_header_def)

lemma keeps_refl: "refs L l \<Longrightarrow> keeps L l l"
  by (simp add: keeps_def)

lemma keeps_length: "keeps L l l' \<Longrightarrow> length (lc_jobs l) \<le> length (lc_jobs l')"
  unfolding keeps_def by (metis length_append length_job_keys le_add1)

lemma keeps_placed: "keeps L l l' \<Longrightarrow> j < length (lc_jobs l) \<Longrightarrow> placed L l j \<Longrightarrow> placed L l' j"
  using keeps_length [of L l l'] by (simp add: keeps_def)

lemma keeps_trans: "keeps L l l' \<Longrightarrow> keeps L l' l'' \<Longrightarrow> keeps L l l''"
  by (auto simp: keeps_def)

lemma keepsI:
  "job_keys l' = job_keys l \<Longrightarrow> refs L l' \<Longrightarrow> length (lc_workers l) \<le> length (lc_workers l') \<Longrightarrow>
   (\<And>j. j < length (lc_jobs l) \<Longrightarrow> placed L l j \<Longrightarrow> placed L l' j) \<Longrightarrow> keeps L l l'"
  unfolding keeps_def using length_job_keys by (metis append_Nil2)

section \<open>The handlers keep the jobs\<close>

lemma frame_simps [simp]:
  "lc_workers (post ts l) = lc_workers l" "lc_jobs (post ts l) = lc_jobs l" "lc_worker_set (post ts l) = lc_worker_set l"
  "lc_ftw (post ts l) = lc_ftw l" "lc_outs (post ts l) = lc_outs l" "lc_tasks (post ts l) = lc_tasks l @ ts"
  "lc_launch (post ts l) = lc_launch l" "lc_transfers (post ts l) = lc_transfers l" "lc_keepalive (post ts l) = lc_keepalive l"
  "lc_workers (emit os l) = lc_workers l" "lc_jobs (emit os l) = lc_jobs l" "lc_worker_set (emit os l) = lc_worker_set l"
  "lc_ftw (emit os l) = lc_ftw l" "lc_outs (emit os l) = lc_outs l @ os" "lc_tasks (emit os l) = lc_tasks l"
  "lc_launch (emit os l) = lc_launch l" "lc_transfers (emit os l) = lc_transfers l" "lc_keepalive (emit os l) = lc_keepalive l"
  by (simp_all add: post_def emit_def)

lemma keeps_frame:
  assumes r: "refs L l" and same: "lc_workers l' = lc_workers l" "job_keys l' = job_keys l"
    and set: "\<forall>w \<in> dom (chm_find (li_set L) (lc_worker_set l')). w < length (lc_workers l)"
    and bind: "\<forall>(h, w) \<in> ran (bound L l'). w < length (lc_workers l)"
    and tasks: "set (lc_tasks l) \<subseteq> set (lc_tasks l')"
      "\<forall>t \<in> set (lc_tasks l') - set (lc_tasks l). task_ok (length (lc_jobs l)) (length (lc_workers l)) t"
    and outs: "set (lc_outs l) \<subseteq> set (lc_outs l')"
  shows "keeps L l l'"
proof -
  have eq: "jobs_of L l' = jobs_of L l" "is_valid l' = is_valid l" "length (lc_jobs l') = length (lc_jobs l)"
    using same length_job_keys [of l'] by (simp_all add: fun_eq_iff jobs_of_def is_valid_def)
  have "\<forall>t \<in> set (lc_tasks l'). task_ok (length (lc_jobs l)) (length (lc_workers l)) t"
    using r tasks(2) by (auto simp: refs_def)
  then have "refs L l'" using r set bind by (simp add: refs_def eq same)
  moreover have "placed L l j \<Longrightarrow> placed L l' j" for j
    using tasks(1) outs by (auto simp: placed_def with_worker_def eq same)
  ultimately show ?thesis by (intro keepsI) (simp_all add: same)
qed

lemma refs_set: "refs L l \<Longrightarrow> \<forall>w \<in> dom (chm_find (li_set L) (lc_worker_set l)). w < length (lc_workers l)"
  by (simp add: refs_def)

lemma refs_bound: "refs L l \<Longrightarrow> \<forall>(h, w) \<in> ran (bound L l). w < length (lc_workers l)"
  by (simp add: refs_def)

lemma keeps_post:
  "refs L l \<Longrightarrow> \<forall>t \<in> set ts. task_ok (length (lc_jobs l)) (length (lc_workers l)) t \<Longrightarrow> keeps L l (post ts l)"
  using refs_set [of L l] refs_bound [of L l] by (intro keeps_frame) (simp_all add: job_keys_def bound_def, blast)

lemma keeps_emit: "refs L l \<Longrightarrow> keeps L l (emit os l)"
  using refs_set [of L l] refs_bound [of L l] by (intro keeps_frame) (simp_all add: job_keys_def bound_def)

lemma keeps_ftw:
  assumes "refs L l" "\<forall>(h, w) \<in> ran (chm_find (fl_files (li_ftw L)) (fw_fileid f)). w < length (lc_workers l)"
  shows "keeps L l (l\<lparr>lc_ftw := f\<rparr>)"
  using assms refs_set [of L l] by (intro keeps_frame) (simp_all add: job_keys_def bound_def)

lemma keeps_policies: "refs L l \<Longrightarrow> keeps L l (l\<lparr>lc_keepalive := k, lc_launch := la\<rparr>)"
  using refs_set [of L l] refs_bound [of L l] by (intro keeps_frame) (simp_all add: job_keys_def bound_def)

lemma keeps_jobs:
  assumes "refs L l" "jb_pack jb = jb_pack (lc_jobs l ! j)"
  shows "keeps L l (l\<lparr>lc_jobs := (lc_jobs l)[j := jb]\<rparr>)"
proof -
  have "job_keys (l\<lparr>lc_jobs := (lc_jobs l)[j := jb]\<rparr>) = job_keys l"
  proof (intro nth_equalityI)
    fix i
    assume "i < length (job_keys (l\<lparr>lc_jobs := (lc_jobs l)[j := jb]\<rparr>))"
    then show "job_keys (l\<lparr>lc_jobs := (lc_jobs l)[j := jb]\<rparr>) ! i = job_keys l ! i"
      using assms(2) by (cases "i = j") (simp_all add: job_keys_def)
  qed simp
  then show ?thesis
    using assms refs_set [of L l] refs_bound [of L l] by (intro keeps_frame) (simp_all add: bound_def)
qed

text \<open>The effect of the file policy on the bindings.\<close>

lemma fw_fileid_simps [simp]:
  "fw_fileid (active_execute F p) = fw_fileid p" "fw_fileid (ftw_execute F p) = fw_fileid p"
  "fw_fileid (ftw_started_a_new_job F wid h p) = fw_fileid p" "fw_fileid (ftw_start_transfer F p) = fw_fileid p"
  by (simp_all add: active_execute_def ftw_execute_def ftw_started_a_new_job_def ftw_start_transfer_def Let_def
      split: prod.splits option.splits)

lemma ran_emplace_binding:
  "chmap_ok (fl_files F) \<Longrightarrow> ran (chm_find (fl_files F) (fw_fileid (emplace_binding F h w p))) \<subseteq>
     insert (h, w) (ran (chm_find (fl_files F) (fw_fileid p)))"
  by (auto simp: emplace_binding_def chmap_find_emplace ran_def)

lemma ran_erase_binding:
  "chmap_ok (fl_files F) \<Longrightarrow> ran (chm_find (fl_files F) (fw_fileid (erase_binding F h p))) \<subseteq> ran (chm_find (fl_files F) (fw_fileid p))"
  by (auto simp: erase_binding_def chmap_find_erase ran_def)

lemma ran_finished:
  "chmap_ok (fl_files F) \<Longrightarrow> ran (chm_find (fl_files F) (fw_fileid (ftw_finished_a_job F wid h p))) \<subseteq> ran (chm_find (fl_files F) (fw_fileid p))"
  by (auto simp: ftw_finished_a_job_def erase_binding_def chmap_find_erase ran_def Let_def split: option.splits if_splits)

lemma libs_okD:
  "libs_ok L \<Longrightarrow> chmap_ok (li_jobs L)" "libs_ok L \<Longrightarrow> chmap_ok (li_set L)" "libs_ok L \<Longrightarrow> cqueue_ok (li_queue L)"
  "libs_ok L \<Longrightarrow> chmap_ok (fl_files (li_ftw L))"
  by (simp_all add: libs_ok_def ftw_libs_ok_def)

lemma keeps_bind:
  assumes "libs_ok L" "refs L l" "w < length (lc_workers l)"
  shows "keeps L l (l\<lparr>lc_ftw := emplace_binding (li_ftw L) h w (lc_ftw l)\<rparr>)"
  using assms ran_emplace_binding [OF libs_okD(4) [OF assms(1)], of h w "lc_ftw l"] refs_bound [OF assms(2)]
  by (intro keeps_ftw) (fastforce simp: bound_def)+

lemma keeps_unbind:
  assumes "libs_ok L" "refs L l"
  shows "keeps L l (l\<lparr>lc_ftw := erase_binding (li_ftw L) h (lc_ftw l)\<rparr>)"
  using assms ran_erase_binding [OF libs_okD(4) [OF assms(1)], of h "lc_ftw l"] refs_bound [OF assms(2)]
  by (intro keeps_ftw) (fastforce simp: bound_def)+

lemma keeps_reschedule: "refs L l \<Longrightarrow> j < length (lc_jobs l) \<Longrightarrow> keeps L l (reschedule j l)"
  unfolding reschedule_def by (rule keeps_post) auto

lemma placed_post: "Process j \<in> set ts \<Longrightarrow> placed L (post ts l) j"
  by (simp add: placed_def)

lemma refs_keeps: "keeps L l l' \<Longrightarrow> refs L l'"
  by (simp add: keeps_def)

text \<open>Looking up a worker.\<close>

lemma usable_Some: "usable l r = Some w \<longleftrightarrow> r = Some w \<and> is_valid l w"
  by (auto simp: usable_def split: option.splits)

lemma refs_assigned:
  assumes "refs L l" "get_assigned_worker (li_ftw L) h (lc_ftw l) = Some w"
  shows "w < length (lc_workers l)"
  using assms refs_bound [OF assms(1)]
  by (fastforce simp: get_assigned_worker_def base_assigned_worker_def bound_def intro: ranI split: if_splits)

lemma current_workers:
  "libs_ok L \<Longrightarrow> refs L l \<Longrightarrow> set (map fst (chm_range (li_set L) (lc_worker_set l))) \<subseteq> {..< length (lc_workers l)}"
  using refs_set [of L l] by (auto simp: chmap_range_iff [OF libs_okD(2)])

lemma find_worker_keeps:
  assumes "libs_ok L" "refs L l" "find_worker L h l = Some (r, l')"
  shows "keeps L l l'" "r = Some w \<Longrightarrow> w < length (lc_workers l) \<and> is_valid l w"
    "lc_workers l' = lc_workers l" "lc_jobs l' = lc_jobs l" "lc_tasks l' = lc_tasks l" "lc_outs l' = lc_outs l"
proof -
  let ?av = "get_available_worker (fw_kind (lc_ftw l)) (is_valid l) (pending_jobs L l) (map fst (chm_range (li_set L) (lc_worker_set l)))"
  have "keeps L l l' \<and> (\<forall>w. r = Some w \<longrightarrow> w < length (lc_workers l) \<and> is_valid l w) \<and>
    lc_workers l' = lc_workers l \<and> lc_jobs l' = lc_jobs l \<and> lc_tasks l' = lc_tasks l \<and> lc_outs l' = lc_outs l"
  proof (cases "usable l (get_assigned_worker (li_ftw L) h (lc_ftw l))")
    case (Some v)
    then have "r = Some v" "l' = l" using assms(3) by (simp_all add: find_worker_def)
    with Some show ?thesis using assms(2) refs_assigned [OF assms(2)] by (auto simp: usable_Some keeps_refl)
  next
    case None
    then obtain a where a: "?av = Some a" using assms(3) by (cases ?av) (auto simp: find_worker_def)
    show ?thesis
    proof (cases "usable l a")
      case None': None
      then show ?thesis using None a assms(2,3) by (auto simp: find_worker_def keeps_refl)
    next
      case (Some v)
      then have "a = Some v" "is_valid l v" by (simp_all add: usable_Some)
      moreover from this(1) have "v < length (lc_workers l)"
        using choice.chosen_member [of "fw_kind (lc_ftw l)"] a current_workers [OF assms(1,2)] by blast
      moreover have "r = Some v" "l' = l\<lparr>lc_ftw := emplace_binding (li_ftw L) h v (lc_ftw l)\<rparr>"
        using None Some a assms(3) by (simp_all add: find_worker_def)
      ultimately show ?thesis using keeps_bind [OF assms(1,2)] by auto
    qed
  qed
  then show "keeps L l l'" "r = Some w \<Longrightarrow> w < length (lc_workers l) \<and> is_valid l w"
    "lc_workers l' = lc_workers l" "lc_jobs l' = lc_jobs l" "lc_tasks l' = lc_tasks l" "lc_outs l' = lc_outs l"
    by auto
qed

text \<open>Changes of one worker object.\<close>

lemma keeps_worker:
  assumes r: "refs L l" and w: "w < length (lc_workers l)"
    and jobs: "\<And>k j. chm_find (li_jobs L) (wk_jobs wk) k = Some j \<Longrightarrow> j < length (lc_jobs l) \<and> k = job_keys l ! j"
    and placed: "\<And>j. j < length (lc_jobs l) \<Longrightarrow> is_valid l w \<Longrightarrow> jobs_of L l w (job_keys l ! j) = Some j \<Longrightarrow>
      (wk_valid wk \<and> chm_find (li_jobs L) (wk_jobs wk) (job_keys l ! j) = Some j) \<or> placed L l' j"
    and l': "lc_workers l' = (lc_workers l)[w := wk]" "job_keys l' = job_keys l" "lc_worker_set l' = lc_worker_set l"
      "lc_ftw l' = lc_ftw l" "lc_tasks l' = lc_tasks l" "set (lc_outs l) \<subseteq> set (lc_outs l')"
  shows "keeps L l l'"
proof -
  have len: "length (lc_jobs l') = length (lc_jobs l)" using l'(2) length_job_keys by metis
  have jobs': "jobs_of L l' v = (if v = w then chm_find (li_jobs L) (wk_jobs wk) else jobs_of L l v)" for v
    using w by (simp add: jobs_of_def l'(1))
  have valid': "is_valid l' v = (if v = w then wk_valid wk else is_valid l v)" for v
    using w by (simp add: is_valid_def l'(1))
  have "refs L l'"
    using r jobs unfolding refs_def by (simp add: jobs' l' len bound_def split: if_splits)
  moreover have "placed L l' j" if pl: "placed L l j" and j: "j < length (lc_jobs l)" for j
  proof -
    consider "(\<exists>p. Completed j p \<in> set (lc_outs l)) \<or> Process j \<in> set (lc_tasks l)"
      | v where "v < length (lc_workers l)" "is_valid l v" "jobs_of L l v (job_keys l ! j) = Some j"
      using pl by (auto simp: placed_def with_worker_def)
    then show ?thesis
    proof cases
      case 1
      then show ?thesis using l'(5,6) by (auto simp: placed_def)
    next
      case (2 v)
      show ?thesis
      proof (cases "v = w")
        case True
        with placed [OF j] 2 have "(wk_valid wk \<and> chm_find (li_jobs L) (wk_jobs wk) (job_keys l ! j) = Some j) \<or> placed L l' j"
          by simp
        moreover have "with_worker L l' j" if "wk_valid wk" "chm_find (li_jobs L) (wk_jobs wk) (job_keys l ! j) = Some j"
          unfolding with_worker_def using that w by (intro exI [of _ w]) (simp add: l'(1,2) jobs' valid')
        ultimately show ?thesis by (auto simp: placed_def)
      next
        case False
        then show ?thesis using 2 by (auto simp: placed_def with_worker_def l' jobs' valid' intro!: exI [of _ v])
      qed
    qed
  qed
  ultimately show ?thesis by (intro keepsI) (simp_all add: l')
qed

lemma refs_jobs: "refs L l \<Longrightarrow> w < length (lc_workers l) \<Longrightarrow> jobs_of L l w k = Some j \<Longrightarrow> j < length (lc_jobs l) \<and> k = job_keys l ! j"
  unfolding refs_def by blast

lemma worker_start_job_keeps:
  assumes "libs_ok L" "refs L l" "w < length (lc_workers l)" "j < length (lc_jobs l)"
  shows "keeps L l (worker_start_job L w j l)"
    and "distinct (job_keys l) \<Longrightarrow> is_valid l w \<Longrightarrow> placed L (worker_start_job L w j l) j"
proof -
  let ?M = "li_jobs L" and ?wk = "lc_workers l ! w" and ?k = "full_key (job_header l j)"
  have k: "?k = job_keys l ! j" using assms(4) by (simp add: job_keys_nth)
  let ?wk' = "?wk\<lparr>wk_jobs := chm_emplace ?M (wk_jobs ?wk) ?k j\<rparr>"
  have find: "chm_find ?M (wk_jobs ?wk') = (if jobs_of L l w ?k = None then (jobs_of L l w)(?k \<mapsto> j) else jobs_of L l w)"
    by (simp add: jobs_of_def chmap_find_emplace [OF libs_okD(1) [OF assms(1)]])
  show "keeps L l (worker_start_job L w j l)"
  proof (rule keeps_worker [where w = w and wk = ?wk'])
    fix k' j'
    assume "chm_find ?M (wk_jobs ?wk') k' = Some j'"
    then show "j' < length (lc_jobs l) \<and> k' = job_keys l ! j'"
      using refs_jobs [OF assms(2,3)] assms(4) k unfolding find by (auto split: if_splits)
  next
    fix j'
    assume "is_valid l w" "jobs_of L l w (job_keys l ! j') = Some j'"
    then have "wk_valid ?wk' \<and> chm_find ?M (wk_jobs ?wk') (job_keys l ! j') = Some j'"
      unfolding find by (auto simp: is_valid_def)
    then show "wk_valid ?wk' \<and> chm_find ?M (wk_jobs ?wk') (job_keys l ! j') = Some j' \<or> placed L (worker_start_job L w j l) j'" ..
  qed (use assms in \<open>auto simp: worker_start_job_def Let_def job_keys_def\<close>)
  assume "distinct (job_keys l)" "is_valid l w"
  moreover have "jobs_of L l w ?k = Some j' \<Longrightarrow> j' = j" for j'
    using refs_jobs [OF assms(2,3)] calculation(1) assms(4) unfolding k by (metis length_job_keys nth_eq_iff_index_eq)
  ultimately have "is_valid l w \<and> chm_find ?M (wk_jobs ?wk') (job_keys l ! j) = Some j"
    unfolding find unfolding k by (cases "jobs_of L l w (job_keys l ! j)") auto
  then show "placed L (worker_start_job L w j l) j"
    using assms(3) by (auto simp: placed_def with_worker_def worker_start_job_def Let_def jobs_of_def is_valid_def job_keys_def intro!: exI [of _ w])
qed

lemma on_worker_ack_keeps:
  assumes "libs_ok L" "refs L l"
  shows "keeps L l (on_worker_ack L w pack l)"
  using assms by (auto simp: on_worker_ack_def keeps_refl intro!: keeps_jobs split: option.splits)

lemma keeps_completed:
  assumes "libs_ok L" "refs L l" "w < length (lc_workers l)" "jobs_of L l w k = Some j"
  shows "keeps L l (emit [Completed j pack]
    (l\<lparr>lc_workers := (lc_workers l)[w := (lc_workers l ! w)\<lparr>wk_jobs := chm_erase (li_jobs L) (wk_jobs (lc_workers l ! w)) k\<rparr>]\<rparr>))"
proof -
  define wk where "wk = (lc_workers l ! w)\<lparr>wk_jobs := chm_erase (li_jobs L) (wk_jobs (lc_workers l ! w)) k\<rparr>"
  have find: "chm_find (li_jobs L) (wk_jobs wk) = (jobs_of L l w)(k := None)" "wk_valid wk = is_valid l w"
    by (simp_all add: wk_def jobs_of_def is_valid_def chmap_find_erase [OF libs_okD(1) [OF assms(1)]])
  show ?thesis unfolding wk_def [symmetric]
  proof (rule keeps_worker [OF assms(2,3), where wk = wk])
    fix k' j'
    assume "chm_find (li_jobs L) (wk_jobs wk) k' = Some j'"
    then show "j' < length (lc_jobs l) \<and> k' = job_keys l ! j'"
      using refs_jobs [OF assms(2,3)] unfolding find by (auto split: if_splits)
  next
    fix j'
    assume "is_valid l w" "jobs_of L l w (job_keys l ! j') = Some j'"
    then show "wk_valid wk \<and> chm_find (li_jobs L) (wk_jobs wk) (job_keys l ! j') = Some j' \<or>
        placed L (emit [Completed j pack] (l\<lparr>lc_workers := (lc_workers l)[w := wk]\<rparr>)) j'"
      using assms(4) unfolding find by (auto simp: placed_def)
  qed (auto simp: job_keys_def)
qed

lemma on_worker_response_keeps:
  assumes "libs_ok L" "refs L l" "w < length (lc_workers l)"
  shows "keeps L l (on_worker_response L w pack l)"
proof (cases "jobs_of L l w (full_key (pk_header pack))")
  case None
  then show ?thesis using assms(2) by (simp add: on_worker_response_def jobs_of_def keeps_refl)
next
  case (Some j)
  define ws where "ws = (lc_workers l)[w := (lc_workers l ! w)
    \<lparr>wk_jobs := chm_erase (li_jobs L) (wk_jobs (lc_workers l ! w)) (full_key (pk_header pack))\<rparr>]"
  define jb where "jb = (lc_jobs l ! j)\<lparr>jb_state := Job_finished\<rparr>"
  define l1 where "l1 = emit [Completed j pack] (l\<lparr>lc_workers := ws\<rparr>)"
  define l2 where "l2 = l1\<lparr>lc_jobs := (lc_jobs l1)[j := jb]\<rparr>"
  have 1: "keeps L l l1" unfolding l1_def ws_def by (rule keeps_completed [OF assms Some])
  have 2: "keeps L l1 l2" unfolding l2_def by (rule keeps_jobs [OF refs_keeps [OF 1]]) (simp add: jb_def l1_def)
  have 3: "keeps L l2 (post [Notify (N_finished w j)] l2)" by (rule keeps_post [OF refs_keeps [OF 2]]) simp
  have "l2 = emit [Completed j pack] (l\<lparr>lc_workers := ws, lc_jobs := (lc_jobs l)[j := jb]\<rparr>)"
    by (simp add: l2_def l1_def emit_def)
  then have "on_worker_response L w pack l = post [Notify (N_finished w j)] l2"
    using Some by (simp add: on_worker_response_def jobs_of_def Let_def ws_def jb_def)
  then show ?thesis using keeps_trans [OF keeps_trans [OF 1 2] 3] by simp
qed

lemma keeps_dereg:
  assumes "libs_ok L" "refs L l"
  shows "keeps L l (l\<lparr>lc_transfers := q, lc_worker_set := chm_erase (li_set L) (lc_worker_set l) w\<rparr>)"
  using refs_set [OF assms(2)] refs_bound [OF assms(2)]
  by (intro keeps_frame [OF assms(2)])
    (auto simp: job_keys_def bound_def chmap_find_erase [OF libs_okD(2) [OF assms(1)]] split: if_splits)

lemma on_worker_close_keeps:
  assumes "libs_ok L" "refs L l" "on_worker_close L w pack l = Some l'"
  shows "keeps L l l'" "lc_workers l' = lc_workers l" "lc_jobs l' = lc_jobs l"
proof -
  obtain q n where l': "l' = post [Notify n] (l\<lparr>lc_transfers := q, lc_worker_set := chm_erase (li_set L) (lc_worker_set l) w\<rparr>)"
    using assms(3) by (auto simp: on_worker_close_def Let_def split: if_splits bind_splits)
  note d = keeps_dereg [OF assms(1,2), where q = q and w = w]
  show "keeps L l l'" unfolding l' by (rule keeps_trans [OF d keeps_post [OF refs_keeps [OF d]]]) simp
  show "lc_workers l' = lc_workers l" "lc_jobs l' = lc_jobs l" by (simp_all add: l')
qed

lemma on_worker_reschedule_keeps:
  assumes "libs_ok L" "refs L l" "j < length (lc_jobs l)"
  shows "keeps L l (on_worker_reschedule L j l)" "placed L (on_worker_reschedule L j l) j"
    "lc_jobs (on_worker_reschedule L j l) = lc_jobs l"
proof -
  note u = keeps_unbind [OF assms(1,2), of "job_header l j"]
  show "keeps L l (on_worker_reschedule L j l)"
    unfolding on_worker_reschedule_def by (rule keeps_trans [OF u keeps_reschedule [OF refs_keeps [OF u]]]) (simp add: assms(3))
  show "placed L (on_worker_reschedule L j l) j" "lc_jobs (on_worker_reschedule L j l) = lc_jobs l"
    by (simp_all add: on_worker_reschedule_def reschedule_def placed_post)
qed

lemma reschedule_all_keeps:
  assumes "libs_ok L" "refs L l" "\<forall>(k, j) \<in> set js. j < length (lc_jobs l)"
  shows "keeps L l (foldl (\<lambda>l (_, j). on_worker_reschedule L j l) l js) \<and>
    (\<forall>(k, j) \<in> set js. placed L (foldl (\<lambda>l (_, j). on_worker_reschedule L j l) l js) j)"
  using assms(2,3)
proof (induction js arbitrary: l)
  case (Cons a js)
  obtain k j where a: "a = (k, j)" by (cases a)
  let ?l = "on_worker_reschedule L j l"
  have j: "j < length (lc_jobs l)" using Cons.prems(2) a by simp
  note r = on_worker_reschedule_keeps [OF assms(1) Cons.prems(1) j]
  have js: "\<forall>(k, j) \<in> set js. j < length (lc_jobs ?l)" using Cons.prems(2) r(3) by auto
  note IH = Cons.IH [OF refs_keeps [OF r(1)] js]
  then have "placed L (foldl (\<lambda>l (_, j). on_worker_reschedule L j l) ?l js) j"
    by (intro keeps_placed [OF conjunct1 [OF IH]]) (simp_all add: r(2,3) j)
  then show ?case using IH keeps_trans [OF r(1)] a by auto
qed (simp add: keeps_refl)

text \<open>
  A closed worker: its jobs are rescheduled, so each of them is an open task again. The intermediate state, in
  which the worker is already invalid, keeps the references only.
\<close>

lemma refs_invalidate:
  assumes "refs L l" "w < length (lc_workers l)"
  shows "refs L (emit os (l\<lparr>lc_workers := (lc_workers l)[w := (lc_workers l ! w)\<lparr>wk_valid := False\<rparr>]\<rparr>))" (is "refs L ?l")
proof -
  have "jobs_of L ?l v = jobs_of L l v" for v
    using assms(2) by (cases "v = w") (simp_all add: jobs_of_def)
  moreover have "job_keys ?l = job_keys l" "bound L ?l = bound L l" by (simp_all add: job_keys_def bound_def)
  ultimately show ?thesis using assms(1) unfolding refs_def by simp
qed

lemma worker_close_keeps:
  assumes "libs_ok L" "refs L l" "w < length (lc_workers l)" "worker_close L w to_transfer l = Some l'"
  shows "keeps L l l'"
proof -
  define l1 where "l1 = emit [Shutdown w] (l\<lparr>lc_workers := (lc_workers l)[w := (lc_workers l ! w)\<lparr>wk_valid := False\<rparr>]\<rparr>)"
  have 1: "refs L l1" "lc_jobs l1 = lc_jobs l" "length (lc_workers l1) = length (lc_workers l)" "lc_tasks l1 = lc_tasks l"
    "set (lc_outs l) \<subseteq> set (lc_outs l1)" "jobs_of L l1 w = jobs_of L l w"
    using refs_invalidate [OF assms(2,3)] assms(3) by (auto simp: l1_def jobs_of_def)
  have v1: "v \<noteq> w \<Longrightarrow> is_valid l1 v = is_valid l v \<and> jobs_of L l1 v = jobs_of L l v" for v
    by (simp add: l1_def is_valid_def jobs_of_def)
  obtain l2 where l2: "(case to_transfer of None \<Rightarrow> Some l1 | Some pack \<Rightarrow> on_worker_close L w pack l1) = Some l2"
    and l': "l' = foldl (\<lambda>l (_, j). on_worker_reschedule L j l) l2 (chm_range (li_jobs L) (wk_jobs (lc_workers l2 ! w)))"
    using assms(4) unfolding worker_close_def l1_def [symmetric] Let_def by (auto split: bind_splits)
  have 2: "keeps L l1 l2" "lc_workers l2 = lc_workers l1" "lc_jobs l2 = lc_jobs l1"
    using l2 on_worker_close_keeps [OF assms(1) 1(1), of w] keeps_refl [OF 1(1)] by (auto split: option.splits)
  define js where "js = chm_range (li_jobs L) (wk_jobs (lc_workers l2 ! w))"
  have js: "(k, j) \<in> set js \<longleftrightarrow> jobs_of L l w k = Some j" for k j
    using 1(6) by (simp add: js_def 2(2) chmap_range_iff [OF libs_okD(1) [OF assms(1)]] jobs_of_def)
  have "\<forall>(k, j) \<in> set js. j < length (lc_jobs l2)"
    using refs_jobs [OF assms(2,3)] 1(2) 2(3) by (auto simp: js)
  note 3 = reschedule_all_keeps [OF assms(1) refs_keeps [OF 2(1)] this, folded js_def, unfolded js_def, folded l']
  have 13: "keeps L l1 l'" using keeps_trans [OF 2(1)] 3 by blast
  have "placed L l' j" if pl: "placed L l j" and j: "j < length (lc_jobs l)" for j
  proof (cases "jobs_of L l w (job_keys l ! j) = Some j")
    case True
    then have "(job_keys l ! j, j) \<in> set js" by (simp only: js)
    then show ?thesis using 3 unfolding js_def by blast
  next
    case False
    have "job_keys l1 = job_keys l" by (simp add: job_keys_def 1(2))
    then have "placed L l1 j"
      using pl False v1 1(3-5) unfolding placed_def with_worker_def by (metis subsetD)
    then show ?thesis using keeps_placed [OF 13] j 1(2) by simp
  qed
  moreover have "placed L l' j" if "j < length (lc_jobs l')" "\<not> j < length (lc_jobs l)" for j
    using 13 that 1(2) by (simp add: keeps_def)
  ultimately show ?thesis using 13 1(2,3) by (auto simp: keeps_def job_keys_def)
qed

text \<open>New workers.\<close>

lemma keeps_new_worker:
  assumes "libs_ok L" "refs L l"
  shows "keeps L l (l\<lparr>lc_workers := lc_workers l @ [\<lparr>wk_id = wid, wk_valid = True, wk_jobs = chm_empty (li_jobs L)\<rparr>],
    lc_worker_set := chm_emplace (li_set L) (lc_worker_set l) (length (lc_workers l)) e\<rparr>)" (is "keeps L l ?l")
proof -
  have old: "v < length (lc_workers l) \<Longrightarrow> jobs_of L ?l v = jobs_of L l v \<and> is_valid ?l v = is_valid l v" for v
    by (simp add: jobs_of_def is_valid_def nth_append)
  have new: "jobs_of L ?l (length (lc_workers l)) = Map.empty"
    using libs_okD(1) [OF assms(1)] by (simp add: jobs_of_def chmap_ok_def)
  have keys: "job_keys ?l = job_keys l" "bound L ?l = bound L l" by (simp_all add: job_keys_def bound_def)
  have task: "task_ok nj nw t \<Longrightarrow> task_ok nj (Suc nw) t" for nj nw t by (cases t) simp_all
  have "\<forall>v < length (lc_workers ?l). \<forall>k j. jobs_of L ?l v k = Some j \<longrightarrow> j < length (lc_jobs ?l) \<and> k = job_keys ?l ! j"
  proof (intro allI impI)
    fix v k j
    assume "v < length (lc_workers ?l)" "jobs_of L ?l v k = Some j"
    then show "j < length (lc_jobs ?l) \<and> k = job_keys ?l ! j"
      using old new refs_jobs [OF assms(2), of v k j] keys by (cases "v = length (lc_workers l)") auto
  qed
  moreover have "dom (chm_find (li_set L) (lc_worker_set ?l)) \<subseteq> insert (length (lc_workers l)) (dom (chm_find (li_set L) (lc_worker_set l)))"
    by (auto simp: chmap_find_emplace [OF libs_okD(2) [OF assms(1)]] split: if_splits)
  then have "\<forall>v \<in> dom (chm_find (li_set L) (lc_worker_set ?l)). v < length (lc_workers ?l)"
    using refs_set [OF assms(2)] by (auto 0 3 intro: less_SucI dest!: subsetD)
  moreover have "\<forall>(h, v) \<in> ran (bound L ?l). v < length (lc_workers ?l)"
    using refs_bound [OF assms(2)] unfolding keys by auto
  moreover have "\<forall>t \<in> set (lc_tasks ?l). task_ok (length (lc_jobs ?l)) (length (lc_workers ?l)) t"
    using assms(2) task by (simp add: refs_def)
  ultimately have "refs L ?l" unfolding refs_def by blast
  moreover have "placed L ?l j" if "placed L l j" for j
    using that old unfolding placed_def with_worker_def keys by (auto intro: less_SucI)
  ultimately show ?thesis by (intro keepsI) (simp_all add: keys)
qed

lemma add_binding_keeps:
  assumes "libs_ok L" "refs L l" "w < length (lc_workers l)"
  shows "keeps L l (add_binding L w l h)" "lc_workers (add_binding L w l h) = lc_workers l"
  using keeps_bind [OF assms] keeps_refl [OF assms(2)] by (auto simp: add_binding_def split: option.splits)

lemma add_bindings_keeps:
  assumes "libs_ok L" "refs L l" "w < length (lc_workers l)"
  shows "keeps L l (foldl (add_binding L w) l hs)"
  using assms(2,3)
proof (induction hs arbitrary: l)
  case (Cons h hs)
  note b = add_binding_keeps [OF assms(1) Cons.prems, of h]
  show ?case using Cons.IH [OF refs_keeps [OF b(1)]] b Cons.prems(2) keeps_trans [OF b(1)] by simp
qed (simp add: keeps_refl)

lemma keeps_transfers:
  assumes "refs L l"
  shows "keeps L l (l\<lparr>lc_transfers := q\<rparr>)"
  using refs_set [OF assms] refs_bound [OF assms] by (intro keeps_frame [OF assms]) (simp_all add: job_keys_def bound_def)

lemma add_worker_keeps:
  assumes "libs_ok L" "refs L l" "add_worker L wid info l = Some l'"
  shows "keeps L l l'"
proof -
  let ?w = "length (lc_workers l)"
  obtain e where e: "parse_endpoint (pk_buf info) = Some e"
    using assms(3) unfolding add_worker_def Let_def by (auto split: bind_splits)
  define l1 where "l1 = l\<lparr>lc_workers := lc_workers l @ [\<lparr>wk_id = wid, wk_valid = True, wk_jobs = chm_empty (li_jobs L)\<rparr>],
    lc_worker_set := chm_emplace (li_set L) (lc_worker_set l) ?w e\<rparr>"
  have 1: "keeps L l l1" "?w < length (lc_workers l1)"
    using keeps_new_worker [OF assms(1,2)] by (simp_all add: l1_def)
  have body: "l' = (case cq_try_pop (li_queue L) (lc_transfers l1) of
         None \<Rightarrow> post [Notify (N_registered ?w False)] l1
       | Some (tr, q) \<Rightarrow>
           post [Notify (N_registered ?w True)] (worker_write ?w ((tr_cache_tables tr)\<lparr>pk_header := set_type Cache_transfer (pk_header (tr_cache_tables tr))\<rparr>)
             (foldl (add_binding L ?w) (l1\<lparr>lc_transfers := q\<rparr>) (tr_file_bindings tr))))"
    using assms(3) e unfolding add_worker_def Let_def l1_def by simp
  show ?thesis
  proof (cases "cq_try_pop (li_queue L) (lc_transfers l1)")
    case None
    then have "l' = post [Notify (N_registered ?w False)] l1"
      using body by simp
    then show ?thesis using keeps_trans [OF 1(1) keeps_post [OF refs_keeps [OF 1(1)]]] by simp
  next
    case (Some t)
    obtain tr q where t: "t = (tr, q)" by (cases t)
    define l2 where "l2 = l1\<lparr>lc_transfers := q\<rparr>"
    define l3 where "l3 = foldl (add_binding L ?w) l2 (tr_file_bindings tr)"
    obtain pack where l': "l' = post [Notify (N_registered ?w True)] (emit [Send ?w pack] l3)"
      using body Some t by (simp add: worker_write_def l3_def l2_def)
    have 2: "keeps L l1 l2" "?w < length (lc_workers l2)"
      using keeps_transfers [OF refs_keeps [OF 1(1)]] 1(2) by (simp_all add: l2_def)
    have 3: "keeps L l2 l3" unfolding l3_def by (rule add_bindings_keeps [OF assms(1) refs_keeps [OF 2(1)] 2(2)])
    have 4: "keeps L l3 (emit [Send ?w pack] l3)" by (rule keeps_emit [OF refs_keeps [OF 3]])
    have 5: "keeps L (emit [Send ?w pack] l3) l'" unfolding l' by (rule keeps_post [OF refs_keeps [OF 4]]) simp
    show ?thesis using keeps_trans [OF keeps_trans [OF keeps_trans [OF 1(1) 2(1)] 3] keeps_trans [OF 4 5]] .
  qed
qed

lemma create_worker_keeps: "refs L l \<Longrightarrow> keeps L l (create_worker L l)"
proof -
  assume r: "refs L l"
  have 1: "keeps L l (post [Notify N_starting] l)" by (rule keeps_post [OF r]) simp
  have "keeps L (post [Notify N_starting] l) (create_worker L l)"
    unfolding create_worker_def Let_def using refs_keeps [OF 1] refs_bound [OF refs_keeps [OF 1]]
    by (intro keeps_ftw) (simp_all add: bound_def)
  with 1 show ?thesis by (rule keeps_trans)
qed

lemma create_workers_keeps: "refs L l \<Longrightarrow> keeps L l ((create_worker L ^^ n) l)"
proof (induction n)
  case (Suc n)
  then show ?case using create_worker_keeps [OF refs_keeps] keeps_trans by simp blast
qed (simp add: keeps_refl)

lemma set_worker_keepalive_keeps:
  "refs L l \<Longrightarrow> set_worker_keepalive L ws l = Some l' \<Longrightarrow> keeps L l l'"
proof (induction ws arbitrary: l)
  case (Cons w ws)
  show ?case
  proof (cases "is_valid l w")
    case True
    then obtain os where "set_worker_keepalive L ws (emit os l) = Some l'"
      using Cons.prems(2) by (auto simp: worker_write_def Let_def emit_def split: bind_splits option.splits)
        (metis append_Nil2 launcher.surjective launcher.update_convs(9))
    then show ?thesis using Cons.IH [OF refs_keeps [OF keeps_emit]] Cons.prems(1) keeps_emit keeps_trans by blast
  next
    case False
    then show ?thesis using Cons by simp
  qed
qed (simp add: keeps_refl)

lemma run_notice_keeps:
  assumes "libs_ok L" "refs L l" "run_notice L now n l = Some l'"
  shows "keeps L l l'"
proof -
  have upd: "keeps L m (m\<lparr>lc_keepalive := k, lc_launch := la, lc_ftw := f\<rparr>)"
    if "refs L m" "ran (chm_find (fl_files (li_ftw L)) (fw_fileid f)) \<subseteq> ran (chm_find (fl_files (li_ftw L)) (fw_fileid (lc_ftw m)))"
    for m la k f
  proof -
    note 1 = keeps_policies [OF that(1), where la = la and k = k]
    have "keeps L (m\<lparr>lc_keepalive := k, lc_launch := la\<rparr>) (m\<lparr>lc_keepalive := k, lc_launch := la, lc_ftw := f\<rparr>)"
      using refs_keeps [OF 1] refs_bound [OF that(1)] that(2) by (intro keeps_ftw) (auto simp: bound_def)
    with 1 show ?thesis by (rule keeps_trans)
  qed
  have fin: "ran (chm_find (fl_files (li_ftw L)) (fw_fileid (ftw_finished_a_job (li_ftw L) wid h p))) \<subseteq>
      ran (chm_find (fl_files (li_ftw L)) (fw_fileid p))" for wid h p
    by (rule ran_finished [OF libs_okD(4) [OF assms(1)]])
  show ?thesis
  proof (cases n)
    case N_execute
    then obtain m la where m: "set_worker_keepalive L (map fst (chm_range (li_set L) (lc_worker_set l))) l = Some m"
      and l': "l' = m\<lparr>lc_launch := la, lc_ftw := ftw_execute (li_ftw L) (lc_ftw m)\<rparr>"
      using assms(3) by (auto split: bind_splits)
    note 1 = set_worker_keepalive_keeps [OF assms(2) m]
    have "keeps L m l'" unfolding l' using upd [OF refs_keeps [OF 1], where f = "ftw_execute (li_ftw L) (lc_ftw m)" and la = la and k = "lc_keepalive m"] by simp
    with 1 show ?thesis by (rule keeps_trans)
  next
    case (N_finished w j)
    then show ?thesis using assms(3) upd [OF assms(2) fin, where k = "lc_keepalive l"] by auto
  next
    case (N_started w j)
    then show ?thesis using assms(3) upd [OF assms(2), where f = "ftw_started_a_new_job (li_ftw L) (wk_id (lc_workers l ! w)) (job_header l j) (lc_ftw l)"]
      by (auto simp: Let_def split: bind_splits)
  qed (use assms(3) upd [OF assms(2), where f = "lc_ftw l" and k = "lc_keepalive l"] keeps_refl [OF assms(2)] in auto)
qed

section \<open>Steps and runs\<close>

lemma process_job_keeps:
  assumes "libs_ok L" "refs L l" "j < length (lc_jobs l)" "process_job L j l = Some l'"
  shows "keeps L l l'" and "distinct (job_keys l) \<Longrightarrow> placed L l' j"
proof -
  obtain r l1 where f: "find_worker L (job_header l j) l = Some (r, l1)"
    using assms(4) by (auto simp: process_job_def split: bind_splits)
  note fw = find_worker_keeps [OF assms(1,2) f]
  have j1: "j < length (lc_jobs l1)" using assms(3) fw(4) by simp
  have "keeps L l l' \<and> (distinct (job_keys l) \<longrightarrow> placed L l' j)"
  proof (cases r)
    case None
    then have l': "l' = reschedule j l1" using assms(4) f by (simp add: process_job_def)
    moreover have "placed L (reschedule j l1) j" by (simp add: reschedule_def placed_post)
    ultimately show ?thesis using keeps_trans [OF fw(1) keeps_reschedule [OF refs_keeps [OF fw(1)] j1]] by simp
  next
    case (Some w)
    with fw(2) have w: "w < length (lc_workers l)" "is_valid l w" by blast+
    define l2 where "l2 = post [Notify (N_started w j)] l1"
    define l3 where "l3 = worker_start_job L w j l2"
    have l': "l' = l3\<lparr>lc_jobs := (lc_jobs l3)[j := (lc_jobs l3 ! j)\<lparr>jb_timer := True\<rparr>]\<rparr>"
      using assms(4) f Some by (simp add: process_job_def Let_def l3_def l2_def)
    have 2: "keeps L l1 l2" unfolding l2_def by (rule keeps_post [OF refs_keeps [OF fw(1)]]) simp
    have w2: "w < length (lc_workers l2)" "is_valid l2 w" "j < length (lc_jobs l2)" "job_keys l2 = job_keys l"
      using w j1 fw(3,4) by (simp_all add: l2_def is_valid_def job_keys_def)
    note 3 = worker_start_job_keeps [OF assms(1) refs_keeps [OF 2] w2(1,3), folded l3_def]
    have 4: "keeps L l3 l'" unfolding l' by (rule keeps_jobs [OF refs_keeps [OF 3(1)]]) simp
    have "placed L l' j" if "distinct (job_keys l)"
      using keeps_placed [OF 4] 3(2) that w2 keeps_length [OF 3(1)] by simp
    then show ?thesis using keeps_trans [OF keeps_trans [OF fw(1) 2] keeps_trans [OF 3(1) 4]] by simp
  qed
  then show "keeps L l l'" "distinct (job_keys l) \<Longrightarrow> placed L l' j" by auto
qed

lemma process_direct_keeps:
  assumes "libs_ok L" "refs L l" "process_job_with_worker L pack nx l = Some l'"
  shows "keeps L l l'"
proof -
  obtain r l1 where f: "find_worker L (pk_header pack) l = Some (r, l1)"
    using assms(3) by (auto simp: process_job_with_worker_def split: bind_splits)
  note k = find_worker_keeps(1) [OF assms(1,2) f]
  have "l' = post [Process_direct pack nx] l1 \<or> (\<exists>os. l' = emit os l1)"
    using assms(3) f by (cases r) (auto simp: process_job_with_worker_def)
  then have "keeps L l1 l'" using keeps_post [OF refs_keeps [OF k]] keeps_emit [OF refs_keeps [OF k]] by auto
  with k show ?thesis by (rule keeps_trans)
qed

lemma worker_packets_keeps:
  assumes "libs_ok L" "refs L l" "w < length (lc_workers l)" "worker_packets L w ps l = Some l'"
  shows "keeps L l l'"
  using assms(2-)
proof (induction ps arbitrary: l)
  case (Cons p ps)
  obtain h body where p: "p = (h, body)" by (cases p)
  have IH: "refs L m \<Longrightarrow> lc_workers m = lc_workers l \<Longrightarrow> worker_packets L w ps m = Some l' \<Longrightarrow> keeps L m l'" for m
    using Cons.IH Cons.prems(2) by simp
  have t: "keeps L l (post [t] l)" if "task_ok (length (lc_jobs l)) (length (lc_workers l)) t" for t
    using keeps_post [OF Cons.prems(1), of "[t]"] that by simp
  show ?case
  proof (cases "msg_of (ph_type h)")
    case None
    then show ?thesis using Cons.prems by (simp add: p Let_def keeps_refl)
  next
    case (Some m)
    note eq = Cons.prems(3) [unfolded p worker_packets.simps Let_def Some option.case]
    have other: "worker_packets L w ps l = Some l' \<Longrightarrow> keeps L l l'" using IH [OF Cons.prems(1)] by simp
    have posted: "worker_packets L w ps (post [t'] l) = Some l' \<Longrightarrow> keeps L l l'"
      if "task_ok (length (lc_jobs l)) (length (lc_workers l)) t'" for t'
      using keeps_trans [OF t [OF that]] IH [OF refs_keeps [OF t [OF that]]] by simp
    show ?thesis
    proof (cases m)
      case Worker_dereg
      then show ?thesis using eq worker_close_keeps [OF assms(1) Cons.prems(1,2)] by simp
    next
      case Worker_response
      then show ?thesis using eq posted [of "Response_task w \<lparr>pk_header = h, pk_buf = body\<rparr>"] Cons.prems(2) by simp
    next
      case Ack
      then show ?thesis using eq posted [of "Ack_task w \<lparr>pk_header = h, pk_buf = body\<rparr>"] Cons.prems(2) by simp
    qed (use eq other in simp_all)
  qed
qed (simp add: keeps_refl)

lemma new_job_keeps:
  assumes "refs L l"
  shows "keeps L l (schedule (length (lc_jobs l)) (l\<lparr>lc_jobs := lc_jobs l @ [jb]\<rparr>))" (is "keeps L l ?l")
proof -
  have keys: "job_keys ?l = job_keys l @ [full_key (pk_header (jb_pack jb))]" by (simp add: job_keys_def schedule_def)
  have same: "jobs_of L ?l = jobs_of L l" "is_valid ?l = is_valid l" "bound L ?l = bound L l" "lc_workers ?l = lc_workers l"
    "lc_worker_set ?l = lc_worker_set l" "lc_outs ?l = lc_outs l"
    by (simp_all add: fun_eq_iff jobs_of_def is_valid_def bound_def schedule_def)
  have task: "task_ok nj nw t \<Longrightarrow> task_ok (Suc nj) nw t" for nj nw t by (cases t) simp_all
  have "\<forall>t \<in> set (lc_tasks ?l). task_ok (length (lc_jobs ?l)) (length (lc_workers ?l)) t"
    using assms task by (auto simp: refs_def schedule_def)
  moreover have "\<forall>w < length (lc_workers l). \<forall>k j. jobs_of L l w k = Some j \<longrightarrow> j < length (lc_jobs ?l) \<and> k = job_keys ?l ! j"
  proof (intro allI impI)
    fix w k j
    assume "w < length (lc_workers l)" "jobs_of L l w k = Some j"
    then show "j < length (lc_jobs ?l) \<and> k = job_keys ?l ! j"
      using refs_jobs [OF assms, of w k j] by (simp add: keys nth_append) (simp add: schedule_def)
  qed
  ultimately have "refs L ?l" using assms unfolding refs_def same by simp
  moreover have "placed L ?l j" if "placed L l j" "j < length (lc_jobs l)" for j
    using that by (auto simp: placed_def with_worker_def same keys nth_append) (simp add: schedule_def)
  moreover have "placed L ?l (length (lc_jobs l))" by (simp add: schedule_def placed_post)
  moreover have "length (lc_jobs ?l) = Suc (length (lc_jobs l))" by (simp add: schedule_def)
  ultimately show "keeps L l ?l" by (auto simp: keeps_def keys same less_Suc_eq)
qed

lemma drop_task_refs:
  assumes "refs L l" "i < length (lc_tasks l)"
  shows "refs L (drop_task i l)" "task_ok (length (lc_jobs l)) (length (lc_workers l)) (lc_tasks l ! i)"
    "placed L l j \<Longrightarrow> placed L (drop_task i l) j \<or> lc_tasks l ! i = Process j"
proof -
  let ?ts = "take i (lc_tasks l) @ drop (Suc i) (lc_tasks l)"
  have split: "lc_tasks l = take i (lc_tasks l) @ lc_tasks l ! i # drop (Suc i) (lc_tasks l)"
    by (rule id_take_nth_drop [OF assms(2)])
  then have set: "set (lc_tasks l) = insert (lc_tasks l ! i) (set ?ts)"
    by (metis append.simps Un_insert_right list.simps(15) set_append)
  have same: "jobs_of L (drop_task i l) = jobs_of L l" "is_valid (drop_task i l) = is_valid l" "bound L (drop_task i l) = bound L l"
    "job_keys (drop_task i l) = job_keys l" "lc_tasks (drop_task i l) = ?ts" "lc_workers (drop_task i l) = lc_workers l"
    "lc_jobs (drop_task i l) = lc_jobs l" "lc_worker_set (drop_task i l) = lc_worker_set l" "lc_outs (drop_task i l) = lc_outs l"
    by (simp_all add: fun_eq_iff jobs_of_def is_valid_def bound_def job_keys_def drop_task_def)
  show "refs L (drop_task i l)" "task_ok (length (lc_jobs l)) (length (lc_workers l)) (lc_tasks l ! i)"
    using assms(1) unfolding refs_def same set by simp_all
  show "placed L l j \<Longrightarrow> placed L (drop_task i l) j \<or> lc_tasks l ! i = Process j"
    unfolding placed_def with_worker_def same set by auto
qed

lemma run_task_keeps:
  assumes "libs_ok L" "refs L l" "task_ok (length (lc_jobs l)) (length (lc_workers l)) t" "run_task L now t l = Some l'"
  shows "keeps L l l'" and "t = Process j \<Longrightarrow> distinct (job_keys l) \<Longrightarrow> placed L l' j"
  using assms(3,4) process_job_keeps [OF assms(1,2)] process_direct_keeps [OF assms(1,2)] run_notice_keeps [OF assms(1,2)]
    on_worker_ack_keeps [OF assms(1,2)] on_worker_response_keeps [OF assms(1,2)] create_workers_keeps [OF assms(2)]
  by (cases t; auto simp: start_create_workers_def)+

lemma step_keeps:
  assumes "libs_ok L" "refs L l" "launcher_step L e l = Some l'"
  shows "refs L l' \<and> (\<exists>ks. job_keys l' = job_keys l @ ks)" and "distinct (job_keys l) \<Longrightarrow> keeps L l l'"
proof -
  have "(refs L l' \<and> (\<exists>ks. job_keys l' = job_keys l @ ks)) \<and> (distinct (job_keys l) \<longrightarrow> keeps L l l')"
  proof (cases "\<exists>i now. e = Run i now \<and> i < length (lc_tasks l)")
    case True
    then obtain i now where e: "e = Run i now" "i < length (lc_tasks l)" by blast
    note d = drop_task_refs [OF assms(2) e(2)]
    have same: "job_keys (drop_task i l) = job_keys l" "lc_jobs (drop_task i l) = lc_jobs l" "lc_workers (drop_task i l) = lc_workers l"
      by (simp_all add: drop_task_def job_keys_def)
    have r: "run_task L now (lc_tasks l ! i) (drop_task i l) = Some l'" using assms(3) e by simp
    note k = run_task_keeps [OF assms(1) d(1) _ r, unfolded same, OF d(2)]
    have "placed L l' j"
      if "j < length (lc_jobs l')" "j < length (lc_jobs l) \<longrightarrow> placed L l j" "distinct (job_keys l)" for j
      using k that d(3) [of j] same by (auto simp: keeps_def)
    then show ?thesis using k(1) same by (simp add: keeps_def)
  next
    case False
    then have "keeps L l l'"
    proof (cases e)
      case (New_request direct body original nx)
      then show ?thesis using assms(3) process_direct_keeps [OF assms(1,2)] new_job_keeps [OF assms(2)]
        by (auto simp: start_trigger_post_def Let_def split: if_splits)
    next
      case (Worker_bytes w stream)
      then show ?thesis using assms worker_packets_keeps keeps_refl by (auto simp: worker_read_def split: if_splits)
    next
      case (Job_timer ec j)
      then show ?thesis using assms keeps_reschedule keeps_refl by (auto simp: job_timer_def split: if_splits)
    next
      case Policy_timer
      then show ?thesis using assms(3) keeps_post [OF assms(2), of "[Notify N_execute, Create_workers]"]
        by (simp add: start_execute_policy_def)
    qed (use assms add_worker_keeps worker_close_keeps keeps_refl in \<open>auto split: if_splits\<close>)
    then show ?thesis by (simp add: keeps_def)
  qed
  then show "refs L l' \<and> (\<exists>ks. job_keys l' = job_keys l @ ks)" "distinct (job_keys l) \<Longrightarrow> keeps L l l'" by blast+
qed

lemma run_keeps:
  assumes "libs_ok L" "refs L l" "launcher_run L es l = Some l'"
  shows "refs L l' \<and> (\<exists>ks. job_keys l' = job_keys l @ ks)" and "distinct (job_keys l') \<Longrightarrow> keeps L l l'"
proof -
  have "(refs L l' \<and> (\<exists>ks. job_keys l' = job_keys l @ ks)) \<and> (distinct (job_keys l') \<longrightarrow> keeps L l l')"
    using assms(2,3)
  proof (induction es arbitrary: l)
    case (Cons e es)
    then obtain m where m: "launcher_step L e l = Some m" "launcher_run L es m = Some l'" by (auto split: bind_splits)
    note s = step_keeps [OF assms(1) Cons.prems(1) m(1)]
    with Cons.IH [OF _ m(2)] obtain ks ks' where "refs L l'" "job_keys m = job_keys l @ ks" "job_keys l' = job_keys m @ ks'"
      "distinct (job_keys l') \<longrightarrow> keeps L m l'" by blast
    then show ?case using s(2) keeps_trans by (auto simp: distinct_append)
  qed (simp add: keeps_refl)
  then show "refs L l' \<and> (\<exists>ks. job_keys l' = job_keys l @ ks)" "distinct (job_keys l') \<Longrightarrow> keeps L l l'" by blast+
qed

lemma new_refs: "libs_ok L \<Longrightarrow> refs L (launcher_new L launch keep kind)"
  by (simp add: refs_def launcher_new_def bound_def ftw_new_def chmap_find_empty [OF libs_okD(2)] ran_def chmap_find_empty [OF libs_okD(4)] domIff)

text \<open>
  C5. No job is lost. In every run of the launcher, with any interleaving of requests, tasks, registrations,
  answers, crashes and timers, and any policies, as long as the accepted jobs have distinct full keys: every accepted job has been
  completed to its client, or is waiting in an open task, or is entered in the table of a valid worker, from which a response
  completes it and a close of the worker reschedules it.
\<close>

theorem no_job_lost:
  assumes "libs_ok L" "launcher_run L es (launcher_new L launch keep kind) = Some l" "distinct (job_keys l)"
    and "j < length (lc_jobs l)"
  shows "(\<exists>p. Completed j p \<in> set (lc_outs l)) \<or> Process j \<in> set (lc_tasks l) \<or>
    (\<exists>w < length (lc_workers l). is_valid l w \<and> chm_find (li_jobs L) (wk_jobs (lc_workers l ! w)) (full_key (job_header l j)) = Some j)"
proof -
  have "keeps L (launcher_new L launch keep kind) l"
    by (rule run_keeps(2) [OF assms(1) new_refs [OF assms(1)] assms(2,3)])
  then have "placed L l j" using assms(4) by (simp add: keeps_def launcher_new_def)
  then show ?thesis using assms(4) by (simp add: placed_def with_worker_def job_keys_nth jobs_of_def)
qed

definition sample_libs ::
  "(((bytes \<times> bytes \<times> bytes) \<times> nat) list, (nat \<times> worker_endpoint) list, transfer_request list,
    (bytes \<times> packet_header \<times> nat) list, (bytes \<times> int) list, (u64 \<times> (bytes \<times> int) list counter) list) libs" where
  "sample_libs = \<lparr>li_jobs = al_chmap, li_set = al_chmap, li_queue = list_cqueue,
     li_ftw = \<lparr>fl_files = al_chmap, fl_counts = al_chmap, fl_workers = al_chmap\<rparr>,
     li_margin = (\<lambda>v. v), li_margin_global = (\<lambda>v. v), li_within = (\<lambda>s. True), li_timer_header = sample_header\<rparr>"

lemma sample_libs_ok: "libs_ok sample_libs"
  by (simp add: libs_ok_def ftw_libs_ok_def sample_libs_def al_chmap_ok list_cqueue_ok)

definition sample_info :: packet where
  "sample_info = \<lparr>pk_header = sample_header, pk_buf = [10, 0, 0, 1, 31, 144]\<rparr>"

definition sample_trigger :: packet where
  "sample_trigger = \<lparr>pk_header = sample_header, pk_buf = []\<rparr>"

definition sample_events :: "levent list" where
  "sample_events = [Register 7 sample_info, New_request False [1, 2] sample_trigger 0, Run 2 0]"

lemmas launcher_eval = sample_libs_def sample_info_def sample_trigger_def launcher_new_def add_worker_def parse_endpoint_def
  start_trigger_post_def schedule_def reschedule_def process_job_def find_worker_def worker_start_job_def
  get_assigned_worker_def base_assigned_worker_def emplace_binding_def usable_def is_valid_def lowest_available_def pending_jobs_def
  drop_task_def post_def emit_def job_new_def job_header_def al_chmap_def list_cqueue_def ftw_new_def chm_size_def Let_def

theorem no_job_lost_witness:
  "\<exists>l. launcher_run sample_libs sample_events (launcher_new sample_libs (new_fix_pool 1 1) K_base Lowest_load) = Some l \<and>
     (\<exists>w < length (lc_workers l). is_valid l w \<and>
       chm_find (li_jobs sample_libs) (wk_jobs (lc_workers l ! w)) (full_key (job_header l 0)) = Some 0)"
proof -
  define l where "l = the (launcher_run sample_libs sample_events (launcher_new sample_libs (new_fix_pool 1 1) K_base Lowest_load))"
  have l: "launcher_run sample_libs sample_events (launcher_new sample_libs (new_fix_pool 1 1) K_base Lowest_load) = Some l"
    "length (lc_jobs l) = 1" "lc_tasks l = [Notify (N_registered 0 False), Notify (N_schedule 0), Notify (N_started 0 0)]"
    "length (lc_outs l) = 1" "\<forall>p. Completed 0 p \<notin> set (lc_outs l)"
    unfolding l_def sample_events_def by (simp_all add: launcher_eval)
  have "distinct (job_keys l)" using l(2) by (simp add: job_keys_def distinct_conv_nth)
  from no_job_lost [OF sample_libs_ok l(1) this, of 0] l show ?thesis by auto
qed

section \<open>Where the jobs of a file go\<close>



section \<open>Workers that crash\<close>



section \<open>A response after a close\<close>

text \<open>
  The table of a closed worker is not cleared, so a response that was already posted when the worker closed still
  completes its job, which has been rescheduled by then and will be executed again.
\<close>

lemma reschedule_all_frame:
  "lc_workers (foldl (\<lambda>l (_, j). on_worker_reschedule L j l) l js) = lc_workers l"
  "set (lc_tasks (foldl (\<lambda>l (_, j). on_worker_reschedule L j l) l js)) =
     set (lc_tasks l) \<union> (\<Union>(k, j) \<in> set js. {Notify (N_reschedule j), Process j})"
  by (induction js arbitrary: l) (auto simp: on_worker_reschedule_def reschedule_def)

lemma late_response_reruns_job:
  assumes "libs_ok L" "w < length (lc_workers l)" "jobs_of L l w (full_key (pk_header pack)) = Some j"
    and "worker_close L w None l = Some l1" "l2 = on_worker_response L w pack l1"
  shows "Completed j pack \<in> set (lc_outs l2)" "Process j \<in> set (lc_tasks l2)"
proof -
  let ?l = "emit [Shutdown w] (l\<lparr>lc_workers := (lc_workers l)[w := (lc_workers l ! w)\<lparr>wk_valid := False\<rparr>]\<rparr>)"
  let ?js = "chm_range (li_jobs L) (wk_jobs (lc_workers l ! w))"
  have l1: "l1 = foldl (\<lambda>l (_, j). on_worker_reschedule L j l) ?l ?js"
    using assms(2,4) by (simp add: worker_close_def Let_def)
  have "(full_key (pk_header pack), j) \<in> set ?js"
    using assms(3) by (simp add: jobs_of_def chmap_range_iff [OF libs_okD(1) [OF assms(1)]])
  then have "Process j \<in> set (lc_tasks l1)" unfolding l1 reschedule_all_frame(2) by blast
  moreover have "jobs_of L l1 w (full_key (pk_header pack)) = Some j"
    using assms(2,3) unfolding jobs_of_def l1 reschedule_all_frame(1) by simp
  ultimately show "Completed j pack \<in> set (lc_outs l2)" "Process j \<in> set (lc_tasks l2)"
    unfolding assms(5) by (simp_all add: on_worker_response_def jobs_of_def Let_def)
qed

end
