(* ===== verification/Proxy_Server.thy ===== *)
theory Proxy_Server
  imports Launcher
begin

text \<open>
  The connections of the proxy and its buckets of messages: \<^verbatim>\<open>proxy/server.hpp\<close>. A connection cuts its byte stream into
  packets and dispatches them; \<^verbatim>\<open>put\<close> and \<^verbatim>\<open>get\<close> work on the bucket of their full key, triggers and registrations go to the
  launcher. Packets that are written are shared objects: the queue of a connection holds pointers,
  and a packet is read when its write starts. The model has them in a heap, because the handler of a bucket
  reuses one packet for all messages. Handlers run one after the other; the completion of a write is an event of its own.
\<close>

section \<open>State\<close>

record 'm bucket =
  bk_messages :: 'm
  bk_listeners :: "nat list"

record 'o conn =
  cn_queue :: 'o
  cn_is_writing :: bool
  cn_wire :: "packet list"

record ('t, 'o) server =
  sv_topics :: 't
  sv_conns :: "'o conn list"
  sv_heap :: "packet list"
  sv_events :: "packet list"
  sv_triggers :: "bytes list"

record ('t, 'm, 'o) server_libs =
  sl_topics :: "(bytes \<times> bytes \<times> bytes, 'm bucket, 't) chmap"
  sl_messages :: "(bytes, 'm) cqueue"
  sl_writes :: "(nat, 'o) cqueue"

definition server_libs_ok :: "('t, 'm, 'o) server_libs \<Rightarrow> bool" where
  "server_libs_ok L \<longleftrightarrow> chmap_ok (sl_topics L) \<and> cqueue_ok (sl_messages L) \<and> cqueue_ok (sl_writes L)"

definition new_conn :: "('t, 'm, 'o) server_libs \<Rightarrow> 'o conn" where
  "new_conn L = \<lparr>cn_queue = cq_empty (sl_writes L), cn_is_writing = False, cn_wire = []\<rparr>"

definition server_new :: "('t, 'm, 'o) server_libs \<Rightarrow> ('t, 'o) server" where
  "server_new L = \<lparr>sv_topics = chm_empty (sl_topics L), sv_conns = [], sv_heap = [], sv_events = [], sv_triggers = []\<rparr>"

definition start_accept :: "('t, 'm, 'o) server_libs \<Rightarrow> ('t, 'o) server \<Rightarrow> ('t, 'o) server" where
  "start_accept L s = s\<lparr>sv_conns := sv_conns s @ [new_conn L]\<rparr>"

section \<open>Writing\<close>

definition write_next :: "('t, 'm, 'o) server_libs \<Rightarrow> packet list \<Rightarrow> 'o conn \<Rightarrow> 'o conn" where
  "write_next L heap c =
     (case cq_try_pop (sl_writes L) (cn_queue c) of
        None \<Rightarrow> c\<lparr>cn_is_writing := False\<rparr>
      | Some (a, q) \<Rightarrow> c\<lparr>cn_queue := q, cn_wire := cn_wire c @ [heap ! a]\<rparr>)"

definition conn_write :: "('t, 'm, 'o) server_libs \<Rightarrow> nat \<Rightarrow> nat \<Rightarrow> ('t, 'o) server \<Rightarrow> ('t, 'o) server" where
  "conn_write L c a s =
     (let cn = sv_conns s ! c;
          cn = cn\<lparr>cn_queue := cq_push (sl_writes L) (cn_queue cn) a\<rparr>;
          cn = (if \<not> cn_is_writing cn then write_next L (sv_heap s) (cn\<lparr>cn_is_writing := True\<rparr>) else cn)
      in s\<lparr>sv_conns := (sv_conns s)[c := cn]\<rparr>)"

definition write_done :: "('t, 'm, 'o) server_libs \<Rightarrow> nat \<Rightarrow> ('t, 'o) server \<Rightarrow> ('t, 'o) server" where
  "write_done L c s = s\<lparr>sv_conns := (sv_conns s)[c := write_next L (sv_heap s) (sv_conns s ! c)]\<rparr>"

text \<open>\<^verbatim>\<open>std::make_shared<packet>\<close>, then the write.\<close>

definition send_packet :: "('t, 'm, 'o) server_libs \<Rightarrow> nat \<Rightarrow> packet \<Rightarrow> ('t, 'o) server \<Rightarrow> ('t, 'o) server" where
  "send_packet L c p s = conn_write L c (length (sv_heap s)) (s\<lparr>sv_heap := sv_heap s @ [p]\<rparr>)"

section \<open>Buckets\<close>

definition get_bucket :: "('t, 'm, 'o) server_libs \<Rightarrow> packet_header \<Rightarrow> ('t, 'o) server \<Rightarrow> 'm bucket \<times> ('t, 'o) server" where
  "get_bucket L h s =
     (case chm_find (sl_topics L) (sv_topics s) (full_key h) of
        Some b \<Rightarrow> (b, s)
      | None \<Rightarrow> let b = \<lparr>bk_messages = cq_empty (sl_messages L), bk_listeners = []\<rparr>
               in (b, s\<lparr>sv_topics := chm_emplace (sl_topics L) (sv_topics s) (full_key h) b\<rparr>))"

definition put_bucket :: "('t, 'm, 'o) server_libs \<Rightarrow> packet_header \<Rightarrow> 'm bucket \<Rightarrow> ('t, 'o) server \<Rightarrow> ('t, 'o) server" where
  "put_bucket L h b s = s\<lparr>sv_topics := chm_write (sl_topics L) (sv_topics s) (full_key h) b\<rparr>"

text \<open>
  The loops of \<^verbatim>\<open>start_handle_events\<close>: every message is moved into the same packet at address \<open>a\<close>. A trigger posts the
  data of the packet that started the handler.
\<close>

definition set_buf :: "nat \<Rightarrow> bytes \<Rightarrow> ('t, 'o) server \<Rightarrow> ('t, 'o) server" where
  "set_buf a m s = s\<lparr>sv_heap := (sv_heap s)[a := (sv_heap s ! a)\<lparr>pk_buf := m\<rparr>]\<rparr>"

partial_function (option) trigger_loop ::
  "('t, 'm, 'o) server_libs \<Rightarrow> bytes \<Rightarrow> nat \<Rightarrow> 'm \<Rightarrow> ('t, 'o) server \<Rightarrow> ('m \<times> ('t, 'o) server) option" where
  "trigger_loop L body a q s = (case cq_try_pop (sl_messages L) q of
     None \<Rightarrow> Some (q, s)
   | Some (m, q) \<Rightarrow> trigger_loop L body a q ((set_buf a m s)\<lparr>sv_triggers := sv_triggers s @ [body]\<rparr>))"

partial_function (option) listener_loop ::
  "('t, 'm, 'o) server_libs \<Rightarrow> nat list \<Rightarrow> nat \<Rightarrow> 'm \<Rightarrow> ('t, 'o) server \<Rightarrow> ('m \<times> ('t, 'o) server) option" where
  "listener_loop L listeners a q s = (case cq_try_pop (sl_messages L) q of
     None \<Rightarrow> Some (q, s)
   | Some (m, q) \<Rightarrow> listener_loop L listeners a q (foldl (\<lambda>s c. conn_write L c a s) (set_buf a m s) listeners))"

declare trigger_loop.simps [code] listener_loop.simps [code]

definition handle_events :: "('t, 'm, 'o) server_libs \<Rightarrow> packet \<Rightarrow> ('t, 'o) server \<Rightarrow> ('t, 'o) server option" where
  "handle_events L key s = do {
     let (b, s) = get_bucket L (pk_header key) s;
     let a = length (sv_heap s);
     let s = s\<lparr>sv_heap := sv_heap s @ [\<lparr>pk_header = set_type Ack (pk_header key), pk_buf = []\<rparr>]\<rparr>;
     if is_trigger (pk_header key) then do {
       (q, s) \<leftarrow> trigger_loop L (pk_buf key) a (bk_messages b) s;
       Some (put_bucket L (pk_header key) (b\<lparr>bk_messages := q\<rparr>) s)
     }
     else if bk_listeners b = [] \<or> cq_try_pop (sl_messages L) (bk_messages b) = None then Some s
     else do {
       (q, s) \<leftarrow> listener_loop L (bk_listeners b) a (bk_messages b) s;
       Some (put_bucket L (pk_header key) \<lparr>bk_messages = q, bk_listeners = []\<rparr> s)
     }
   }"

definition start_store :: "('t, 'm, 'o) server_libs \<Rightarrow> nat \<Rightarrow> packet \<Rightarrow> ('t, 'o) server \<Rightarrow> ('t, 'o) server" where
  "start_store L c pack s =
     (let (b, s) = get_bucket L (pk_header pack) s;
          s = put_bucket L (pk_header pack) (b\<lparr>bk_messages := cq_push (sl_messages L) (bk_messages b) (pk_buf pack)\<rparr>) s;
          s = s\<lparr>sv_events := sv_events s @ [pack]\<rparr>
      in send_packet L c \<lparr>pk_header = set_type Ack (pk_header pack), pk_buf = []\<rparr> s)"

definition start_load :: "('t, 'm, 'o) server_libs \<Rightarrow> nat \<Rightarrow> packet \<Rightarrow> ('t, 'o) server \<Rightarrow> ('t, 'o) server" where
  "start_load L c pack s =
     (let (b, s) = get_bucket L (pk_header pack) s;
          s = put_bucket L (pk_header pack) (b\<lparr>bk_listeners := bk_listeners b @ [c]\<rparr>) s
      in s\<lparr>sv_events := sv_events s @ [pack]\<rparr>)"

section \<open>The connection\<close>

datatype conn_event =
    Store packet
  | Load packet
  | Respond packet
  | Register_worker packet
  | Trigger_job packet bytes

definition conn_body_len :: "packet_header \<Rightarrow> nat" where
  "conn_body_len h = (case msg_of (ph_type h) of
     Some Put \<Rightarrow> unat (ph_datasize h)
   | Some Worker_reg \<Rightarrow> unat (ph_datasize h)
   | Some Trigger \<Rightarrow> unat (ph_datasize h)
   | _ \<Rightarrow> 0)"

text \<open>A registration hands the socket to the launcher, and an unknown type is not answered: both end the reading.\<close>

fun conn_events :: "(packet_header \<times> bytes) list \<Rightarrow> conn_event list" where
  "conn_events [] = []"
| "conn_events ((h, body) # fs) = (case msg_of (ph_type h) of
     Some Put \<Rightarrow> Store \<lparr>pk_header = h, pk_buf = body\<rparr> # conn_events fs
   | Some Get \<Rightarrow> Load \<lparr>pk_header = h, pk_buf = []\<rparr> # conn_events fs
   | Some Ack \<Rightarrow> Respond \<lparr>pk_header = set_type Ack h, pk_buf = []\<rparr> # conn_events fs
   | Some Worker_reg \<Rightarrow> [Register_worker \<lparr>pk_header = h, pk_buf = body\<rparr>]
   | Some Trigger \<Rightarrow> Trigger_job \<lparr>pk_header = h, pk_buf = []\<rparr> body # conn_events fs
   | Some _ \<Rightarrow> Respond \<lparr>pk_header = set_type Err h, pk_buf = []\<rparr> # conn_events fs
   | None \<Rightarrow> [])"

definition connection_reads :: "bytes \<Rightarrow> conn_event list" where
  "connection_reads stream = conn_events (fst (read_frames parse bytesize conn_body_len stream))"

text \<open>
  One event: buckets and answers are the server's, triggers and registrations the launcher's. The callback of a
  trigger writes to this connection, so the connection is the continuation given to the launcher.
\<close>

fun conn_step ::
  "('t, 'm, 'o) server_libs \<Rightarrow> ('j, 's, 'q, 'f, 'c, 'w) libs \<Rightarrow> bool \<Rightarrow> u64 \<Rightarrow> nat \<Rightarrow> conn_event \<Rightarrow>
     ('t, 'o) server \<times> ('j, 's, 'q, 'f, 'c, 'w) launcher \<Rightarrow> (('t, 'o) server \<times> ('j, 's, 'q, 'f, 'c, 'w) launcher) option" where
  "conn_step L K direct wid c (Store pack) (s, l) = Some (start_store L c pack s, l)"
| "conn_step L K direct wid c (Load pack) (s, l) = Some (start_load L c pack s, l)"
| "conn_step L K direct wid c (Respond pack) (s, l) = Some (send_packet L c pack s, l)"
| "conn_step L K direct wid c (Register_worker pack) (s, l) = map_option (\<lambda>l. (s, l)) (add_worker K wid pack l)"
| "conn_step L K direct wid c (Trigger_job pack body) (s, l) = map_option (\<lambda>l. (s, l)) (start_trigger_post K direct body pack c l)"

text \<open>The outputs of the launcher that are callbacks into a connection.\<close>

fun deliver_output :: "('t, 'm, 'o) server_libs \<Rightarrow> launcher_job list \<Rightarrow> effect \<Rightarrow> ('t, 'o) server \<Rightarrow> ('t, 'o) server" where
  "deliver_output L jobs (Completed j pack) s = send_packet L (jb_next (jobs ! j)) pack s"
| "deliver_output L jobs (Reply c pack) s = send_packet L c pack s"
| "deliver_output L jobs _ s = s"

section \<open>One packet for all messages\<close>

lemma busy_write:
  "cn_is_writing (sv_conns s ! c) \<Longrightarrow>
   conn_write L c a s = s\<lparr>sv_conns := (sv_conns s)[c := (sv_conns s ! c)\<lparr>cn_queue := cq_push (sl_writes L) (cn_queue (sv_conns s ! c)) a\<rparr>]\<rparr>"
  by (simp add: conn_write_def Let_def)

lemma set_buf_simps [simp]:
  "sv_conns (set_buf a m s) = sv_conns s" "sv_topics (set_buf a m s) = sv_topics s" "length (sv_heap (set_buf a m s)) = length (sv_heap s)"
  "a < length (sv_heap s) \<Longrightarrow> sv_heap (set_buf a m s) ! a = (sv_heap s ! a)\<lparr>pk_buf := m\<rparr>"
  by (simp_all add: set_buf_def)

text \<open>A connection that is already writing only collects pointers to the one packet.\<close>

lemma listener_loop_busy:
  assumes ok: "cqueue_ok (sl_messages L)" "cqueue_ok (sl_writes L)" and c: "c < length (sv_conns s)" "a < length (sv_heap s)"
    and msgs: "cq_list (sl_messages L) q = ms" and busy: "cn_is_writing (sv_conns s ! c)"
  shows "\<exists>q' s'. listener_loop L [c] a q s = Some (q', s') \<and> cq_list (sl_messages L) q' = [] \<and>
    length (sv_conns s') = length (sv_conns s) \<and> length (sv_heap s') = length (sv_heap s) \<and> cn_is_writing (sv_conns s' ! c) \<and>
    sv_heap s' ! a = (sv_heap s ! a)\<lparr>pk_buf := last (pk_buf (sv_heap s ! a) # ms)\<rparr> \<and> cn_wire (sv_conns s' ! c) = cn_wire (sv_conns s ! c) \<and>
    cq_list (sl_writes L) (cn_queue (sv_conns s' ! c)) = cq_list (sl_writes L) (cn_queue (sv_conns s ! c)) @ replicate (length ms) a"
  using c msgs busy
proof (induction ms arbitrary: q s)
  case Nil
  then have "cq_try_pop (sl_messages L) q = None" by (simp add: cqueue_pop_None [OF ok(1)])
  then show ?case using Nil by (subst listener_loop.simps) auto
next
  case (Cons m ms)
  obtain q1 where q1: "cq_try_pop (sl_messages L) q = Some (m, q1)" "cq_list (sl_messages L) q1 = ms"
  proof (cases "cq_try_pop (sl_messages L) q")
    case None
    then show ?thesis using Cons.prems(3) by (simp add: cqueue_pop_None [OF ok(1)])
  next
    case (Some x)
    then show ?thesis using that Cons.prems(3) cqueue_pop_Some [OF ok(1)] by (cases x) fastforce
  qed
  define s1 where "s1 = conn_write L c a (set_buf a m s)"
  have s1: "length (sv_conns s1) = length (sv_conns s)" "length (sv_heap s1) = length (sv_heap s)" "cn_is_writing (sv_conns s1 ! c)"
    "sv_heap s1 ! a = (sv_heap s ! a)\<lparr>pk_buf := m\<rparr>" "cn_wire (sv_conns s1 ! c) = cn_wire (sv_conns s ! c)"
    "cq_list (sl_writes L) (cn_queue (sv_conns s1 ! c)) = cq_list (sl_writes L) (cn_queue (sv_conns s ! c)) @ [a]"
    using Cons.prems by (simp_all add: s1_def busy_write cqueue_push [OF ok(2)])
  have "listener_loop L [c] a q s = listener_loop L [c] a q1 s1"
    using q1(1) by (subst listener_loop.simps) (simp add: s1_def)
  moreover have "\<exists>q' s'. listener_loop L [c] a q1 s1 = Some (q', s') \<and> cq_list (sl_messages L) q' = [] \<and>
    length (sv_conns s') = length (sv_conns s1) \<and> length (sv_heap s') = length (sv_heap s1) \<and> cn_is_writing (sv_conns s' ! c) \<and>
    sv_heap s' ! a = (sv_heap s1 ! a)\<lparr>pk_buf := last (pk_buf (sv_heap s1 ! a) # ms)\<rparr> \<and> cn_wire (sv_conns s' ! c) = cn_wire (sv_conns s1 ! c) \<and>
    cq_list (sl_writes L) (cn_queue (sv_conns s' ! c)) = cq_list (sl_writes L) (cn_queue (sv_conns s1 ! c)) @ replicate (length ms) a"
    by (rule Cons.IH) (use s1 Cons.prems q1(2) in simp_all)
  ultimately show ?case by (simp add: s1 replicate_app_Cons_same)
qed

text \<open>Completed writes read the packet as it is then.\<close>

lemma drain_writes:
  assumes ok: "cqueue_ok (sl_writes L)" and c: "c < length (sv_conns s)"
    and q: "cq_list (sl_writes L) (cn_queue (sv_conns s ! c)) = replicate n a"
  shows "cn_wire (sv_conns ((write_done L c ^^ n) s) ! c) = cn_wire (sv_conns s ! c) @ replicate n (sv_heap s ! a)"
  using c q
proof (induction n arbitrary: s)
  case (Suc n)
  let ?cn = "sv_conns s ! c"
  obtain q1 where q1: "cq_try_pop (sl_writes L) (cn_queue ?cn) = Some (a, q1)" "cq_list (sl_writes L) q1 = replicate n a"
  proof (cases "cq_try_pop (sl_writes L) (cn_queue ?cn)")
    case None
    then show ?thesis using Suc.prems(2) by (simp add: cqueue_pop_None [OF ok])
  next
    case (Some x)
    then show ?thesis using that Suc.prems(2) cqueue_pop_Some [OF ok] by (cases x) fastforce
  qed
  define s1 where "s1 = write_done L c s"
  have s1: "length (sv_conns s1) = length (sv_conns s)" "sv_heap s1 = sv_heap s"
    "cn_wire (sv_conns s1 ! c) = cn_wire ?cn @ [sv_heap s ! a]" "cn_queue (sv_conns s1 ! c) = q1"
    using Suc.prems(1) q1(1) by (simp_all add: s1_def write_done_def write_next_def)
  have "cn_wire (sv_conns ((write_done L c ^^ n) s1) ! c) = cn_wire (sv_conns s1 ! c) @ replicate n (sv_heap s1 ! a)"
    by (rule Suc.IH) (use s1 Suc.prems(1) q1(2) in simp_all)
  then show ?case by (simp add: s1 funpow_Suc_right del: funpow.simps(2) flip: s1_def)
qed simp

lemma pop_cons:
  assumes "cqueue_ok Q" "cq_list Q q = x # xs"
  obtains q' where "cq_try_pop Q q = Some (x, q')" "cq_list Q q' = xs"
  using assms cqueue_pop_None [OF assms(1), of q] cqueue_pop_Some [OF assms(1), of q]
  by (cases "cq_try_pop Q q") fastforce+

lemma idle_write:
  assumes ok: "cqueue_ok (sl_writes L)" and c: "c < length (sv_conns s)"
    and idle: "\<not> cn_is_writing (sv_conns s ! c)" "cq_list (sl_writes L) (cn_queue (sv_conns s ! c)) = []"
  shows "cn_is_writing (sv_conns (conn_write L c a s) ! c)" "cn_wire (sv_conns (conn_write L c a s) ! c) = cn_wire (sv_conns s ! c) @ [sv_heap s ! a]"
    "cq_list (sl_writes L) (cn_queue (sv_conns (conn_write L c a s) ! c)) = []"
    "length (sv_conns (conn_write L c a s)) = length (sv_conns s)" "sv_heap (conn_write L c a s) = sv_heap s"
proof -
  have "cq_list (sl_writes L) (cq_push (sl_writes L) (cn_queue (sv_conns s ! c)) a) = [a]" using idle(2) by (simp add: cqueue_push [OF ok])
  then obtain q' where "cq_try_pop (sl_writes L) (cq_push (sl_writes L) (cn_queue (sv_conns s ! c)) a) = Some (a, q')" "cq_list (sl_writes L) q' = []"
    by (rule pop_cons [OF ok])
  then show "cn_is_writing (sv_conns (conn_write L c a s) ! c)" "cn_wire (sv_conns (conn_write L c a s) ! c) = cn_wire (sv_conns s ! c) @ [sv_heap s ! a]"
    "cq_list (sl_writes L) (cn_queue (sv_conns (conn_write L c a s) ! c)) = []"
    "length (sv_conns (conn_write L c a s)) = length (sv_conns s)" "sv_heap (conn_write L c a s) = sv_heap s"
    using idle c by (simp_all add: conn_write_def write_next_def Let_def)
qed

text \<open>
  C31. Queued messages share one packet. When a bucket holds the messages \<open>m # ms\<close> and an idle connection listens, the handler
  returns, and the listener receives as many packets as there were messages; but only the first carries its own message, all others
  carry the last one. Up to two messages this is every message in order; from three on the ones in
  between are lost.
\<close>

theorem queued_messages_share_packet:
  assumes ok: "server_libs_ok L" and c: "c < length (sv_conns s)" "\<not> cn_is_writing (sv_conns s ! c)"
      "cq_list (sl_writes L) (cn_queue (sv_conns s ! c)) = []"
    and b: "chm_find (sl_topics L) (sv_topics s) (full_key h) = Some \<lparr>bk_messages = q, bk_listeners = [c]\<rparr>"
      "cq_list (sl_messages L) q = m # ms" "\<not> is_trigger h"
  shows "\<exists>s'. handle_events L \<lparr>pk_header = h, pk_buf = d\<rparr> s = Some s' \<and>
    cn_wire (sv_conns ((write_done L c ^^ length ms) s') ! c) = cn_wire (sv_conns s ! c) @
      \<lparr>pk_header = set_type Ack h, pk_buf = m\<rparr> # replicate (length ms) \<lparr>pk_header = set_type Ack h, pk_buf = last (m # ms)\<rparr>"
proof -
  have Q: "cqueue_ok (sl_messages L)" "cqueue_ok (sl_writes L)" using ok by (simp_all add: server_libs_ok_def)
  let ?r = "\<lparr>pk_header = set_type Ack h, pk_buf = []\<rparr>" and ?a = "length (sv_heap s)"
  define s0 where "s0 = s\<lparr>sv_heap := sv_heap s @ [?r]\<rparr>"
  obtain q1 where q1: "cq_try_pop (sl_messages L) q = Some (m, q1)" "cq_list (sl_messages L) q1 = ms"
    using b(2) by (rule pop_cons [OF Q(1)])
  define s1 where "s1 = conn_write L c ?a (set_buf ?a m s0)"
  have heap: "sv_heap (set_buf ?a m s0) ! ?a = ?r\<lparr>pk_buf := m\<rparr>" by (simp add: s0_def set_buf_def)
  have s1: "length (sv_conns s1) = length (sv_conns s)" "sv_heap s1 ! ?a = ?r\<lparr>pk_buf := m\<rparr>" "?a < length (sv_heap s1)"
    "cn_is_writing (sv_conns s1 ! c)" "cn_wire (sv_conns s1 ! c) = cn_wire (sv_conns s ! c) @ [?r\<lparr>pk_buf := m\<rparr>]"
    "cq_list (sl_writes L) (cn_queue (sv_conns s1 ! c)) = []"
    using idle_write [OF Q(2), of c "set_buf ?a m s0" ?a] c heap by (simp_all add: s1_def s0_def)
  have "listener_loop L [c] ?a q s0 = listener_loop L [c] ?a q1 s1"
    using q1(1) by (subst listener_loop.simps) (simp add: s1_def)
  moreover obtain q' s2 where s2: "listener_loop L [c] ?a q1 s1 = Some (q', s2)" "length (sv_conns s2) = length (sv_conns s1)"
      "sv_heap s2 ! ?a = (?r\<lparr>pk_buf := m\<rparr>)\<lparr>pk_buf := last (m # ms)\<rparr>" "cn_wire (sv_conns s2 ! c) = cn_wire (sv_conns s1 ! c)"
      "cq_list (sl_writes L) (cn_queue (sv_conns s2 ! c)) = replicate (length ms) ?a"
    using listener_loop_busy [OF Q, of c s1 ?a q1 ms] s1 c(1) q1(2) by auto
  ultimately have h: "handle_events L \<lparr>pk_header = h, pk_buf = d\<rparr> s = Some (put_bucket L h \<lparr>bk_messages = q', bk_listeners = []\<rparr> s2)" (is "_ = Some ?s")
    using b q1(1) by (simp add: handle_events_def get_bucket_def s0_def Let_def)
  have "sv_conns ?s = sv_conns s2" "sv_heap ?s = sv_heap s2" by (simp_all add: put_bucket_def)
  then have "cn_wire (sv_conns ((write_done L c ^^ length ms) ?s) ! c) = cn_wire (sv_conns s2 ! c) @ replicate (length ms) (sv_heap s2 ! ?a)"
    using drain_writes [OF Q(2), of c ?s "length ms" ?a] s1(1) s2(2,5) c(1) by simp
  then show ?thesis using h s1(5) s2(3,4) by simp
qed

definition sample_server_libs ::
  "(((bytes \<times> bytes \<times> bytes) \<times> bytes list bucket) list, bytes list, nat list) server_libs" where
  "sample_server_libs = \<lparr>sl_topics = al_chmap, sl_messages = list_cqueue, sl_writes = list_cqueue\<rparr>"

definition sample_put :: "bytes \<Rightarrow> packet" where
  "sample_put m = \<lparr>pk_header = sample_header, pk_buf = m\<rparr>"

text \<open>Three messages are put by connection 0, then connection 1 asks for them.\<close>

definition sample_server :: "(((bytes \<times> bytes \<times> bytes) \<times> bytes list bucket) list, nat list) server" where
  "sample_server = (let L = sample_server_libs in
     start_load L 1 (sample_put []) (start_store L 0 (sample_put [3]) (start_store L 0 (sample_put [2]) (start_store L 0 (sample_put [1])
       (start_accept L (start_accept L (server_new L)))))))"

theorem queued_messages_share_packet_witness:
  "\<exists>s'. handle_events sample_server_libs (sample_put []) sample_server = Some s' \<and>
     map pk_buf (cn_wire (sv_conns ((write_done sample_server_libs 1 ^^ 2) s') ! 1)) = [[1], [3], [3]]"
proof -
  let ?L = sample_server_libs and ?s = sample_server
  have L: "server_libs_ok ?L" by (simp add: server_libs_ok_def sample_server_libs_def al_chmap_ok list_cqueue_ok)
  have s: "length (sv_conns ?s) = 2" "\<not> cn_is_writing (sv_conns ?s ! 1)" "cq_list (sl_writes ?L) (cn_queue (sv_conns ?s ! 1)) = []"
    "cn_wire (sv_conns ?s ! 1) = []" "\<not> is_trigger sample_header"
    "chm_find (sl_topics ?L) (sv_topics ?s) (full_key sample_header) = Some \<lparr>bk_messages = [[1], [2], [3]], bk_listeners = [1]\<rparr>"
    by (simp_all add: sample_server_def sample_server_libs_def sample_put_def start_load_def start_store_def start_accept_def server_new_def
        get_bucket_def put_bucket_def send_packet_def conn_write_def write_next_def new_conn_def al_chmap_def list_cqueue_def
        is_trigger_def sample_header_def full_key_def Let_def)
  from queued_messages_share_packet [OF L _ s(2,3,6) _ s(5), of "[1]" "[[2], [3]]" "[]"] s(1,4)
  show ?thesis by (auto simp: sample_put_def sample_server_libs_def list_cqueue_def numeral_2_eq_2)
qed

section \<open>The stream of a connection\<close>

lemma connection_stream:
  assumes "\<forall>p \<in> set ps. wf_header (pk_header p) \<and> bytesize + length (pk_buf p) < 2 ^ 32 \<and>
    (msg_of (ph_type (pk_header p)) \<notin> {Some Put, Some Worker_reg, Some Trigger} \<longrightarrow> pk_buf p = [])"
  shows "connection_reads (concat (map (snd \<circ> the \<circ> serialize) ps)) = conn_events (map (\<lambda>p. (sized p, pk_buf p)) ps)"
proof -
  have "conn_body_len (sized p) = length (pk_buf p)" if "p \<in> set ps" for p
  proof -
    have "ph_type (sized p) = ph_type (pk_header p)" by (simp add: sized_def)
    then show ?thesis using serialize_Some [of p] assms [rule_format, OF that]
      by (auto simp: conn_body_len_def split: option.splits msg_t.splits)
  qed
  then show ?thesis using serialized_frames_len [of ps conn_body_len] assms by (simp add: connection_reads_def)
qed

end
