(* ===== verification/Socket_Writer.thy ===== *)
theory Socket_Writer
  imports External Pack
begin

text \<open>
  \<^verbatim>\<open>proxy/socket-writer.hpp\<close> (the same file is in \<^verbatim>\<open>ssbd\<close> and in \<^verbatim>\<open>functions/libslsfs\<close>): packets for a
  socket are queued and written one after the other. The queue is a library queue (see \<open>External\<close>).
  First the operations as they run without interruption, which is what the strand gives the completion handlers;
  then the same operations cut into their accesses to the shared queue and flag, which is how calls of
  \<^verbatim>\<open>start_write_socket\<close> from different threads interleave.
\<close>

section \<open>Jobs\<close>

record write_job =
  wj_pack :: packet
  wj_bufptr :: "bytes option"
  wj_next :: nat

text \<open>The bytes of a job: its buffer, or the serialized packet; \<open>None\<close> is undefined behaviour of \<^verbatim>\<open>serialize\<close>.\<close>

definition job_bytes :: "write_job \<Rightarrow> bytes option" where
  "job_bytes j = (case wj_bufptr j of Some b \<Rightarrow> Some b | None \<Rightarrow> map_option snd (serialize (wj_pack j)))"

section \<open>The writer\<close>

text \<open>
  \<open>sw_inflight\<close> are the jobs whose \<^verbatim>\<open>async_write\<close> has been started and not completed, \<open>sw_wire\<close> the
  completed ones in order, \<open>sw_calls\<close> the invocations of the continuations with their error flag.
\<close>

record 'q writer =
  sw_queue :: 'q
  sw_is_writing :: bool
  sw_inflight :: "write_job list"
  sw_wire :: "write_job list"
  sw_calls :: "(nat \<times> bool) list"

definition writer_new :: "(write_job, 'q) cqueue \<Rightarrow> 'q writer" where
  "writer_new Q = \<lparr>sw_queue = cq_empty Q, sw_is_writing = False, sw_inflight = [], sw_wire = [], sw_calls = []\<rparr>"

definition start_write_one_packet :: "(write_job, 'q) cqueue \<Rightarrow> 'q writer \<Rightarrow> 'q writer" where
  "start_write_one_packet Q w =
     (case cq_try_pop Q (sw_queue w) of
        None \<Rightarrow> w\<lparr>sw_is_writing := False\<rparr>
      | Some (job, q) \<Rightarrow> w\<lparr>sw_queue := q, sw_inflight := sw_inflight w @ [job]\<rparr>)"

definition start_write_socket :: "(write_job, 'q) cqueue \<Rightarrow> write_job \<Rightarrow> 'q writer \<Rightarrow> 'q writer" where
  "start_write_socket Q job w =
     (let w = w\<lparr>sw_queue := cq_push Q (sw_queue w) job\<rparr>
      in if \<not> sw_is_writing w then start_write_one_packet Q (w\<lparr>sw_is_writing := True\<rparr>) else w)"

text \<open>Completion of the write in front, with or without an error.\<close>

definition on_write_complete :: "(write_job, 'q) cqueue \<Rightarrow> bool \<Rightarrow> 'q writer \<Rightarrow> 'q writer" where
  "on_write_complete Q ec w =
     (case sw_inflight w of
        [] \<Rightarrow> w
      | job # rest \<Rightarrow>
          let w = w\<lparr>sw_inflight := rest, sw_calls := sw_calls w @ [(wj_next job, ec)]\<rparr>
          in if ec then w\<lparr>sw_is_writing := False\<rparr>
             else start_write_one_packet Q (w\<lparr>sw_wire := sw_wire w @ [job]\<rparr>))"

datatype event = Enqueue write_job | Complete bool

fun writer_event :: "(write_job, 'q) cqueue \<Rightarrow> event \<Rightarrow> 'q writer \<Rightarrow> 'q writer" where
  "writer_event Q (Enqueue job) w = start_write_socket Q job w"
| "writer_event Q (Complete ec) w = on_write_complete Q ec w"

definition writer_run :: "(write_job, 'q) cqueue \<Rightarrow> event list \<Rightarrow> 'q writer \<Rightarrow> 'q writer" where
  "writer_run Q es w = foldl (\<lambda>w e. writer_event Q e w) w es"

definition enqueued :: "event list \<Rightarrow> write_job list" where
  "enqueued es = concat (map (\<lambda>e. case e of Enqueue j \<Rightarrow> [j] | _ \<Rightarrow> []) es)"

section \<open>First in, first out\<close>

text \<open>
  \<open>writer_inv\<close>: everything that was enqueued is, in order, on the wire, in flight or queued; at most one write
  is in flight, exactly while the flag is set; without the flag nothing is queued.
\<close>

definition writer_inv :: "(write_job, 'q) cqueue \<Rightarrow> write_job list \<Rightarrow> 'q writer \<Rightarrow> bool" where
  "writer_inv Q js w \<longleftrightarrow>
     js = sw_wire w @ sw_inflight w @ cq_list Q (sw_queue w) \<and> length (sw_inflight w) \<le> 1 \<and>
     (sw_is_writing w \<longleftrightarrow> sw_inflight w \<noteq> []) \<and> (\<not> sw_is_writing w \<longrightarrow> cq_list Q (sw_queue w) = []) \<and>
     sw_calls w = map (\<lambda>j. (wj_next j, False)) (sw_wire w)"

lemma start_one_inv:
  assumes "cqueue_ok Q" "sw_inflight w = []" "sw_is_writing w" "js = sw_wire w @ cq_list Q (sw_queue w)"
    and "sw_calls w = map (\<lambda>j. (wj_next j, False)) (sw_wire w)"
  shows "writer_inv Q js (start_write_one_packet Q w)"
  using assms cqueue_pop_None [OF assms(1), of "sw_queue w"] cqueue_pop_Some [OF assms(1), of "sw_queue w"]
  by (auto simp: writer_inv_def start_write_one_packet_def split: option.splits)

lemma enqueue_inv:
  assumes "cqueue_ok Q" "writer_inv Q js w"
  shows "writer_inv Q (js @ [j]) (start_write_socket Q j w)"
proof (cases "sw_is_writing w")
  case True
  then show ?thesis using assms by (auto simp: writer_inv_def start_write_socket_def cqueue_push)
next
  case False
  then show ?thesis using assms
    by (simp add: start_write_socket_def Let_def, intro start_one_inv) (auto simp: writer_inv_def cqueue_push)
qed

lemma complete_inv:
  assumes "cqueue_ok Q" "writer_inv Q js w"
  shows "writer_inv Q js (on_write_complete Q False w)"
proof (cases "sw_inflight w")
  case Nil
  then show ?thesis using assms(2) by (simp add: on_write_complete_def)
next
  case (Cons j rest)
  then show ?thesis using assms
    by (simp add: on_write_complete_def Let_def, intro start_one_inv) (auto simp: writer_inv_def)
qed

lemma writer_run_inv:
  assumes "cqueue_ok Q" "Complete True \<notin> set es" "writer_inv Q js w"
  shows "writer_inv Q (js @ enqueued es) (writer_run Q es w)"
  using assms(2,3)
proof (induction es arbitrary: js w)
  case (Cons e es)
  then show ?case
  proof (cases e)
    case (Enqueue j)
    then show ?thesis using Cons.IH [of "js @ [j]"] enqueue_inv [OF assms(1) Cons.prems(2)] Cons.prems(1)
      by (simp add: writer_run_def enqueued_def)
  next
    case (Complete ec)
    then show ?thesis using Cons.IH [of js] complete_inv [OF assms(1) Cons.prems(2)] Cons.prems(1)
      by (cases ec) (simp_all add: writer_run_def enqueued_def)
  qed
qed (simp add: writer_run_def enqueued_def)

text \<open>Each completion moves one job to the wire, so that enough of them empty the writer.\<close>

lemma complete_progress:
  assumes "cqueue_ok Q" "writer_inv Q js w" "sw_wire w \<noteq> js"
  shows "length (sw_wire (on_write_complete Q False w)) = Suc (length (sw_wire w))"
proof -
  from assms(2,3) obtain j where "sw_inflight w = [j]"
    by (cases "sw_inflight w") (auto simp: writer_inv_def)
  then show ?thesis
    by (simp add: on_write_complete_def start_write_one_packet_def Let_def split: option.splits prod.splits)
qed

lemma wire_prefix: "writer_inv Q js w \<Longrightarrow> length (sw_wire w) \<le> length js \<and> (length (sw_wire w) = length js \<longrightarrow> sw_wire w = js)"
  by (auto simp: writer_inv_def)

lemma drain:
  assumes "cqueue_ok Q" "writer_inv Q js w" "length js - length (sw_wire w) \<le> n"
  shows "sw_wire (writer_run Q (replicate n (Complete False)) w) = js"
  using assms(2,3)
proof (induction n arbitrary: w)
  case 0
  then show ?case using wire_prefix [OF 0(1)] by (simp add: writer_run_def)
next
  case (Suc n)
  let ?w = "on_write_complete Q False w"
  have inv: "writer_inv Q js ?w" by (rule complete_inv [OF assms(1) Suc.prems(1)])
  have "length js - length (sw_wire ?w) \<le> n"
  proof (cases "sw_wire w = js")
    case True
    then have "sw_inflight w = []" using Suc.prems(1) by (simp add: writer_inv_def)
    then show ?thesis using True by (simp add: on_write_complete_def)
  next
    case False
    then show ?thesis using complete_progress [OF assms(1) Suc.prems(1)] Suc.prems(2) by simp
  qed
  then show ?case using Suc.IH [OF inv] by (simp add: writer_run_def)
qed

section \<open>Interleavings\<close>

text \<open>
  A call of \<^verbatim>\<open>start_write_socket\<close> pushes its job and is then at \<open>Test\<close>; seeing the flag cleared it goes on to
  \<open>Set\<close> it and to \<open>Pop\<close> a job; a \<open>Pop\<close> that finds the queue empty goes on to \<open>Clear\<close> the flag. A
  completed write goes on with \<open>Pop\<close>. Any thread may take the next step.
\<close>

datatype thread = Test | Set | Pop | Clear

record 'q mstate =
  ms_writer :: "'q writer"
  ms_threads :: "thread list"

inductive micro :: "(write_job, 'q) cqueue \<Rightarrow> 'q mstate \<Rightarrow> 'q mstate \<Rightarrow> bool" for Q where
  call: "micro Q \<lparr>ms_writer = w, ms_threads = ts\<rparr> \<lparr>ms_writer = w\<lparr>sw_queue := cq_push Q (sw_queue w) j\<rparr>, ms_threads = ts @ [Test]\<rparr>"
| test: "micro Q \<lparr>ms_writer = w, ms_threads = ts @ Test # us\<rparr>
    \<lparr>ms_writer = w, ms_threads = (if sw_is_writing w then ts @ us else ts @ Set # us)\<rparr>"
| set_flag: "micro Q \<lparr>ms_writer = w, ms_threads = ts @ Set # us\<rparr> \<lparr>ms_writer = w\<lparr>sw_is_writing := True\<rparr>, ms_threads = ts @ Pop # us\<rparr>"
| pop_none: "cq_try_pop Q (sw_queue w) = None \<Longrightarrow>
    micro Q \<lparr>ms_writer = w, ms_threads = ts @ Pop # us\<rparr> \<lparr>ms_writer = w, ms_threads = ts @ Clear # us\<rparr>"
| pop_some: "cq_try_pop Q (sw_queue w) = Some (j, q) \<Longrightarrow>
    micro Q \<lparr>ms_writer = w, ms_threads = ts @ Pop # us\<rparr>
      \<lparr>ms_writer = w\<lparr>sw_queue := q, sw_inflight := sw_inflight w @ [j]\<rparr>, ms_threads = ts @ us\<rparr>"
| clear: "micro Q \<lparr>ms_writer = w, ms_threads = ts @ Clear # us\<rparr> \<lparr>ms_writer = w\<lparr>sw_is_writing := False\<rparr>, ms_threads = ts @ us\<rparr>"
| complete: "sw_inflight w = xs @ j # ys \<Longrightarrow>
    micro Q \<lparr>ms_writer = w, ms_threads = ts\<rparr>
      \<lparr>ms_writer = w\<lparr>sw_inflight := xs @ ys, sw_wire := sw_wire w @ [j], sw_calls := sw_calls w @ [(wj_next j, False)]\<rparr>,
       ms_threads = ts @ [Pop]\<rparr>"

inductive_cases micro_cases: "micro Q s s'"

inductive mreach :: "(write_job, 'q) cqueue \<Rightarrow> 'q mstate \<Rightarrow> bool" for Q where
  start: "mreach Q \<lparr>ms_writer = writer_new Q, ms_threads = []\<rparr>"
| step: "mreach Q s \<Longrightarrow> micro Q s s' \<Longrightarrow> mreach Q s'"

lemma pop_front:
  assumes "cqueue_ok Q" "cq_list Q q = x # xs"
  shows "\<exists>q'. cq_try_pop Q q = Some (x, q') \<and> cq_list Q q' = xs"
proof (cases "cq_try_pop Q q")
  case None
  then show ?thesis using assms cqueue_pop_None by fastforce
next
  case (Some p)
  then show ?thesis using assms(2) cqueue_pop_Some [OF assms(1), of q "fst p" "snd p"] by (cases p) auto
qed

text \<open>A call that runs alone takes its job in flight.\<close>

lemma mreach_call:
  assumes "mreach Q \<lparr>ms_writer = w, ms_threads = ts\<rparr>"
  shows "mreach Q \<lparr>ms_writer = w\<lparr>sw_queue := cq_push Q (sw_queue w) j\<rparr>, ms_threads = ts @ [Test]\<rparr>"
  using assms by (rule mreach.step) (rule micro.call)

lemma mreach_test:
  assumes "mreach Q \<lparr>ms_writer = w, ms_threads = ts @ Test # us\<rparr>"
  shows "mreach Q \<lparr>ms_writer = w, ms_threads = (if sw_is_writing w then ts @ us else ts @ Set # us)\<rparr>"
  using assms by (rule mreach.step) (rule micro.test)

lemma mreach_set:
  assumes "mreach Q \<lparr>ms_writer = w, ms_threads = ts @ Set # us\<rparr>"
  shows "mreach Q \<lparr>ms_writer = w\<lparr>sw_is_writing := True\<rparr>, ms_threads = ts @ Pop # us\<rparr>"
  using assms by (rule mreach.step) (rule micro.set_flag)

lemma mreach_pop:
  assumes "mreach Q \<lparr>ms_writer = w, ms_threads = ts @ Pop # us\<rparr>" "cqueue_ok Q" "cq_list Q (sw_queue w) = x # xs"
  shows "\<exists>q. mreach Q \<lparr>ms_writer = w\<lparr>sw_queue := q, sw_inflight := sw_inflight w @ [x]\<rparr>, ms_threads = ts @ us\<rparr> \<and> cq_list Q q = xs"
  using pop_front [OF assms(2,3)] mreach.step [OF assms(1) micro.pop_some] by blast

lemma stuck_interleaving:
  assumes "cqueue_ok Q"
  shows "\<exists>s. mreach Q s \<and> ms_threads s = [] \<and> sw_inflight (ms_writer s) = [] \<and> \<not> sw_is_writing (ms_writer s) \<and>
    cq_list Q (sw_queue (ms_writer s)) = [j]"
proof -
  let ?w = "writer_new Q\<lparr>sw_queue := cq_push Q (cq_empty Q) j\<rparr>"
  have q0: "cq_list Q (sw_queue ?w) = [j]" by (simp add: cqueue_push assms cqueue_empty)
  have "mreach Q \<lparr>ms_writer = ?w, ms_threads = [] @ Test # []\<rparr>"
    using mreach_call [OF mreach.start, of Q j] by (simp add: writer_new_def)
  then have "mreach Q \<lparr>ms_writer = ?w, ms_threads = [] @ Set # []\<rparr>" using mreach_test by (fastforce simp: writer_new_def)
  then have "mreach Q \<lparr>ms_writer = ?w\<lparr>sw_is_writing := True\<rparr>, ms_threads = [] @ Pop # []\<rparr>" by (rule mreach_set)
  from mreach_pop [OF this assms, of j "[]"] q0 obtain q where
    q: "mreach Q \<lparr>ms_writer = ?w\<lparr>sw_is_writing := True, sw_queue := q, sw_inflight := [j]\<rparr>, ms_threads = []\<rparr>" "cq_list Q q = []"
    by (auto simp: writer_new_def)
  let ?w1 = "?w\<lparr>sw_is_writing := True, sw_queue := q, sw_inflight := [], sw_wire := [j], sw_calls := [(wj_next j, False)]\<rparr>"
  have "mreach Q \<lparr>ms_writer = ?w1, ms_threads = [] @ Pop # []\<rparr>"
    using mreach.step [OF q(1) micro.complete [where xs = "[]" and ys = "[]" and j = j]] by (simp add: writer_new_def)
  then have "mreach Q \<lparr>ms_writer = ?w1, ms_threads = [] @ Clear # []\<rparr>"
    by (rule mreach.step) (rule micro.pop_none, simp add: cqueue_pop_None [OF assms] q(2))
  from mreach_call [OF this, of j] have "mreach Q \<lparr>ms_writer = ?w1\<lparr>sw_queue := cq_push Q q j\<rparr>, ms_threads = [Clear] @ Test # []\<rparr>" by simp
  from mreach_test [OF this] have "mreach Q \<lparr>ms_writer = ?w1\<lparr>sw_queue := cq_push Q q j\<rparr>, ms_threads = [] @ Clear # []\<rparr>" by simp
  from mreach.step [OF this micro.clear]
  have "mreach Q \<lparr>ms_writer = ?w1\<lparr>sw_queue := cq_push Q q j, sw_is_writing := False\<rparr>, ms_threads = []\<rparr>" by simp
  then show ?thesis by (intro exI conjI) (assumption, simp_all add: cqueue_push [OF assms] q(2) writer_new_def)
qed

lemma double_write_interleaving:
  assumes "cqueue_ok Q"
  shows "\<exists>s. mreach Q s \<and> ms_threads s = [] \<and> sw_inflight (ms_writer s) = [j, k]"
proof -
  let ?w = "writer_new Q\<lparr>sw_queue := cq_push Q (cq_push Q (cq_empty Q) j) k\<rparr>" and ?f = "\<lambda>w. w\<lparr>sw_is_writing := True\<rparr>"
  have q0: "cq_list Q (sw_queue ?w) = [j, k]" by (simp add: cqueue_push assms cqueue_empty)
  have nf: "\<not> sw_is_writing ?w" "sw_inflight ?w = []" by (simp_all add: writer_new_def)
  have "mreach Q \<lparr>ms_writer = ?w, ms_threads = [] @ Test # [Test]\<rparr>"
    using mreach_call [OF mreach_call [OF mreach.start, of Q j], of k] by (simp add: writer_new_def)
  from mreach_test [OF this] nf(1) have "mreach Q \<lparr>ms_writer = ?w, ms_threads = [Set] @ Test # []\<rparr>" by simp
  from mreach_test [OF this] nf(1) have "mreach Q \<lparr>ms_writer = ?w, ms_threads = [] @ Set # [Set]\<rparr>" by simp
  from mreach_set [OF this] have "mreach Q \<lparr>ms_writer = ?f ?w, ms_threads = [Pop] @ Set # []\<rparr>" by simp
  from mreach_set [OF this] have "mreach Q \<lparr>ms_writer = ?f ?w, ms_threads = [] @ Pop # [Pop]\<rparr>" by simp
  from mreach_pop [OF this assms, of j "[k]"] q0 nf(2) obtain q where
    q: "mreach Q \<lparr>ms_writer = ?f ?w\<lparr>sw_queue := q, sw_inflight := [j]\<rparr>, ms_threads = [] @ Pop # []\<rparr>" "cq_list Q q = [k]" by auto
  from mreach_pop [OF q(1) assms, of k "[]"] q(2) obtain q' where
    "mreach Q \<lparr>ms_writer = ?f ?w\<lparr>sw_queue := q', sw_inflight := [j, k]\<rparr>, ms_threads = []\<rparr>" by auto
  then show ?thesis by (intro exI conjI) (assumption, simp_all)
qed

section \<open>Properties\<close>

text \<open>
  C18. The socket writer. When calls do not interleave, in every sequence of calls and successful
  completions, followed by as many completions as jobs were enqueued, every job is written exactly
  once, in the order of the calls, each continuation is called once, and the writer is idle; the bytes on the
  wire are cut by a reader into exactly the packets that were enqueued.
\<close>

theorem writer_delivers_in_order:
  assumes "cqueue_ok Q" "Complete True \<notin> set es" "length (enqueued es) \<le> n"
    and "\<forall>j \<in> set (enqueued es). wj_bufptr j = None \<and> wf_header (pk_header (wj_pack j)) \<and>
      bytesize + length (pk_buf (wj_pack j)) < 2 ^ 32"
  shows "let w = writer_run Q (es @ replicate n (Complete False)) (writer_new Q)
    in sw_wire w = enqueued es \<and> sw_calls w = map (\<lambda>j. (wj_next j, False)) (enqueued es) \<and> \<not> sw_is_writing w \<and>
      read_frames parse bytesize (\<lambda>h. unat (ph_datasize h)) (concat (map (the \<circ> job_bytes) (sw_wire w))) =
        (map (\<lambda>j. (sized (wj_pack j), pk_buf (wj_pack j))) (enqueued es), [])"
proof -
  let ?js = "enqueued es" and ?w1 = "writer_run Q es (writer_new Q)"
  let ?w = "writer_run Q (es @ replicate n (Complete False)) (writer_new Q)"
  have "writer_inv Q [] (writer_new Q)" by (simp add: writer_inv_def writer_new_def cqueue_empty [OF assms(1)])
  from writer_run_inv [OF assms(1,2) this] have inv: "writer_inv Q ?js ?w1" by simp
  have eq: "?w = writer_run Q (replicate n (Complete False)) ?w1" by (simp add: writer_run_def)
  have wire: "sw_wire ?w = ?js" unfolding eq using assms(3) by (intro drain [OF assms(1) inv]) simp
  have "writer_inv Q (?js @ enqueued (replicate n (Complete False))) ?w"
    unfolding eq by (rule writer_run_inv [OF assms(1) _ inv]) simp
  moreover have "enqueued (replicate n (Complete False)) = []" by (simp add: enqueued_def map_replicate_const)
  ultimately have "sw_calls ?w = map (\<lambda>j. (wj_next j, False)) ?js" "\<not> sw_is_writing ?w"
    using wire by (auto simp: writer_inv_def)
  moreover have "concat (map (the \<circ> job_bytes) ?js) = concat (map (snd \<circ> the \<circ> serialize) (map wj_pack ?js))"
    using assms(4) serialize_Some by (auto simp: job_bytes_def intro!: arg_cong [where f = concat])
  moreover have "\<forall>p \<in> set (map wj_pack ?js). wf_header (pk_header p) \<and> bytesize + length (pk_buf p) < 2 ^ 32" using assms(4) by auto
  note serialized_frames [OF this]
  ultimately show ?thesis using wire by (simp add: Let_def comp_def)
qed

definition sample_wjob :: "bytes \<Rightarrow> write_job" where
  "sample_wjob b = \<lparr>wj_pack = \<lparr>pk_header = sample_header, pk_buf = b\<rparr>, wj_bufptr = None, wj_next = length b\<rparr>"

theorem writer_delivers_in_order_witness:
  "sw_wire (writer_run list_cqueue ([Enqueue (sample_wjob [1]), Complete False, Enqueue (sample_wjob []), Enqueue (sample_wjob [2, 3])] @
     replicate 3 (Complete False)) (writer_new list_cqueue)) = [sample_wjob [1], sample_wjob [], sample_wjob [2, 3]]"
  using writer_delivers_in_order [OF list_cqueue_ok, of "[Enqueue (sample_wjob [1]), Complete False, Enqueue (sample_wjob []),
      Enqueue (sample_wjob [2, 3])]" 3] wf_sample_header
  by (simp add: enqueued_def sample_wjob_def bytesize_def Let_def)

text \<open>
  C19. Interleaved calls. The flag and the queue are separate variables, and calls from several threads
  can interleave between them. There is an interleaving after which a packet stays in the queue although no
  write is in flight and no thread will look at the queue; and there is one with two writes in
  flight on one socket, whose bytes may mix.
\<close>

theorem writer_interleavings_unsafe:
  assumes "cqueue_ok Q"
  shows "(\<exists>s. mreach Q s \<and> ms_threads s = [] \<and> sw_inflight (ms_writer s) = [] \<and> \<not> sw_is_writing (ms_writer s) \<and>
      cq_list Q (sw_queue (ms_writer s)) = [j]) \<and>
    (\<exists>s. mreach Q s \<and> ms_threads s = [] \<and> sw_inflight (ms_writer s) = [j, k])"
  using stuck_interleaving [OF assms] double_write_interleaving [OF assms] by blast

theorem writer_interleavings_unsafe_witness:
  "\<exists>s. mreach list_cqueue s \<and> ms_threads s = [] \<and> sw_inflight (ms_writer s) = [] \<and>
     sw_queue (ms_writer s) = [sample_wjob [1]]"
  using writer_interleavings_unsafe [OF list_cqueue_ok, of "sample_wjob [1]" "sample_wjob [2]"]
  by (auto simp: list_cqueue_def)

end
