(* ===== verification/Jsre.thy ===== *)
theory Jsre
  imports Pack
begin

text \<open>
  The request format inside a packet body: \<^verbatim>\<open>json-replacement.hpp\<close> (the proxy and
  the data functions share the file) and \<^verbatim>\<open>functions/datafunction/create-request.hpp\<close>.
  The structures are copied to and from buffers as they lie in memory: a \<^verbatim>\<open>request\<close> is 12 bytes
  with two bytes of padding behind the two one-byte enumerators, \<^verbatim>\<open>stats\<close> and \<^verbatim>\<open>filemeta\<close> are 64
  bytes. The value of the padding is unspecified, so it is an argument. Reading a field behind the
  end of the buffer is undefined behaviour, \<open>None\<close>.
\<close>

section \<open>Enumerations\<close>

datatype type_t = T_file | T_metadata | T_wakeup | T_storagetest

datatype operation_t = Op_write | Op_read

datatype meta_operation_t = M_addfile | M_ls | M_mkdir

fun type_val :: "type_t \<Rightarrow> u8" where
  "type_val T_file = 0"
| "type_val T_metadata = 1"
| "type_val T_wakeup = 2"
| "type_val T_storagetest = 3"

fun operation_val :: "operation_t \<Rightarrow> u8" where
  "operation_val Op_write = 0"
| "operation_val Op_read = 1"

fun meta_operation_val :: "meta_operation_t \<Rightarrow> u8" where
  "meta_operation_val M_addfile = 0"
| "meta_operation_val M_ls = 1"
| "meta_operation_val M_mkdir = 2"

definition type_of_byte :: "u8 \<Rightarrow> type_t option" where
  "type_of_byte b = List.find (\<lambda>t. type_val t = b) [T_file, T_metadata, T_wakeup, T_storagetest]"

definition operation_of_byte :: "u8 \<Rightarrow> operation_t option" where
  "operation_of_byte b = List.find (\<lambda>t. operation_val t = b) [Op_write, Op_read]"

definition meta_operation_of_byte :: "u8 \<Rightarrow> meta_operation_t option" where
  "meta_operation_of_byte b = List.find (\<lambda>t. meta_operation_val t = b) [M_addfile, M_ls, M_mkdir]"

lemma type_of_val [simp]: "type_of_byte (type_val t) = Some t"
  by (cases t) (simp_all add: type_of_byte_def)

lemma operation_of_val [simp]: "operation_of_byte (operation_val oper) = Some oper"
  by (cases oper) (simp_all add: operation_of_byte_def)

lemma meta_operation_of_val [simp]: "meta_operation_of_byte (meta_operation_val mo) = Some mo"
  by (cases mo) (simp_all add: meta_operation_of_byte_def)

section \<open>Directory entries\<close>

definition filemeta_size :: nat where
  "filemeta_size = 64"

record stats =
  st_file_count :: u32
  st_reserved :: bytes

definition stats_to_network_format :: "stats \<Rightarrow> stats" where
  "stats_to_network_format s = s\<lparr>st_file_count := hton32 (st_file_count s)\<rparr>"

definition stats_to_host_format :: "stats \<Rightarrow> stats" where
  "stats_to_host_format s = s\<lparr>st_file_count := ntoh32 (st_file_count s)\<rparr>"

definition stats_mem :: "stats \<Rightarrow> bytes" where
  "stats_mem s = mem32 (st_file_count s) @ st_reserved s"

definition stats_of_mem :: "bytes \<Rightarrow> stats" where
  "stats_of_mem bs = \<lparr>st_file_count = of_mem32 (slice 0 4 bs), st_reserved = slice 4 60 bs\<rparr>"

record filemeta =
  fm_owner :: u16
  fm_permission :: u16
  fm_filename :: bytes

definition filemeta_to_network_format :: "filemeta \<Rightarrow> filemeta" where
  "filemeta_to_network_format f =
     f\<lparr>fm_owner := hton16 (fm_owner f), fm_permission := hton16 (fm_permission f)\<rparr>"

definition filemeta_to_host_format :: "filemeta \<Rightarrow> filemeta" where
  "filemeta_to_host_format f =
     f\<lparr>fm_owner := ntoh16 (fm_owner f), fm_permission := ntoh16 (fm_permission f)\<rparr>"

definition filemeta_mem :: "filemeta \<Rightarrow> bytes" where
  "filemeta_mem f = mem16 (fm_owner f) @ mem16 (fm_permission f) @ fm_filename f"

definition filemeta_of_mem :: "bytes \<Rightarrow> filemeta" where
  "filemeta_of_mem bs = \<lparr>fm_owner = of_mem16 (slice 0 2 bs), fm_permission = of_mem16 (slice 2 2 bs),
     fm_filename = slice 4 60 bs\<rparr>"

definition wf_stats :: "stats \<Rightarrow> bool" where
  "wf_stats s \<longleftrightarrow> length (st_reserved s) = 60"

definition wf_filemeta :: "filemeta \<Rightarrow> bool" where
  "wf_filemeta f \<longleftrightarrow> length (fm_filename f) = 60"

lemma stats_codec [codec_simps]:
  "wf_stats s \<Longrightarrow> length (stats_mem s) = filemeta_size"
  "wf_stats s \<Longrightarrow> stats_of_mem (stats_mem s @ zs) = s"
  "wf_stats (stats_to_network_format s) = wf_stats s"
  "stats_to_host_format (stats_to_network_format s) = s"
  by (simp_all add: stats_mem_def stats_of_mem_def wf_stats_def filemeta_size_def stats_to_host_format_def
      stats_to_network_format_def slice_def)

lemma filemeta_codec [codec_simps]:
  "wf_filemeta f \<Longrightarrow> length (filemeta_mem f) = filemeta_size"
  "wf_filemeta f \<Longrightarrow> filemeta_of_mem (filemeta_mem f @ zs) = f"
  "filemeta_to_host_format (filemeta_to_network_format f) = f"
  by (simp_all add: filemeta_mem_def filemeta_of_mem_def wf_filemeta_def filemeta_size_def
      filemeta_to_host_format_def filemeta_to_network_format_def slice_def)

section \<open>Requests\<close>

record request =
  rq_type :: u8
  rq_operation :: u8
  rq_position :: u32
  rq_size :: u32

definition request_size :: nat where
  "request_size = 12"

text \<open>The conversion leaves the one-byte fields as they are.\<close>

definition to_network_format :: "request \<Rightarrow> request" where
  "to_network_format r = r\<lparr>rq_position := hton32 (rq_position r), rq_size := hton32 (rq_size r)\<rparr>"

definition to_host_format :: "request \<Rightarrow> request" where
  "to_host_format r = r\<lparr>rq_position := ntoh32 (rq_position r), rq_size := ntoh32 (rq_size r)\<rparr>"

definition request_mem :: "bytes \<Rightarrow> request \<Rightarrow> bytes" where
  "request_mem pad r = [rq_type r, rq_operation r] @ pad @ mem32 (rq_position r) @ mem32 (rq_size r)"

section \<open>The request parser\<close>

definition field :: "nat \<Rightarrow> nat \<Rightarrow> packet \<Rightarrow> bytes option" where
  "field off n p = (if off + n \<le> length (pk_buf p) then Some (slice off n (pk_buf p)) else None)"

definition rp_uuid :: "packet \<Rightarrow> bytes" where
  "rp_uuid p = ph_key (pk_header p)"

definition rp_type :: "packet \<Rightarrow> u8 option" where
  "rp_type p = map_option hd (field 0 1 p)"

definition rp_operation :: "packet \<Rightarrow> u8 option" where
  "rp_operation p = map_option hd (field 1 1 p)"

definition rp_meta_operation :: "packet \<Rightarrow> u8 option" where
  "rp_meta_operation p = rp_operation p"

definition rp_position :: "packet \<Rightarrow> u32 option" where
  "rp_position p = map_option (\<lambda>bs. ntoh32 (of_mem32 bs)) (field 4 4 p)"

definition rp_size :: "packet \<Rightarrow> u32 option" where
  "rp_size p = map_option (\<lambda>bs. ntoh32 (of_mem32 bs)) (field 8 4 p)"

text \<open>\<^verbatim>\<open>data()\<close> is a pointer; the bytes from there to the end of the buffer.\<close>

definition rp_data :: "packet \<Rightarrow> bytes" where
  "rp_data p = drop request_size (pk_buf p)"

definition copy_request :: "packet \<Rightarrow> request option" where
  "copy_request p =
     (case (rp_type p, rp_operation p, rp_position p, rp_size p) of
        (Some t, Some oper, Some pos, Some n) \<Rightarrow>
          Some \<lparr>rq_type = t, rq_operation = oper, rq_position = pos, rq_size = n\<rparr>
      | _ \<Rightarrow> None)"

lemma copy_request_defined: "request_size \<le> length (pk_buf p) \<Longrightarrow> copy_request p \<noteq> None"
  by (simp add: copy_request_def rp_type_def rp_operation_def rp_position_def rp_size_def field_def
      request_size_def)

lemma copy_request_mem:
  assumes "length pad = 2" and "pk_buf p = request_mem pad (to_network_format r) @ data"
  shows "copy_request p = Some r" and "rp_data p = data"
proof -
  obtain a b where pad: "pad = [a, b]"
    using assms(1) by (auto simp: length_Suc_conv numeral_2_eq_2)
  show "copy_request p = Some r"
    using assms(2)
    by (cases r) (simp add: pad copy_request_def rp_type_def rp_operation_def rp_position_def rp_size_def
        field_def request_mem_def to_network_format_def slice_def)
  show "rp_data p = data"
    using assms(2) by (simp add: pad rp_data_def request_mem_def request_size_def)
qed

lemma copy_request_cases:
  assumes "copy_request p = Some r"
  shows "rp_type p = Some (rq_type r)" "rp_operation p = Some (rq_operation r)"
    "rp_position p = Some (rq_position r)" "rp_size p = Some (rq_size r)"
  using assms by (auto simp: copy_request_def split: option.splits)

section \<open>Building requests\<close>

text \<open>
  A fresh packet: \<^verbatim>\<open>header.gen()\<close> with the drawn salt and sequence bytes, the type field left
  uninitialised (an argument), and the key set. \<open>create_read\<close> builds and measures a string of \<open>size\<close>
  bytes, which gives the size back.
\<close>

definition fresh_header :: "u8 \<Rightarrow> bytes \<Rightarrow> bytes \<Rightarrow> bytes \<Rightarrow> packet_header" where
  "fresh_header t salt sequ key =
     \<lparr>ph_type = t, ph_key = key, ph_datasize = 0, ph_sequence = sequ, ph_random_salt = salt\<rparr>"

definition build_packet :: "packet_header \<Rightarrow> bytes \<Rightarrow> request \<Rightarrow> bytes \<Rightarrow> packet" where
  "build_packet h pad r data = \<lparr>pk_header = h, pk_buf = request_mem pad (to_network_format r) @ data\<rparr>"

definition create_read :: "packet_header \<Rightarrow> bytes \<Rightarrow> bytes \<Rightarrow> u32 \<Rightarrow> u32 \<Rightarrow> packet" where
  "create_read h pad name position n =
     build_packet (h\<lparr>ph_key := name\<rparr>) pad
       \<lparr>rq_type = type_val T_file, rq_operation = operation_val Op_read, rq_position = position,
        rq_size = of_nat (length (replicate (unat n) (65 :: u8)))\<rparr> []"

definition create_write :: "packet_header \<Rightarrow> bytes \<Rightarrow> bytes \<Rightarrow> u32 \<Rightarrow> bytes \<Rightarrow> packet" where
  "create_write h pad name position buf =
     build_packet (h\<lparr>ph_key := name\<rparr>) pad
       \<lparr>rq_type = type_val T_file, rq_operation = operation_val Op_write, rq_position = position,
        rq_size = of_nat (length buf)\<rparr> buf"

lemma build_packet_parse:
  "length pad = 2 \<Longrightarrow> copy_request (build_packet h pad r data) = Some r"
  "length pad = 2 \<Longrightarrow> rp_data (build_packet h pad r data) = data"
  "rp_uuid (build_packet h pad r data) = ph_key h"
  by (simp_all add: build_packet_def rp_uuid_def copy_request_mem [where data = data])

section \<open>Properties\<close>

text \<open>
  Requests survive the wire format. What \<^verbatim>\<open>create_write\<close> and \<^verbatim>\<open>create_read\<close> put into a packet is
  what the request parser of the data function reads out of it: the file key, the type, the
  operation, the position, the size and, for a write, the data.
\<close>

theorem create_request_parses:
  assumes "length pad = 2"
  shows "copy_request (create_write h pad name pos buf) =
      Some \<lparr>rq_type = type_val T_file, rq_operation = operation_val Op_write, rq_position = pos,
            rq_size = of_nat (length buf)\<rparr> \<and>
    rp_data (create_write h pad name pos buf) = buf \<and> rp_uuid (create_write h pad name pos buf) = name \<and>
    copy_request (create_read h pad name pos n) =
      Some \<lparr>rq_type = type_val T_file, rq_operation = operation_val Op_read, rq_position = pos, rq_size = n\<rparr> \<and>
    rp_uuid (create_read h pad name pos n) = name"
  using assms by (simp add: create_write_def create_read_def build_packet_parse)

theorem create_request_parses_witness:
  "rp_data (create_write sample_header [0, 0] (replicate 32 1) 4097 [7, 8, 9]) = [7, 8, 9] \<and>
   rp_position (create_write sample_header [0, 0] (replicate 32 1) 4097 [7, 8, 9]) = Some 4097"
  using create_request_parses [of "[0, 0]" sample_header "replicate 32 1" 4097 "[7, 8, 9]" 0]
    copy_request_cases(3) [of "create_write sample_header [0, 0] (replicate 32 1) 4097 [7, 8, 9]"]
  by auto

end
