(* ===== verification/Lru_Cache.thy ===== *)
theory Lru_Cache
  imports Jsre External "HOL-Library.Monad_Syntax"
begin

text \<open>
  \<^verbatim>\<open>functions/datafunction/caching.hpp\<close>, the class \<^verbatim>\<open>LRUCache\<close>: a doubly linked list of cache entries
  between two sentinel nodes, the \<^verbatim>\<open>std::map\<close> from entries to nodes and the byte budget. The list is
  modelled at the level of pointers: nodes live in a heap, \<open>None\<close> in a link field is a pointer that
  was never initialised, and reading through it, or through a freed node, makes the operation
  \<open>None\<close> (undefined behaviour). \<open>lru_set_spec\<close> shows that the pointer program implements the
  list of entries in the order of their last use.

  The concurrent map of cached blocks is a library map (see \<open>External\<close>), from file keys to maps from
  block numbers to buffers. \<open>held\<close> is the file whose element the calling thread has locked
  through an accessor: waiting for a second lock on it would not end, which is \<open>None\<close> as well.
  Time stamps and the node member \<^verbatim>\<open>value\<close> are never read and left out.
\<close>

section \<open>Entries and nodes\<close>

type_synonym addr = nat
type_synonym ckey = "bytes \<times> u32"

record cache_entry =
  ce_file_key :: bytes
  ce_block_id :: u32
  ce_data_size :: u32

definition ce_key :: "cache_entry \<Rightarrow> ckey" where
  "ce_key e = (ce_file_key e, ce_block_id e)"

record node =
  nd_key :: cache_entry
  nd_prev :: "addr option"
  nd_next :: "addr option"

record lru =
  lr_heap :: "addr \<rightharpoonup> node"
  lr_fresh :: addr
  lr_head :: addr
  lr_tail :: addr
  lr_cap :: u32
  lr_cur_size :: u32
  lr_m :: "ckey \<rightharpoonup> addr"
  lr_evictions :: u64

definition sentinel :: cache_entry where
  "sentinel = \<lparr>ce_file_key = replicate 32 0, ce_block_id = 0, ce_data_size = 0\<rparr>"

definition LRUCache :: "u32 \<Rightarrow> lru" where
  "LRUCache capacity = \<lparr>lr_heap = [0 \<mapsto> \<lparr>nd_key = sentinel, nd_prev = None, nd_next = Some 1\<rparr>,
       1 \<mapsto> \<lparr>nd_key = sentinel, nd_prev = Some 0, nd_next = None\<rparr>],
     lr_fresh = 2, lr_head = 0, lr_tail = 1, lr_cap = capacity, lr_cur_size = 0, lr_m = Map.empty,
     lr_evictions = 0\<rparr>"

section \<open>Pointer operations\<close>

definition get_next :: "addr \<Rightarrow> lru \<Rightarrow> addr option" where
  "get_next a l = Option.bind (lr_heap l a) nd_next"

definition get_prev :: "addr \<Rightarrow> lru \<Rightarrow> addr option" where
  "get_prev a l = Option.bind (lr_heap l a) nd_prev"

definition set_next :: "addr \<Rightarrow> addr \<Rightarrow> lru \<Rightarrow> lru option" where
  "set_next a b l = (case lr_heap l a of None \<Rightarrow> None
     | Some n \<Rightarrow> Some (l\<lparr>lr_heap := (lr_heap l)(a \<mapsto> n\<lparr>nd_next := Some b\<rparr>)\<rparr>))"

definition set_prev :: "addr \<Rightarrow> addr \<Rightarrow> lru \<Rightarrow> lru option" where
  "set_prev a b l = (case lr_heap l a of None \<Rightarrow> None
     | Some n \<Rightarrow> Some (l\<lparr>lr_heap := (lr_heap l)(a \<mapsto> n\<lparr>nd_prev := Some b\<rparr>)\<rparr>))"

definition new_node :: "cache_entry \<Rightarrow> lru \<Rightarrow> addr \<times> lru" where
  "new_node e l = (lr_fresh l,
     l\<lparr>lr_heap := (lr_heap l)(lr_fresh l \<mapsto> \<lparr>nd_key = e, nd_prev = None, nd_next = None\<rparr>),
       lr_fresh := lr_fresh l + 1\<rparr>)"

definition free_node :: "addr \<Rightarrow> lru \<Rightarrow> lru" where
  "free_node a l = l\<lparr>lr_heap := (lr_heap l)(a := None)\<rparr>"

definition addnode :: "addr \<Rightarrow> lru \<Rightarrow> lru option" where
  "addnode temp l = do {
     n \<leftarrow> lr_heap l temp;
     let l = l\<lparr>lr_cur_size := lr_cur_size l + ce_data_size (nd_key n)\<rparr>;
     dummy \<leftarrow> get_next (lr_head l) l;
     l \<leftarrow> set_next (lr_head l) temp l;
     l \<leftarrow> set_prev temp (lr_head l) l;
     l \<leftarrow> set_next temp dummy l;
     set_prev dummy temp l
   }"

definition deletenode :: "addr \<Rightarrow> lru \<Rightarrow> lru option" where
  "deletenode temp l = do {
     n \<leftarrow> lr_heap l temp;
     let l = l\<lparr>lr_cur_size := lr_cur_size l - ce_data_size (nd_key n)\<rparr>;
     delnext \<leftarrow> get_next temp l;
     delprev \<leftarrow> get_prev temp l;
     l \<leftarrow> set_prev delnext delprev l;
     l \<leftarrow> set_next delprev delnext l;
     Some (free_node temp l)
   }"

section \<open>The LRU cache\<close>

text \<open>
  The map of cached blocks is shared with the class \<^verbatim>\<open>cache\<close>, so the operations thread it through
  together with the list.
\<close>

type_synonym ('b, 't) file_map = "(bytes, 'b, 't) chmap"
type_synonym 'b block_map = "(u32, bytes, 'b) chmap"

definition delete_entry_from_cache ::
  "('b, 't) file_map \<Rightarrow> 'b block_map \<Rightarrow> bytes option \<Rightarrow> cache_entry \<Rightarrow> lru \<times> 't \<Rightarrow> (lru \<times> 't) option" where
  "delete_entry_from_cache M B held e = (\<lambda>(l, t).
     case chm_find M t (ce_file_key e) of
       None \<Rightarrow> Some (l, t)
     | Some blocks \<Rightarrow>
         if held = Some (ce_file_key e) then None
         else let ret = (chm_find B blocks (ce_block_id e) \<noteq> None);
                  blocks' = chm_erase B blocks (ce_block_id e);
                  l' = (if ret then l\<lparr>lr_evictions := lr_evictions l + 1\<rparr> else l);
                  t' = (if chm_size B blocks' = 0 then chm_erase M t (ce_file_key e)
                        else chm_write M t (ce_file_key e) blocks')
              in Some (l', t'))"

partial_function (option) evict_loop ::
  "('b, 't) file_map \<Rightarrow> 'b block_map \<Rightarrow> bytes option \<Rightarrow> cache_entry \<Rightarrow> lru \<times> 't \<Rightarrow> (lru \<times> 't) option" where
  "evict_loop M B held key lt =
     (if lr_cap (fst lt) < lr_cur_size (fst lt) + ce_data_size key then do {
        last \<leftarrow> get_prev (lr_tail (fst lt)) (fst lt);
        n \<leftarrow> lr_heap (fst lt) last;
        lt' \<leftarrow> delete_entry_from_cache M B held (nd_key n) lt;
        let l = fst lt';
        l' \<leftarrow> deletenode last (l\<lparr>lr_m := (lr_m l)(ce_key (nd_key n) := None)\<rparr>);
        evict_loop M B held key (l', snd lt')
      }
      else Some lt)"

definition lru_set ::
  "('b, 't) file_map \<Rightarrow> 'b block_map \<Rightarrow> bytes option \<Rightarrow> cache_entry \<Rightarrow> lru \<times> 't \<Rightarrow> (lru \<times> 't) option" where
  "lru_set M B held key = (\<lambda>(l, t). do {
     l \<leftarrow> (case lr_m l (ce_key key) of
             None \<Rightarrow> Some l
           | Some exist \<Rightarrow> deletenode exist (l\<lparr>lr_m := (lr_m l)(ce_key key := None)\<rparr>));
     (l, t) \<leftarrow> evict_loop M B held key (l, t);
     let (a, l) = new_node key l;
     l \<leftarrow> addnode a l;
     first \<leftarrow> get_next (lr_head l) l;
     Some (l\<lparr>lr_m := (lr_m l)(ce_key key \<mapsto> first)\<rparr>, t)
   })"

section \<open>The list behind the pointers\<close>

text \<open>
  \<open>linked l qs\<close>: the addresses \<open>qs\<close> follow each other through \<open>next\<close>, and back through \<open>prev\<close>.
  \<open>list_ok l ps\<close>: the nodes between the sentinels are \<open>ps\<close>, there are no other nodes, and nothing was
  ever stored in the \<open>prev\<close> field of the head.
\<close>

fun linked :: "lru \<Rightarrow> addr list \<Rightarrow> bool" where
  "linked l (a # b # qs) \<longleftrightarrow> get_next a l = Some b \<and> get_prev b l = Some a \<and> linked l (b # qs)"
| "linked l _ \<longleftrightarrow> True"

definition list_ok :: "lru \<Rightarrow> addr list \<Rightarrow> bool" where
  "list_ok l ps \<longleftrightarrow>
     distinct (lr_head l # ps @ [lr_tail l]) \<and> linked l (lr_head l # ps @ [lr_tail l]) \<and>
     dom (lr_heap l) = set (lr_head l # ps @ [lr_tail l]) \<and> (\<forall>a \<in> dom (lr_heap l). a < lr_fresh l) \<and>
     get_prev (lr_head l) l = None"

definition entry_at :: "lru \<Rightarrow> addr \<Rightarrow> cache_entry" where
  "entry_at l a = nd_key (the (lr_heap l a))"

abbreviation entries :: "lru \<Rightarrow> addr list \<Rightarrow> cache_entry list" where
  "entries l ps \<equiv> map (entry_at l) ps"

lemma linked_append: "linked l (xs @ a # ys) \<longleftrightarrow> linked l (xs @ [a]) \<and> linked l (a # ys)"
proof (induction xs)
  case (Cons x xs)
  then show ?case by (cases xs) auto
qed simp

lemma linked_cong:
  assumes "\<forall>a \<in> set (butlast qs). get_next a l' = get_next a l"
    and "\<forall>a \<in> set (tl qs). get_prev a l' = get_prev a l"
  shows "linked l' qs \<longleftrightarrow> linked l qs"
  using assms by (induction l qs rule: linked.induct) auto

lemma linked_last: "linked l (xs @ [a, b]) \<longleftrightarrow> linked l (xs @ [a]) \<and> get_next a l = Some b \<and> get_prev b l = Some a"
  using linked_append [of l xs a "[b]"] by simp

lemma get_upd [simp]:
  "get_next a (l\<lparr>lr_cur_size := s\<rparr>) = get_next a l" "get_prev a (l\<lparr>lr_cur_size := s\<rparr>) = get_prev a l"
  "get_next a (l\<lparr>lr_m := m\<rparr>) = get_next a l" "get_prev a (l\<lparr>lr_m := m\<rparr>) = get_prev a l"
  "get_next a (l\<lparr>lr_evictions := v\<rparr>) = get_next a l" "get_prev a (l\<lparr>lr_evictions := v\<rparr>) = get_prev a l"
  by (simp_all add: get_next_def get_prev_def)

lemma entry_at_upd [simp]:
  "entry_at (l\<lparr>lr_cur_size := s\<rparr>) = entry_at l" "entry_at (l\<lparr>lr_m := m\<rparr>) = entry_at l"
  "entry_at (l\<lparr>lr_evictions := v\<rparr>) = entry_at l"
  by (simp_all add: entry_at_def fun_eq_iff)

lemma linked_upd [simp]:
  "linked (l\<lparr>lr_cur_size := s\<rparr>) qs = linked l qs" "linked (l\<lparr>lr_m := m\<rparr>) qs = linked l qs"
  "linked (l\<lparr>lr_evictions := v\<rparr>) qs = linked l qs"
  by (rule linked_cong; simp)+

lemma list_ok_upd [simp]:
  "list_ok (l\<lparr>lr_cur_size := s\<rparr>) ps = list_ok l ps" "list_ok (l\<lparr>lr_m := m\<rparr>) ps = list_ok l ps"
  "list_ok (l\<lparr>lr_evictions := v\<rparr>) ps = list_ok l ps"
  by (simp_all add: list_ok_def)

text \<open>Removing a node joins its neighbours.\<close>

lemma linked_remove:
  assumes "linked l (bx @ a # p # b # ty)" and "distinct (bx @ a # p # b # ty)"
    and "\<forall>x. x \<noteq> p \<longrightarrow> get_next x l' = (if x = a then Some b else get_next x l)"
    and "\<forall>x. x \<noteq> p \<longrightarrow> get_prev x l' = (if x = b then Some a else get_prev x l)"
  shows "linked l' (bx @ a # b # ty)"
proof -
  have "linked l (bx @ [a])" "linked l (b # ty)"
    using linked_append [THEN iffD1, OF assms(1)] by simp_all
  moreover have "linked l' (bx @ [a]) = linked l (bx @ [a])"
  proof (rule linked_cong)
    show "\<forall>x \<in> set (butlast (bx @ [a])). get_next x l' = get_next x l" using assms(2,3) by auto
    have "\<forall>x \<in> set (bx @ [a]). get_prev x l' = get_prev x l" using assms(2,4) by auto
    then show "\<forall>x \<in> set (tl (bx @ [a])). get_prev x l' = get_prev x l"
      by (metis list.set_sel(2) snoc_eq_iff_butlast)
  qed
  moreover have "linked l' (b # ty) = linked l (b # ty)"
  proof (rule linked_cong)
    show "\<forall>x \<in> set (tl (b # ty)). get_prev x l' = get_prev x l" using assms(2,4) by auto
    have "\<forall>x \<in> set (b # ty). get_next x l' = get_next x l" using assms(2,3) by auto
    then show "\<forall>x \<in> set (butlast (b # ty)). get_next x l' = get_next x l" by (metis in_set_butlastD)
  qed
  ultimately show ?thesis using assms(2-4) by (intro linked_append [THEN iffD2]) auto
qed

lemma neighbours:
  obtains bx a b ty where "x # xs = bx @ [a]" "ys @ [y] = b # ty"
proof -
  obtain bx a where "x # xs = bx @ [a]" by (cases "x # xs" rule: rev_cases) auto
  moreover obtain b ty where "ys @ [y] = b # ty" by (cases "ys @ [y]") auto
  ultimately show thesis by (rule that)
qed

lemma deletenode_eq:
  assumes "lr_heap l p = Some n" "nd_next n = Some b" "nd_prev n = Some a"
    and "lr_heap l a = Some na" "lr_heap l b = Some nb" "a \<noteq> b"
  shows "deletenode p l = Some (l\<lparr>lr_cur_size := lr_cur_size l - ce_data_size (nd_key n),
    lr_heap := (lr_heap l)(b \<mapsto> nb\<lparr>nd_prev := Some a\<rparr>, a \<mapsto> na\<lparr>nd_next := Some b\<rparr>, p := None)\<rparr>)"
  using assms by (simp add: deletenode_def get_next_def get_prev_def set_next_def set_prev_def free_node_def)

lemma deletenode_ok:
  assumes ok: "list_ok l (xs @ p # ys)"
  shows "\<exists>l'. deletenode p l = Some l' \<and> list_ok l' (xs @ ys) \<and>
    entries l' (xs @ ys) = entries l (xs @ ys) \<and>
    lr_cur_size l' = lr_cur_size l - ce_data_size (entry_at l p) \<and>
    (\<exists>h c. l' = l\<lparr>lr_cur_size := c, lr_heap := h\<rparr>)"
proof -
  obtain bx a b ty where ab: "lr_head l # xs = bx @ [a]" "ys @ [lr_tail l] = b # ty" by (rule neighbours)
  then have q: "lr_head l # (xs @ p # ys) @ [lr_tail l] = bx @ a # p # b # ty"
    and q': "lr_head l # (xs @ ys) @ [lr_tail l] = bx @ a # b # ty"
    by (simp_all add: append_Cons [symmetric] del: append_Cons) simp_all
  note ok' = ok [unfolded list_ok_def q]
  then have d: "distinct (bx @ a # p # b # ty)" and lk: "linked l (bx @ a # p # b # ty)"
    and dom: "dom (lr_heap l) = set (bx @ a # p # b # ty)" by simp_all
  obtain n na nb where n: "lr_heap l p = Some n" "lr_heap l a = Some na" "lr_heap l b = Some nb"
    using dom by (metis domD in_set_conv_decomp list.set_intros set_append UnCI)
  have nbs: "nd_next n = Some b" "nd_prev n = Some a"
    using linked_append [THEN iffD1, OF lk] n by (simp_all add: get_next_def get_prev_def)
  let ?l = "l\<lparr>lr_cur_size := lr_cur_size l - ce_data_size (nd_key n),
    lr_heap := (lr_heap l)(b \<mapsto> nb\<lparr>nd_prev := Some a\<rparr>, a \<mapsto> na\<lparr>nd_next := Some b\<rparr>, p := None)\<rparr>"
  have del: "deletenode p l = Some ?l"
    using n nbs d by (intro deletenode_eq) auto
  have "p \<notin> set (xs @ ys)" using ok by (simp add: list_ok_def)
  then have ent: "entries ?l (xs @ ys) = entries l (xs @ ys)" using n by (auto simp: entry_at_def)
  have "linked ?l (bx @ a # b # ty)"
    using d n by (intro linked_remove [OF lk]) (auto simp: get_next_def get_prev_def)
  moreover have "dom (lr_heap ?l) = set (bx @ a # b # ty)" using dom d by auto
  moreover have "get_prev (lr_head l) ?l = None"
  proof -
    have "get_prev (lr_head l) l = None" using ok by (simp add: list_ok_def)
    moreover have "lr_head l \<in> set (bx @ [a])" by (simp add: ab(1) [symmetric])
    then have "lr_head l \<noteq> b" using d by auto
    ultimately show ?thesis using n by (auto simp: get_prev_def)
  qed
  moreover have "\<forall>c \<in> set (bx @ a # b # ty). c < lr_fresh l" using ok dom by (simp add: list_ok_def)
  ultimately have "list_ok ?l (xs @ ys)" using d q' unfolding list_ok_def by simp
  then show ?thesis using del n ent by (intro exI [of _ ?l]) (auto simp: entry_at_def)
qed

text \<open>The sentinel has no predecessor, so removing it is not defined.\<close>

lemma deletenode_head: "list_ok l ps \<Longrightarrow> deletenode (lr_head l) l = None"
  by (cases "lr_heap l (lr_head l)") (auto simp: list_ok_def deletenode_def Let_def split: bind_splits)

text \<open>A new node becomes the first one.\<close>

definition push_node :: "cache_entry \<Rightarrow> lru \<Rightarrow> lru option" where
  "push_node e l = (let (a, l) = new_node e l in addnode a l)"

lemma push_node_ok:
  assumes ok: "list_ok l ps"
  shows "\<exists>l'. push_node e l = Some l' \<and> list_ok l' (lr_fresh l # ps) \<and>
    get_next (lr_head l') l' = Some (lr_fresh l) \<and>
    entries l' (lr_fresh l # ps) = e # entries l ps \<and> lr_cur_size l' = lr_cur_size l + ce_data_size e \<and>
    (\<exists>h c f. l' = l\<lparr>lr_cur_size := c, lr_heap := h, lr_fresh := f\<rparr>)"
proof -
  let ?a = "lr_fresh l" and ?h = "lr_head l"
  obtain b ty where b: "ps @ [lr_tail l] = b # ty" by (cases "ps @ [lr_tail l]") auto
  note ok' = ok [unfolded list_ok_def b]
  have fresh: "?a \<notin> set (?h # b # ty)" using ok' by (metis less_irrefl)
  have "?h \<in> dom (lr_heap l)" "b \<in> dom (lr_heap l)" using ok' by auto
  then obtain nh nb where n: "lr_heap l ?h = Some nh" "lr_heap l b = Some nb" by blast
  have nx: "nd_next nh = Some b" and hb: "?h \<noteq> b" using ok' n by (auto simp: get_next_def)
  let ?l = "l\<lparr>lr_cur_size := lr_cur_size l + ce_data_size e,
    lr_heap := (lr_heap l)(?a \<mapsto> \<lparr>nd_key = e, nd_prev = Some ?h, nd_next = Some b\<rparr>,
      ?h \<mapsto> nh\<lparr>nd_next := Some ?a\<rparr>, b \<mapsto> nb\<lparr>nd_prev := Some ?a\<rparr>), lr_fresh := ?a + 1\<rparr>"
  have "push_node e l = Some ?l"
    using n nx hb fresh
    by (simp add: push_node_def new_node_def addnode_def get_next_def set_next_def set_prev_def fun_upd_twist)
  moreover have "linked ?l (b # ty) = linked l (b # ty)"
    using ok' fresh n by (intro linked_cong) (auto simp: get_next_def get_prev_def dest: in_set_butlastD)
  then have "linked ?l (?h # ?a # b # ty)"
    using ok' fresh n hb by (auto simp: get_next_def get_prev_def)
  moreover have "dom (lr_heap ?l) = set (?h # ?a # b # ty)" using ok' by auto
  moreover have "\<forall>c \<in> set (?h # ?a # b # ty). c < lr_fresh ?l" using ok' by (auto simp: less_Suc_eq)
  moreover have "get_prev ?h ?l = None" using ok' hb fresh n by (auto simp: get_prev_def)
  moreover have "entries ?l ps = entries l ps"
  proof -
    have "set ps \<subseteq> set (b # ty)" by (simp only: b [symmetric]) auto
    then have "?a \<notin> set ps" using fresh by auto
    then show ?thesis using n by (auto simp: entry_at_def)
  qed
  ultimately show ?thesis
    using b fresh n hb ok' unfolding list_ok_def
    by (intro exI [of _ ?l]) (auto simp: entry_at_def get_next_def)
qed

section \<open>Least recently used\<close>

text \<open>
  The specification is on the list of entries, most recently used first. \<open>keep n\<close> is the longest
  prefix whose sizes fit into \<open>n\<close> bytes; using an entry moves it to the front and keeps
  of the others what fits into the rest of the budget.
\<close>

definition esize :: "cache_entry \<Rightarrow> nat" where
  "esize e = unat (ce_data_size e)"

definition sizes :: "cache_entry list \<Rightarrow> nat" where
  "sizes es = sum_list (map esize es)"

fun keep :: "nat \<Rightarrow> cache_entry list \<Rightarrow> cache_entry list" where
  "keep n [] = []"
| "keep n (e # es) = (if esize e \<le> n then e # keep (n - esize e) es else [])"

definition others :: "cache_entry \<Rightarrow> cache_entry list \<Rightarrow> cache_entry list" where
  "others e es = filter (\<lambda>x. ce_key x \<noteq> ce_key e) es"

definition touch :: "nat \<Rightarrow> cache_entry \<Rightarrow> cache_entry list \<Rightarrow> cache_entry list" where
  "touch cap e es = e # keep (cap - esize e) (others e es)"

lemma sizes_simps [simp]:
  "sizes [] = 0" "sizes (e # es) = esize e + sizes es" "sizes (es @ fs) = sizes es + sizes fs"
  by (simp_all add: sizes_def)

lemma keep_fits: "sizes es \<le> n \<Longrightarrow> keep n es = es"
  by (induction n es rule: keep.induct) auto

lemma keep_snoc: "n < sizes (es @ [e]) \<Longrightarrow> keep n (es @ [e]) = keep n es"
  by (induction n es rule: keep.induct) auto

lemma sizes_keep: "sizes (keep n es) \<le> n"
  by (induction n es rule: keep.induct) auto

lemma keep_prefix: "keep n es @ drop (length (keep n es)) es = es"
  by (induction n es rule: keep.induct) auto

lemma set_keep: "set (keep n es) \<subseteq> set es"
  by (metis keep_prefix set_append Un_upper1)

lemma keep_maximal: "length (keep n es) < length es \<Longrightarrow> n < sizes (take (Suc (length (keep n es))) es)"
  by (induction n es rule: keep.induct) (auto simp: less_diff_conv2)

lemma distinct_keep: "distinct (map f es) \<Longrightarrow> distinct (map f (keep n es))"
  by (metis distinct_append keep_prefix map_append)

lemma set_others: "set (others e es) = {x \<in> set es. ce_key x \<noteq> ce_key e}"
  by (simp add: others_def)

lemma others_id: "ce_key e \<notin> ce_key ` set es \<Longrightarrow> others e es = es"
  unfolding others_def by (intro filter_True) (metis imageI)

lemma others_simps:
  "others e [] = []" "others e (x # xs) = (if ce_key x = ce_key e then others e xs else x # others e xs)"
  "others e (xs @ ys) = others e xs @ others e ys"
  by (simp_all add: others_def)

lemma distinct_others: "distinct (map f es) \<Longrightarrow> distinct (map f (others e es))"
  by (simp add: others_def distinct_map_filter)

lemma sizes_others: "sizes (others e es) \<le> sizes es"
  by (induction es) (auto simp: others_def)

section \<open>The cached blocks\<close>

definition cached :: "('b, 't) file_map \<Rightarrow> 'b block_map \<Rightarrow> 't \<Rightarrow> ckey \<Rightarrow> bytes option" where
  "cached M B t = (\<lambda>(k, b). Option.bind (chm_find M t k) (\<lambda>blocks. chm_find B blocks b))"

definition without :: "ckey set \<Rightarrow> (ckey \<Rightarrow> bytes option) \<Rightarrow> ckey \<Rightarrow> bytes option" where
  "without X c = (\<lambda>k. if k \<in> X then None else c k)"

lemma without_simps [simp]: "without {} c = c" "without X (without Y c) = without (X \<union> Y) c"
  by (auto simp: without_def)

definition no_new_files :: "('b, 't) file_map \<Rightarrow> 't \<Rightarrow> 't \<Rightarrow> bool" where
  "no_new_files M t t' \<longleftrightarrow> (\<forall>k. chm_find M t k = None \<longrightarrow> chm_find M t' k = None)"

lemma no_new_files_refl [simp]: "no_new_files M t t"
  by (simp add: no_new_files_def)

lemma no_new_files_trans: "no_new_files M t t' \<Longrightarrow> no_new_files M t' t'' \<Longrightarrow> no_new_files M t t''"
  by (simp add: no_new_files_def)

lemma delete_entry_ok:
  assumes M: "chmap_ok M" and B: "chmap_ok B" and "held \<noteq> Some (ce_file_key e)"
  shows "\<exists>v t'. delete_entry_from_cache M B held e (l, t) = Some (l\<lparr>lr_evictions := v\<rparr>, t') \<and>
    cached M B t' = without {ce_key e} (cached M B t) \<and> no_new_files M t t'"
proof (cases "chm_find M t (ce_file_key e)")
  case None
  then show ?thesis
    by (intro exI [of _ "lr_evictions l"] exI [of _ t])
      (auto simp: delete_entry_from_cache_def without_def cached_def ce_key_def)
next
  case (Some blocks)
  let ?b = "chm_erase B blocks (ce_block_id e)"
  let ?v = "lr_evictions (if chm_find B blocks (ce_block_id e) \<noteq> None then l\<lparr>lr_evictions := lr_evictions l + 1\<rparr> else l)"
  have eq: "without {ce_key e} (cached M B t) (k, b) =
      (if k = ce_file_key e then chm_find B ?b b else cached M B t (k, b))" for k b
    using Some by (auto simp: without_def cached_def ce_key_def chmap_find_erase [OF B])
  show ?thesis
  proof (cases "chm_size B ?b = 0")
    case True
    then have none: "chm_find B ?b = Map.empty" by (simp add: chmap_size_0 [OF B])
    have "cached M B (chm_erase M t (ce_file_key e)) (k, b) = without {ce_key e} (cached M B t) (k, b)" for k b
      unfolding eq none by (simp add: cached_def chmap_find_erase [OF M])
    then have "cached M B (chm_erase M t (ce_file_key e)) = without {ce_key e} (cached M B t)" by auto
    with True Some assms(3) show ?thesis
      by (intro exI [of _ ?v] exI [of _ "chm_erase M t (ce_file_key e)"])
        (auto simp: delete_entry_from_cache_def no_new_files_def chmap_find_erase [OF M])
  next
    case False
    have "cached M B (chm_write M t (ce_file_key e) ?b) (k, b) = without {ce_key e} (cached M B t) (k, b)" for k b
      unfolding eq using Some by (simp add: cached_def chmap_find_write [OF M])
    then have "cached M B (chm_write M t (ce_file_key e) ?b) = without {ce_key e} (cached M B t)" by auto
    with False Some assms(3) show ?thesis
      by (intro exI [of _ ?v] exI [of _ "chm_write M t (ce_file_key e) ?b"])
        (auto simp: delete_entry_from_cache_def no_new_files_def chmap_find_write [OF M])
  qed
qed

section \<open>The pointer program implements the specification\<close>

definition lru_rep :: "lru \<Rightarrow> cache_entry list \<Rightarrow> bool" where
  "lru_rep l es \<longleftrightarrow> (\<exists>ps. list_ok l ps \<and> entries l ps = es \<and> distinct (map ce_key es) \<and>
     lr_m l = map_of (zip (map ce_key es) ps) \<and> lr_cur_size l = of_nat (sizes es))"

definition lru_inv :: "lru \<Rightarrow> cache_entry list \<Rightarrow> bool" where
  "lru_inv l es \<longleftrightarrow> lru_rep l es \<and> sizes es \<le> unat (lr_cap l)"

lemma map_of_zip_remove:
  assumes "distinct (ks @ k # ks')" "length ks = length ps" "length ks' = length ps'"
  shows "(map_of (zip (ks @ k # ks') (ps @ p # ps')))(k := None) = map_of (zip (ks @ ks') (ps @ ps'))"
proof -
  have "map_of (zip ks ps) k = None" "map_of (zip ks' ps') k = None" using assms by simp_all
  then show ?thesis using assms(2,3) by (intro ext) (auto simp add: map_add_def simp del: map_of_zip_is_None split: option.splits)
qed

lemma map_of_zip_middle:
  assumes "distinct (ks @ k # ks')" "length ks = length ps"
  shows "map_of (zip (ks @ k # ks') (ps @ p # ps')) k = Some p"
proof -
  have "map_of (zip ks ps) k = None" using assms by simp
  then show ?thesis using assms(2) by (simp add: map_add_def del: map_of_zip_is_None)
qed

lemma lru_new: "lru_inv (LRUCache cap) []"
  by (auto simp: lru_inv_def lru_rep_def list_ok_def LRUCache_def get_next_def get_prev_def)

text \<open>Removing one entry, wherever it is in the list.\<close>

lemma remove_entry:
  assumes "lru_rep l (xs @ e # ys)"
  shows "\<exists>p l'. lr_m l (ce_key e) = Some p \<and>
    deletenode p (l\<lparr>lr_m := (lr_m l)(ce_key e := None)\<rparr>) = Some l' \<and> lru_rep l' (xs @ ys) \<and>
    lr_cap l' = lr_cap l \<and> (ys = [] \<longrightarrow> get_prev (lr_tail l) l = Some p \<and> map_option nd_key (lr_heap l p) = Some e)"
proof -
  from assms obtain ps where ps: "list_ok l ps" "entries l ps = xs @ e # ys"
    "distinct (map ce_key (xs @ e # ys))" "lr_m l = map_of (zip (map ce_key (xs @ e # ys)) ps)"
    "lr_cur_size l = of_nat (sizes (xs @ e # ys))" by (auto simp: lru_rep_def)
  from ps(2) obtain as p bs where sp: "ps = as @ p # bs" "entries l as = xs" "entry_at l p = e" "entries l bs = ys"
    by (auto simp: map_eq_append_conv map_eq_Cons_conv)
  let ?l = "l\<lparr>lr_m := (lr_m l)(ce_key e := None)\<rparr>"
  have len: "length (map ce_key xs) = length as" "length (map ce_key ys) = length bs" using sp by auto
  obtain l' where l': "deletenode p ?l = Some l'" "list_ok l' (as @ bs)" "entries l' (as @ bs) = entries l (as @ bs)"
      "lr_cur_size l' = lr_cur_size l - ce_data_size e" "lr_m l' = lr_m ?l" "lr_cap l' = lr_cap l"
    using deletenode_ok [of ?l as p bs] ps(1) sp by fastforce
  have "lr_m l (ce_key e) = Some p"
    using map_of_zip_middle [of "map ce_key xs" "ce_key e" "map ce_key ys" as p bs] ps(3,4) sp(1) len by simp
  moreover have "lr_m l' = map_of (zip (map ce_key (xs @ ys)) (as @ bs))"
    using map_of_zip_remove [of "map ce_key xs" "ce_key e" "map ce_key ys" as bs p] ps(3,4) sp(1) len l'(5) by simp
  then have "lru_rep l' (xs @ ys)"
    using l' ps sp by (auto simp: lru_rep_def esize_def intro!: exI [of _ "as @ bs"])
  moreover have "ys = [] \<Longrightarrow> get_prev (lr_tail l) l = Some p"
  proof -
    assume "ys = []"
    then have "linked l ((lr_head l # as) @ [p, lr_tail l])" using ps(1) sp by (simp add: list_ok_def)
    then show "get_prev (lr_tail l) l = Some p" unfolding linked_last by simp
  qed
  moreover have "map_option nd_key (lr_heap l p) = Some e"
    using ps(1) sp by (auto simp: list_ok_def entry_at_def)
  ultimately show ?thesis using l' by auto
qed

text \<open>The eviction loop keeps the longest prefix that leaves room for the new entry.\<close>

lemma unat_room:
  assumes "s + unat w < 2 ^ 32"
  shows "(cap :: u32) < of_nat s + w \<longleftrightarrow> unat cap < s + unat w"
proof -
  have "unat (of_nat s + w :: u32) = s + unat w"
    using assms by (simp add: unat_word_ariths unat_of_nat)
  then show ?thesis by (simp add: word_less_nat_alt)
qed

lemma room_iff:
  assumes "s + esize key < 2 ^ 32" "esize key \<le> unat cap"
  shows "cap < of_nat s + ce_data_size key \<longleftrightarrow> unat cap - esize key < s"
  using unat_room [of s "ce_data_size key" cap] assms unfolding esize_def by linarith

lemma evict_loop_ok:
  assumes M: "chmap_ok M" and B: "chmap_ok B" and "lru_rep l es"
    and "sizes es + esize key < 2 ^ 32" and "esize key \<le> unat (lr_cap l)"
    and "\<forall>e \<in> set (drop (length (keep (unat (lr_cap l) - esize key) es)) es). held \<noteq> Some (ce_file_key e)"
  shows "\<exists>l' t'. evict_loop M B held key (l, t) = Some (l', t') \<and> lr_cap l' = lr_cap l \<and>
    no_new_files M t t' \<and> (esize key + sizes es \<le> unat (lr_cap l) \<longrightarrow> t' = t) \<and>
    (let kept = keep (unat (lr_cap l) - esize key) es in lru_rep l' kept \<and>
     cached M B t' = without (ce_key ` set (drop (length kept) es)) (cached M B t))"
  using assms(3-)
proof (induction es arbitrary: l t rule: rev_induct)
  case Nil
  then have "\<not> lr_cap l < lr_cur_size l + ce_data_size key"
    using unat_room [of 0 "ce_data_size key"] by (auto simp: lru_rep_def esize_def)
  with Nil show ?case by (simp add: evict_loop.simps)
next
  case (snoc e es)
  have cur: "lr_cur_size l = of_nat (sizes (es @ [e]))" using snoc.prems(1) by (auto simp: lru_rep_def)
  have room: "lr_cap l < lr_cur_size l + ce_data_size key \<longleftrightarrow> unat (lr_cap l) - esize key < sizes (es @ [e])"
    unfolding cur using snoc.prems(2,3) by (rule room_iff)
  show ?case
  proof (cases "unat (lr_cap l) - esize key < sizes (es @ [e])")
    case False
    then have "keep (unat (lr_cap l) - esize key) (es @ [e]) = es @ [e]" by (simp add: keep_fits)
    then show ?thesis using False room snoc.prems(1) by (simp add: evict_loop.simps)
  next
    case True
    let ?n = "unat (lr_cap l) - esize key"
    have "length (keep ?n es) \<le> length es" by (metis keep_prefix length_append le_add1)
    then have dropped: "drop (length (keep ?n (es @ [e]))) (es @ [e]) = drop (length (keep ?n es)) es @ [e]"
      by (simp add: keep_snoc [OF True])
    from remove_entry [OF snoc.prems(1)] obtain p n where p: "get_prev (lr_tail l) l = Some p"
      "lr_heap l p = Some n" "nd_key n = e" by auto
    obtain v t1 where d: "delete_entry_from_cache M B held e (l, t) = Some (l\<lparr>lr_evictions := v\<rparr>, t1)"
      "cached M B t1 = without {ce_key e} (cached M B t)" "no_new_files M t t1"
      using delete_entry_ok [OF M B, of held e l t] snoc.prems(4) unfolding dropped by auto
    have "lru_rep (l\<lparr>lr_evictions := v\<rparr>) (es @ [e])" using snoc.prems(1) by (simp add: lru_rep_def)
    from remove_entry [OF this] obtain q l2 where "get_prev (lr_tail l) l = Some q" and l2:
      "deletenode q (l\<lparr>lr_evictions := v, lr_m := (lr_m l)(ce_key e := None)\<rparr>) = Some l2"
      "lru_rep l2 es" "lr_cap l2 = lr_cap l" by auto
    then have q: "q = p" using p(1) by simp
    have step: "evict_loop M B held key (l, t) = evict_loop M B held key (l2, t1)"
      using True room p d l2(1) [unfolded q] by (subst evict_loop.simps) simp
    have "\<forall>x \<in> set (drop (length (keep ?n es)) es). held \<noteq> Some (ce_file_key x)"
      using snoc.prems(4) unfolding dropped by simp
    with snoc.IH [of l2 t1] snoc.prems(2,3) l2 obtain l' t' where l':
      "evict_loop M B held key (l2, t1) = Some (l', t')" "lr_cap l' = lr_cap l" "lru_rep l' (keep ?n es)"
      "no_new_files M t1 t'"
      "cached M B t' = without (ce_key ` set (drop (length (keep ?n es)) es)) (cached M B t1)"
      by (auto simp: Let_def)
    moreover have "no_new_files M t t'" using d(3) l'(4) by (rule no_new_files_trans)
    moreover have "\<not> esize key + sizes (es @ [e]) \<le> unat (lr_cap l)" using True by linarith
    ultimately show ?thesis
      using step d(2) dropped by (simp add: Let_def keep_snoc [OF True] insert_commute del: drop_append sizes_simps)
  qed
qed

text \<open>Pushing the new entry and recording its node.\<close>

lemma push_entry:
  assumes "lru_rep l es" "ce_key e \<notin> ce_key ` set es"
  shows "\<exists>l' a. push_node e l = Some l' \<and> get_next (lr_head l') l' = Some a \<and>
    lru_rep (l'\<lparr>lr_m := (lr_m l')(ce_key e \<mapsto> a)\<rparr>) (e # es) \<and> lr_cap l' = lr_cap l"
proof -
  from assms(1) obtain ps where ps: "list_ok l ps" "entries l ps = es" "distinct (map ce_key es)"
    "lr_m l = map_of (zip (map ce_key es) ps)" "lr_cur_size l = of_nat (sizes es)" by (auto simp: lru_rep_def)
  from push_node_ok [OF ps(1), of e] obtain l' where l': "push_node e l = Some l'" "list_ok l' (lr_fresh l # ps)"
    "get_next (lr_head l') l' = Some (lr_fresh l)" "entries l' (lr_fresh l # ps) = e # es"
    "lr_cur_size l' = of_nat (sizes es) + ce_data_size e" "lr_m l' = lr_m l" "lr_cap l' = lr_cap l"
    using ps by auto
  have "lru_rep (l'\<lparr>lr_m := (lr_m l')(ce_key e \<mapsto> lr_fresh l)\<rparr>) (e # es)"
    using l' ps assms(2) by (auto simp: lru_rep_def esize_def intro!: exI [of _ "lr_fresh l # ps"])
  then show ?thesis using l' by auto
qed

text \<open>An entry that is in the list is taken out first.\<close>

lemma remove_known:
  assumes "lru_rep l es"
  shows "\<exists>l'. (case lr_m l (ce_key e) of None \<Rightarrow> Some l
      | Some p \<Rightarrow> deletenode p (l\<lparr>lr_m := (lr_m l)(ce_key e := None)\<rparr>)) = Some l' \<and>
    lru_rep l' (others e es) \<and> lr_cap l' = lr_cap l"
proof (cases "ce_key e \<in> ce_key ` set es")
  case False
  then have "others e es = es" by (rule others_id)
  moreover have "lr_m l (ce_key e) = None" using assms False by (auto simp: lru_rep_def)
  ultimately show ?thesis using assms by simp
next
  case True
  then obtain x where x: "x \<in> set es" "ce_key x = ce_key e" by auto
  then obtain xs ys where es: "es = xs @ x # ys" by (meson split_list)
  moreover have "distinct (map ce_key es)" using assms by (auto simp: lru_rep_def)
  ultimately have "others e es = xs @ ys"
    using x(2) by (simp add: others_simps others_id)
  with remove_entry [of l xs x ys] assms es x show ?thesis by auto
qed

text \<open>
  \<^verbatim>\<open>LRUCache::set\<close> on pointers is \<open>touch\<close> on the list. The hypotheses: the entry fits into the cache,
  the sum of sizes does not wrap at 32 bits, and none of the evicted entries belongs to a file the caller
  has locked.
\<close>

lemma lru_set_spec:
  assumes "chmap_ok M" "chmap_ok B" "lru_inv l es" "esize e \<le> unat (lr_cap l)"
    and "unat (lr_cap l) + esize e < 2 ^ 32"
    and "\<forall>x \<in> set (others e es) - set (touch (unat (lr_cap l)) e es). held \<noteq> Some (ce_file_key x)"
  shows "\<exists>l' t'. lru_set M B held e (l, t) = Some (l', t') \<and> lru_inv l' (touch (unat (lr_cap l)) e es) \<and>
    lr_cap l' = lr_cap l \<and>
    cached M B t' = without (ce_key ` (set (others e es) - set (touch (unat (lr_cap l)) e es))) (cached M B t) \<and>
    no_new_files M t t' \<and> (esize e + sizes (others e es) \<le> unat (lr_cap l) \<longrightarrow> t' = t)"
proof -
  let ?n = "unat (lr_cap l) - esize e" and ?os = "others e es"
  have rep: "lru_rep l es" and le: "sizes es \<le> unat (lr_cap l)" using assms(3) by (simp_all add: lru_inv_def)
  then have "distinct ?os" using distinct_others [of ce_key es e] by (auto simp: lru_rep_def distinct_map)
  then have "distinct (keep ?n ?os @ drop (length (keep ?n ?os)) ?os)" by (simp only: keep_prefix)
  then have dropped: "set (drop (length (keep ?n ?os)) ?os) = set ?os - set (touch (unat (lr_cap l)) e es)"
    using keep_prefix [of ?n ?os] set_append [of "keep ?n ?os" "drop (length (keep ?n ?os)) ?os"]
    by (auto simp: touch_def others_def)
  obtain l1 where l1: "(case lr_m l (ce_key e) of None \<Rightarrow> Some l
      | Some p \<Rightarrow> deletenode p (l\<lparr>lr_m := (lr_m l)(ce_key e := None)\<rparr>)) = Some l1"
      "lru_rep l1 ?os" "lr_cap l1 = lr_cap l"
    using remove_known [OF rep] by blast
  have "sizes ?os + esize e < 2 ^ 32" using sizes_others [of e es] le assms(5) by linarith
  from evict_loop_ok [OF assms(1,2) l1(2) this, of held t] assms(4,6) l1(3) dropped
  obtain l2 t2 where l2: "evict_loop M B held e (l1, t) = Some (l2, t2)" "lr_cap l2 = lr_cap l"
      "lru_rep l2 (keep ?n ?os)"
      "cached M B t2 = without (ce_key ` (set ?os - set (touch (unat (lr_cap l)) e es))) (cached M B t)"
      "no_new_files M t t2" "esize e + sizes ?os \<le> unat (lr_cap l) \<longrightarrow> t2 = t"
    by (auto simp: Let_def)
  have "ce_key e \<notin> ce_key ` set (keep ?n ?os)" using set_keep [of ?n ?os] by (auto simp: set_others)
  from push_entry [OF l2(3) this] obtain l3 a where l3: "push_node e l2 = Some l3"
      "get_next (lr_head l3) l3 = Some a" "lru_rep (l3\<lparr>lr_m := (lr_m l3)(ce_key e \<mapsto> a)\<rparr>) (e # keep ?n ?os)"
      "lr_cap l3 = lr_cap l" using l2(2) by auto
  have "lru_set M B held e (l, t) = Some (l3\<lparr>lr_m := (lr_m l3)(ce_key e \<mapsto> a)\<rparr>, t2)"
    using l1(1) l2(1) l3(1,2) by (simp add: lru_set_def push_node_def new_node_def Let_def)
  then show ?thesis
    using l3 l2(4-6) sizes_keep [of ?n ?os] assms(4) by (auto simp: lru_inv_def touch_def)
qed

text \<open>
  When the new entry is larger than the whole cache, the loop empties the list, goes on with the
  sentinel and is not defined.
\<close>

lemma delete_entry_shape:
  "delete_entry_from_cache M B held e (l, t) = Some lt \<Longrightarrow> \<exists>v t'. lt = (l\<lparr>lr_evictions := v\<rparr>, t')"
proof -
  assume a: "delete_entry_from_cache M B held e (l, t) = Some lt"
  have "\<exists>v. (if c then l\<lparr>lr_evictions := lr_evictions l + 1\<rparr> else l) = l\<lparr>lr_evictions := v\<rparr>" for c
    by (cases c) (auto intro: exI [of _ "lr_evictions l"])
  with a show ?thesis
    by (fastforce simp: delete_entry_from_cache_def Let_def split: option.splits if_split_asm
        intro: exI [of _ "lr_evictions l"])
qed

lemma evict_loop_too_large:
  assumes "lru_rep l es" "sizes es + esize key < 2 ^ 32" "unat (lr_cap l) < esize key"
  shows "evict_loop M B held key (l, t) = None"
  using assms
proof (induction es arbitrary: l t rule: rev_induct)
  case Nil
  then have ok: "list_ok l []" and cur: "lr_cur_size l = 0" by (auto simp: lru_rep_def)
  then have p: "get_prev (lr_tail l) l = Some (lr_head l)" "lr_heap l (lr_head l) \<noteq> None" by (auto simp: list_ok_def)
  then obtain n where n: "lr_heap l (lr_head l) = Some n" by auto
  have big: "lr_cap l < lr_cur_size l + ce_data_size key"
    using Nil.prems(3) cur by (simp add: esize_def word_less_nat_alt)
  show ?case
  proof (cases "delete_entry_from_cache M B held (nd_key n) (l, t)")
    case None
    then show ?thesis using p n big by (subst evict_loop.simps) simp
  next
    case (Some lt)
    then obtain v t' where lt: "lt = (l\<lparr>lr_evictions := v\<rparr>, t')" by (blast dest: delete_entry_shape)
    have "deletenode (lr_head l) (l\<lparr>lr_evictions := v, lr_m := m\<rparr>) = None" for m
      using deletenode_head [of "l\<lparr>lr_evictions := v, lr_m := m\<rparr>" "[]"] ok by simp
    with Some lt p n big show ?thesis by (subst evict_loop.simps) simp
  qed
next
  case (snoc e es)
  have cur: "lr_cur_size l = of_nat (sizes (es @ [e]))" using snoc.prems(1) by (auto simp: lru_rep_def)
  have big: "lr_cap l < lr_cur_size l + ce_data_size key"
    unfolding cur using unat_room [of "sizes (es @ [e])" "ce_data_size key" "lr_cap l"] snoc.prems(2,3)
    unfolding esize_def by linarith
  from remove_entry [OF snoc.prems(1)] obtain p n where p: "get_prev (lr_tail l) l = Some p"
    "lr_heap l p = Some n" "nd_key n = e" by auto
  show ?case
  proof (cases "delete_entry_from_cache M B held e (l, t)")
    case None
    then show ?thesis using p big by (subst evict_loop.simps) simp
  next
    case (Some lt)
    then obtain v t' where lt: "lt = (l\<lparr>lr_evictions := v\<rparr>, t')" by (blast dest: delete_entry_shape)
    have "lru_rep (l\<lparr>lr_evictions := v\<rparr>) (es @ [e])" using snoc.prems(1) by (simp add: lru_rep_def)
    from remove_entry [OF this] obtain q l2 where "get_prev (lr_tail l) l = Some q" and l2:
      "deletenode q (l\<lparr>lr_evictions := v, lr_m := (lr_m l)(ce_key e := None)\<rparr>) = Some l2"
      "lru_rep l2 es" "lr_cap l2 = lr_cap l" by auto
    then have q: "q = p" using p(1) by simp
    have "evict_loop M B held key (l2, t') = None" using snoc.IH [OF l2(2)] snoc.prems(2,3) l2(3) by simp
    then show ?thesis using Some lt p big l2(1) [unfolded q] by (subst evict_loop.simps) simp
  qed
qed

lemma lru_set_too_large:
  assumes "lru_inv l es" "unat (lr_cap l) < esize e" "unat (lr_cap l) + esize e < 2 ^ 32"
  shows "lru_set M B held e (l, t) = None"
proof -
  have rep: "lru_rep l es" and le: "sizes es \<le> unat (lr_cap l)" using assms(1) by (simp_all add: lru_inv_def)
  obtain l1 where l1: "(case lr_m l (ce_key e) of None \<Rightarrow> Some l
      | Some p \<Rightarrow> deletenode p (l\<lparr>lr_m := (lr_m l)(ce_key e := None)\<rparr>)) = Some l1"
      "lru_rep l1 (others e es)" "lr_cap l1 = lr_cap l"
    using remove_known [OF rep] by blast
  have "sizes (others e es) + esize e < 2 ^ 32" using sizes_others [of e es] le assms(3) by linarith
  then have "evict_loop M B held e (l1, t) = None"
    using evict_loop_too_large [OF l1(2)] assms(2) l1(3) by simp
  then show ?thesis using l1(1) by (simp add: lru_set_def)
qed

section \<open>Caches in the order of use\<close>

text \<open>
  What the block cache relies on, as an interface: an operation that uses an entry, the order of the
  entries and the cached content. A sequence of uses that fits into the budget leaves the entries in the
  reverse order of their use and evicts nothing.
\<close>

locale recency_cache =
  fixes use_entry :: "cache_entry \<Rightarrow> 's \<Rightarrow> 's option"
    and order :: "'s \<Rightarrow> cache_entry list \<Rightarrow> bool"
    and content :: "'s \<Rightarrow> ckey \<Rightarrow> bytes option"
    and cap :: nat
  assumes use_spec: "order s es \<Longrightarrow> esize e \<le> cap \<Longrightarrow>
      \<exists>s'. use_entry e s = Some s' \<and> order s' (touch cap e es) \<and>
        content s' = without (ce_key ` (set (others e es) - set (touch cap e es))) (content s)"
begin

lemma use_fitting:
  assumes "order s es" "esize e + sizes (others e es) \<le> cap"
  shows "\<exists>s'. use_entry e s = Some s' \<and> order s' (e # others e es) \<and> content s' = content s"
proof -
  have "touch cap e es = e # others e es" using assms(2) by (simp add: touch_def keep_fits)
  moreover from this have none: "set (others e es) - set (touch cap e es) = {}" by auto
  have "esize e \<le> cap" using assms(2) by simp
  from use_spec [OF assms(1) this] have "\<exists>s'. use_entry e s = Some s' \<and> order s' (touch cap e es) \<and> content s' = content s"
    unfolding none by simp
  ultimately show ?thesis by simp
qed

lemma uses_in_order:
  assumes "order s es" "distinct (map ce_key (rev fs @ es))" "sizes (rev fs @ es) \<le> cap"
  shows "\<exists>s'. foldl (\<lambda>so e. Option.bind so (use_entry e)) (Some s) fs = Some s' \<and>
    order s' (rev fs @ es) \<and> content s' = content s"
  using assms
proof (induction fs arbitrary: s es)
  case (Cons e fs)
  have "others e es = es" using Cons.prems(2) by (intro others_id) auto
  moreover have "esize e + sizes es \<le> cap" using Cons.prems(3) by simp
  ultimately obtain s' where "use_entry e s = Some s'" "order s' (e # es)" "content s' = content s"
    using use_fitting [OF Cons.prems(1), of e] by auto
  with Cons.IH [of s' "e # es"] Cons.prems show ?case by auto
qed simp

end

lemma lru_is_recency_cache:
  assumes "chmap_ok M" "chmap_ok B" "2 * unat c < 2 ^ 32"
  shows "recency_cache (lru_set M B None) (\<lambda>(l, t) es. lru_inv l es \<and> lr_cap l = c)
    (\<lambda>(l, t). cached M B t) (unat c)"
proof (rule recency_cache.intro, clarify)
  fix l :: lru and t es e
  assume *: "lru_inv l es" "esize e \<le> unat (lr_cap l)" "c = lr_cap l"
  then have "unat (lr_cap l) + esize e < 2 ^ 32" using assms(3) by simp
  from lru_set_spec [OF assms(1,2) *(1,2) this, of None t]
  show "\<exists>s'. lru_set M B None e (l, t) = Some s' \<and>
      (case s' of (l', t) \<Rightarrow> \<lambda>es. lru_inv l' es \<and> lr_cap l' = lr_cap l) (touch (unat (lr_cap l)) e es) \<and>
      (case s' of (l, t) \<Rightarrow> cached M B t) =
        without (ce_key ` (set (others e es) - set (touch (unat (lr_cap l)) e es))) (cached M B t)"
    by auto
qed

locale cache_maps =
  fixes M :: "('b, 't) file_map" and B :: "'b block_map" and c :: u32
  assumes maps_ok: "chmap_ok M" "chmap_ok B" and cap_ok: "2 * unat c < 2 ^ 32"

sublocale cache_maps \<subseteq> lruc: recency_cache "lru_set M B None" "\<lambda>(l, t) es. lru_inv l es \<and> lr_cap l = c"
    "\<lambda>(l, t). cached M B t" "unat c"
  using maps_ok cap_ok by (rule lru_is_recency_cache)

interpretation mem_maps: cache_maps al_chmap al_chmap 8192
  by unfold_locales (simp_all add: al_chmap_ok)

section \<open>Properties\<close>

text \<open>
  C13. The LRU cache. On a list that represents the entries \<open>es\<close>, most recently used first and within the
  budget, setting an entry that fits into the cache runs without touching a freed or
  uninitialised pointer. Afterwards the list has that entry first and then the longest prefix of the
  other entries, in their order, that fits into the rest of the budget; the blocks of exactly
  the other entries are no longer cached. Setting an entry that is larger than the cache is not defined.
\<close>

theorem lru_set_evicts_least_recent:
  fixes l :: lru and e :: cache_entry and es :: "cache_entry list"
  defines "cap \<equiv> unat (lr_cap l)"
  defines "kept \<equiv> keep (cap - esize e) (others e es)"
  assumes "chmap_ok M" "chmap_ok B" "lru_inv l es" "cap + esize e < 2 ^ 32"
  shows "if esize e \<le> cap
    then \<exists>l' t'. lru_set M B None e (l, t) = Some (l', t') \<and> lru_inv l' (e # kept) \<and>
      kept = take (length kept) (others e es) \<and>
      (length kept < length (others e es) \<longrightarrow> cap < esize e + sizes (take (Suc (length kept)) (others e es))) \<and>
      cached M B t' = without (ce_key ` (set (others e es) - set kept)) (cached M B t)
    else lru_set M B None e (l, t) = None"
proof (cases "esize e \<le> cap")
  case True
  have "set (others e es) - set (touch cap e es) = set (others e es) - set kept"
    by (auto simp: touch_def kept_def others_def)
  with lru_set_spec [OF assms(3-5), of e None t] True assms(6)
  obtain l' t' where "lru_set M B None e (l, t) = Some (l', t')" "lru_inv l' (e # kept)"
    "cached M B t' = without (ce_key ` (set (others e es) - set kept)) (cached M B t)"
    by (auto simp: cap_def touch_def kept_def)
  moreover have "kept = take (length kept) (others e es)"
    using keep_prefix [of "cap - esize e" "others e es"] unfolding kept_def by (metis append_eq_conv_conj)
  moreover have "length kept < length (others e es) \<Longrightarrow> cap < esize e + sizes (take (Suc (length kept)) (others e es))"
    using keep_maximal [of "cap - esize e" "others e es"] True unfolding kept_def by linarith
  ultimately show ?thesis using True by auto
next
  case False
  then show ?thesis using lru_set_too_large [OF assms(5), of e] assms(6) by (simp add: cap_def)
qed

definition sample_entry :: "u32 \<Rightarrow> cache_entry" where
  "sample_entry b = \<lparr>ce_file_key = replicate 32 1, ce_block_id = b, ce_data_size = 4096\<rparr>"

theorem lru_set_evicts_least_recent_witness:
  "\<exists>l' t'. lru_set al_chmap al_chmap None (sample_entry 3) (LRUCache 8192, [] :: (bytes \<times> (u32 \<times> bytes) list) list) = Some (l', t') \<and>
     lru_inv l' [sample_entry 3]"
  using lru_set_evicts_least_recent [OF al_chmap_ok al_chmap_ok lru_new [of 8192], of "sample_entry 3" "[]"]
  by (auto simp: LRUCache_def esize_def sample_entry_def others_def)

end
