(* ===== verification/Leveldb_Pack.thy ===== *)
theory Leveldb_Pack
  imports Pack
begin

unbundle bit_operations_syntax

text \<open>
  The packets between a data function and the block servers:
  \<^verbatim>\<open>ssbd/leveldb-serializer.hpp\<close> (the same file as
  \<^verbatim>\<open>functions/libslsfs/slsfs/leveldb-serializer.hpp\<close>), and the database keys made from them.
  The type field is copied in host byte order, unlike the other integers of the header.
\<close>

section \<open>Message types\<close>

datatype lmsg_t =
    L_err | L_ack | L_get
  | Two_pc_prepare | Two_pc_prepare_quick | Two_pc_prepare_agree | Two_pc_prepare_abort
  | Two_pc_commit_execute | Two_pc_commit_rollback | Two_pc_commit_ack
  | Replication

fun lmsg_val :: "lmsg_t \<Rightarrow> u16" where
  "lmsg_val L_err = 0b00000000"
| "lmsg_val L_ack = 0b00000001"
| "lmsg_val L_get = 0b00000010"
| "lmsg_val Two_pc_prepare = 0b00001000"
| "lmsg_val Two_pc_prepare_quick = 0b00001001"
| "lmsg_val Two_pc_prepare_agree = 0b00001010"
| "lmsg_val Two_pc_prepare_abort = 0b00001011"
| "lmsg_val Two_pc_commit_execute = 0b00001100"
| "lmsg_val Two_pc_commit_rollback = 0b00001101"
| "lmsg_val Two_pc_commit_ack = 0b00001110"
| "lmsg_val Replication = 0b00001111"

definition lmsg_list :: "lmsg_t list" where
  "lmsg_list = [L_err, L_ack, L_get, Two_pc_prepare, Two_pc_prepare_quick, Two_pc_prepare_agree,
     Two_pc_prepare_abort, Two_pc_commit_execute, Two_pc_commit_rollback, Two_pc_commit_ack, Replication]"

definition lmsg_of :: "u16 \<Rightarrow> lmsg_t option" where
  "lmsg_of w = List.find (\<lambda>m. lmsg_val m = w) lmsg_list"

fun lmsg_print :: "lmsg_t \<Rightarrow> string" where
  "lmsg_print L_err = ''ERR''"
| "lmsg_print L_ack = ''ACK''"
| "lmsg_print L_get = ''GET''"
| "lmsg_print Two_pc_prepare = ''2PPPR''"
| "lmsg_print Two_pc_prepare_quick = ''2PPRQ''"
| "lmsg_print Two_pc_prepare_agree = ''2PAGR''"
| "lmsg_print Two_pc_prepare_abort = ''2PABO''"
| "lmsg_print Two_pc_commit_execute = ''2CEXE''"
| "lmsg_print Two_pc_commit_rollback = ''2CROL''"
| "lmsg_print Two_pc_commit_ack = ''2CACK''"
| "lmsg_print Replication = ''REPLI''"

definition is_merge_request :: "lmsg_t \<Rightarrow> bool" where
  "is_merge_request m \<longleftrightarrow> (ucast (lmsg_val m) :: u8) AND 0b00001000 \<noteq> 0"

lemma lmsg_of_val [simp]: "lmsg_of (lmsg_val m) = Some m"
  by (cases m) (simp_all add: lmsg_of_def lmsg_list_def)

lemma lmsg_of_Some: "lmsg_of w = Some m \<longleftrightarrow> w = lmsg_val m"
  by (metis (mono_tags, lifting) find_Some_iff lmsg_of_def lmsg_of_val)

lemma lmsg_val_inject [simp]: "lmsg_val m = lmsg_val m' \<longleftrightarrow> m = m'"
  by (metis lmsg_of_val option.inject)

section \<open>Headers\<close>

record lheader =
  lh_type :: u16
  lh_uuid :: bytes
  lh_blockid :: u32
  lh_position :: u16
  lh_datasize :: u32
  lh_version :: u32
  lh_salt :: bytes

definition lbytesize :: nat where
  "lbytesize = 2 + 32 + 4 + 2 + 4 + 4 + 4"

definition wf_lheader :: "lheader \<Rightarrow> bool" where
  "wf_lheader h \<longleftrightarrow> length (lh_uuid h) = 32 \<and> length (lh_salt h) = 4"

definition set_ltype :: "lmsg_t \<Rightarrow> lheader \<Rightarrow> lheader" where
  "set_ltype m h = h\<lparr>lh_type := lmsg_val m\<rparr>"

definition block_key :: "bytes \<Rightarrow> u32 \<Rightarrow> bytes" where
  "block_key uuid blockid = uuid @ to_string (unat blockid)"

definition as_string :: "lheader \<Rightarrow> bytes" where
  "as_string h = block_key (lh_uuid h) (lh_blockid h)"

definition lparse :: "bytes \<Rightarrow> lheader" where
  "lparse pos =
     \<lparr>lh_type = of_mem16 (slice 0 2 pos),
      lh_uuid = slice 2 32 pos,
      lh_blockid = ntoh32 (of_mem32 (slice 34 4 pos)),
      lh_position = ntoh16 (of_mem16 (slice 38 2 pos)),
      lh_datasize = ntoh32 (of_mem32 (slice 40 4 pos)),
      lh_version = ntoh32 (of_mem32 (slice 44 4 pos)),
      lh_salt = slice 48 4 pos\<rparr>"

definition ldump :: "lheader \<Rightarrow> bytes" where
  "ldump h = mem16 (lh_type h) @ lh_uuid h @ mem32 (hton32 (lh_blockid h)) @
     mem16 (hton16 (lh_position h)) @ mem32 (hton32 (lh_datasize h)) @
     mem32 (hton32 (lh_version h)) @ lh_salt h"

text \<open>\<^verbatim>\<open>gen_salt\<close>; the drawn bytes are an argument.\<close>

definition lgen :: "bytes \<Rightarrow> lheader \<Rightarrow> lheader" where
  "lgen drawn h = h\<lparr>lh_salt := drawn\<rparr>"

section \<open>Packets\<close>

record lpacket =
  lp_header :: lheader
  lp_buf :: bytes

text \<open>
  The constructor of \<^verbatim>\<open>packet\<close> and \<^verbatim>\<open>create_request\<close>: the \<^verbatim>\<open>size_t\<close> arguments are cut to the
  widths of the header fields.
\<close>

definition create_request ::
  "bytes \<Rightarrow> bytes \<Rightarrow> lmsg_t \<Rightarrow> u32 \<Rightarrow> u64 \<Rightarrow> u64 \<Rightarrow> u64 \<Rightarrow> lpacket" where
  "create_request drawn name ty ver part location n =
     \<lparr>lp_header = \<lparr>lh_type = lmsg_val ty, lh_uuid = name, lh_blockid = ucast part,
        lh_position = ucast location, lh_datasize = ucast n, lh_version = ver, lh_salt = drawn\<rparr>,
      lp_buf = []\<rparr>"

definition lserialize :: "lpacket \<Rightarrow> (lpacket \<times> bytes) option" where
  "lserialize p =
     (let p' = p\<lparr>lp_header := (lp_header p)\<lparr>lh_datasize := of_nat (length (lp_buf p))\<rparr>\<rparr>
      in if lbytesize + length (lp_buf p) \<le> unat (of_nat lbytesize + lh_datasize (lp_header p'))
         then Some (p', ldump (lp_header p') @ lp_buf p) else None)"

definition serialize_header :: "lpacket \<Rightarrow> bytes" where
  "serialize_header p = ldump (lp_header p)"

section \<open>Hash and comparison\<close>

definition lheader_key_hash :: "lheader \<Rightarrow> u64" where
  "lheader_key_hash h =
     hash_range (hash_range (ucast (0x1b873593 + lh_blockid h)) (lh_uuid h)) (lh_salt h)"

definition lheader_key_compare :: "lheader \<Rightarrow> lheader \<Rightarrow> bool" where
  "lheader_key_compare a b \<longleftrightarrow>
     lh_uuid a = lh_uuid b \<and> lh_blockid a = lh_blockid b \<and> lh_salt a = lh_salt b"

definition job_key :: "lheader \<Rightarrow> bytes \<times> u32 \<times> bytes" where
  "job_key h = (lh_uuid h, lh_blockid h, lh_salt h)"

interpretation lkey_cmp: hash_compare lheader_key_hash lheader_key_compare job_key
  by unfold_locales (auto simp: lheader_key_compare_def lheader_key_hash_def job_key_def)

section \<open>Round trips\<close>

lemma length_ldump: "wf_lheader h \<Longrightarrow> length (ldump h) = lbytesize"
  by (simp add: wf_lheader_def ldump_def lbytesize_def)

lemma lparse_ldump: "wf_lheader h \<Longrightarrow> lparse (ldump h) = h"
  by (cases h) (simp add: wf_lheader_def ldump_def lparse_def slice_def)

lemma ldump_lparse:
  assumes "length bs = lbytesize"
  shows "ldump (lparse bs) = bs"
proof -
  have "ldump (lparse bs) = slice 0 2 bs @ slice 2 32 bs @ slice 34 4 bs @ slice 38 2 bs @
      slice 40 4 bs @ slice 44 4 bs @ slice 48 4 bs"
    using assms by (simp add: ldump_def lparse_def lbytesize_def)
  also have "\<dots> = slice 0 52 bs"
    by (simp add: slice_join slice_join_append)
  also have "\<dots> = bs"
    using assms by (simp add: lbytesize_def)
  finally show ?thesis .
qed

interpretation leveldb_wire: wire_header ldump lparse lbytesize wf_lheader
  by unfold_locales (simp_all add: length_ldump lparse_ldump lbytesize_def)

definition lsized :: "lpacket \<Rightarrow> lheader" where
  "lsized p = (lp_header p)\<lparr>lh_datasize := of_nat (length (lp_buf p))\<rparr>"

lemma lserialize_Some:
  "lbytesize + length (lp_buf p) < 2 ^ 32 \<Longrightarrow>
   lserialize p = Some (p\<lparr>lp_header := lsized p\<rparr>, ldump (lsized p) @ lp_buf p) \<and>
   unat (lh_datasize (lsized p)) = length (lp_buf p)"
  by (simp add: lserialize_def lsized_def lbytesize_def unat_of_nat unat_word_ariths)

section \<open>Database keys\<close>

text \<open>
  The main database stores a block under \<open>as_string\<close> and a replica under \<open>as_string\<close> with
  \<open>''repl''\<close> appended; the log database appends one of three suffixes that start with a dash.
  A suffix that does not start with a digit can be split off again.
\<close>

definition no_digit_head :: "bytes \<Rightarrow> bool" where
  "no_digit_head s \<longleftrightarrow> s = [] \<or> \<not> is_digit (hd s)"

lemma digits_split:
  assumes "list_all is_digit ds" and "list_all is_digit ds'"
    and "no_digit_head s" and "no_digit_head s'" and eq: "ds @ s = ds' @ s'"
  shows "ds = ds' \<and> s = s'"
proof -
  have tw: "takeWhile is_digit (xs @ ys) = xs" if "list_all is_digit xs" "no_digit_head ys" for xs ys
    using that by (induction xs) (cases ys; auto simp: no_digit_head_def)+
  have "ds = takeWhile is_digit (ds @ s)"
    by (simp only: tw [OF assms(1,3)])
  also have "\<dots> = ds'"
    by (simp only: eq tw [OF assms(2,4)])
  finally show ?thesis using eq by simp
qed

lemma block_key_suffix_inject:
  assumes "length u = length u'" and "no_digit_head s" and "no_digit_head s'"
    and "block_key u b @ s = block_key u' b' @ s'"
  shows "u = u' \<and> b = b' \<and> s = s'"
proof -
  from assms(1,4) have "u = u'" and "to_string (unat b) @ s = to_string (unat b') @ s'"
    by (simp_all add: block_key_def)
  with digits_split [OF to_string_digits to_string_digits assms(2,3)]
  show ?thesis by (metis to_string_inject unsigned_word_eqI)
qed

lemma no_digit_head_simps [simp]:
  "no_digit_head []" "no_digit_head (b # bs) \<longleftrightarrow> \<not> is_digit b"
  by (simp_all add: no_digit_head_def)

section \<open>Properties\<close>

text \<open>
  Header codec of the block protocol: 52 bytes, parse and dump are inverse to each other in
  both directions, with the type in host byte order and the other integers in network order.
\<close>

theorem leveldb_header_codec:
  assumes "wf_lheader h" and "length bs = lbytesize"
  shows "length (ldump h) = lbytesize \<and> lparse (ldump h) = h \<and> ldump (lparse bs) = bs"
  using assms by (simp add: length_ldump lparse_ldump ldump_lparse)

definition sample_lheader :: "lmsg_t \<Rightarrow> u32 \<Rightarrow> u16 \<Rightarrow> u32 \<Rightarrow> u32 \<Rightarrow> lheader" where
  "sample_lheader m blk pos n ver = \<lparr>lh_type = lmsg_val m, lh_uuid = replicate 32 65, lh_blockid = blk,
     lh_position = pos, lh_datasize = n, lh_version = ver, lh_salt = [1, 2, 3, 4]\<rparr>"

lemma wf_sample_lheader [simp]: "wf_lheader (sample_lheader m blk pos n ver)"
  by (simp add: wf_lheader_def sample_lheader_def)

theorem leveldb_header_codec_witness:
  "lparse (ldump (sample_lheader L_get 7 258 4096 9)) = sample_lheader L_get 7 258 4096 9"
  using leveldb_header_codec [of "sample_lheader L_get 7 258 4096 9" "replicate 52 0"]
  by (simp add: lbytesize_def)

text \<open>
  Database keys. Two headers name the same block exactly when they agree on uuid and block
  number, and no block key is another one's key with a non-digit suffix appended, so replica keys
  and log keys never collide with block keys.
\<close>

theorem block_keys_distinct:
  assumes "wf_lheader a" and "wf_lheader b"
  shows "(as_string a = as_string b \<longleftrightarrow> lh_uuid a = lh_uuid b \<and> lh_blockid a = lh_blockid b) \<and>
    (s \<noteq> [] \<and> no_digit_head s \<longrightarrow> as_string a @ s \<noteq> as_string b)"
  using assms block_key_suffix_inject [of "lh_uuid a" "lh_uuid b" "[]" "[]" "lh_blockid a" "lh_blockid b"]
    block_key_suffix_inject [of "lh_uuid a" "lh_uuid b" s "[]" "lh_blockid a" "lh_blockid b"]
  by (auto simp: as_string_def wf_lheader_def)

theorem block_keys_distinct_witness:
  "as_string (sample_lheader L_get 1 0 0 0) \<noteq> as_string (sample_lheader L_get 12 0 0 0) \<and>
   as_string (sample_lheader L_get 1 0 0 0) @ str ''repl'' \<noteq> as_string (sample_lheader L_get 1 0 0 0)"
  using block_keys_distinct [of "sample_lheader L_get 1 0 0 0" "sample_lheader L_get 12 0 0 0"]
    block_keys_distinct [of "sample_lheader L_get 1 0 0 0" "sample_lheader L_get 1 0 0 0" "str ''repl''"]
  by (simp add: sample_lheader_def wf_lheader_def is_digit_def)

end
