(* ===== verification/Persistent_Log.thy ===== *)
theory Persistent_Log
  imports Leveldb_Pack External
begin

text \<open>
  \<^verbatim>\<open>ssbd/persistent-log.hpp\<close>: the write-ahead log of a block server, kept in a second LevelDB.
  For a block key it holds the committed version, the pending version and the pending data under
  three keys. The getters repair an unreadable number by storing \<open>0\<close>, so they return the log too.
  \<open>log_abs\<close> is the abstract view of one block's log and the lemmas describe every operation on it;
  \<open>log_keys_disjoint\<close> shows that the three cells of different blocks never overlap.
\<close>

section \<open>Operations\<close>

definition commit_version_key :: "bytes \<Rightarrow> bytes" where
  "commit_version_key key = key @ str ''-committed-version''"

definition version_key :: "bytes \<Rightarrow> bytes" where
  "version_key key = key @ str ''-version''"

definition log_key :: "bytes \<Rightarrow> bytes" where
  "log_key key = key @ str ''-data''"

text \<open>\<^verbatim>\<open>std::string result; db->Get(..., &result)\<close>: empty when the status is not ok.\<close>

definition get_or_empty :: "'db leveldb \<Rightarrow> 'db \<Rightarrow> bytes \<Rightarrow> bytes" where
  "get_or_empty L lg k = (case ldb_Get L lg k of None \<Rightarrow> [] | Some v \<Rightarrow> v)"

definition get_committed_version :: "'db leveldb \<Rightarrow> bytes \<Rightarrow> 'db \<Rightarrow> u32 \<times> 'db" where
  "get_committed_version L key lg =
     (let buffer = get_or_empty L lg (commit_version_key key)
      in if buffer = [] then (0, lg)
         else case stoll buffer of
           Some v \<Rightarrow> (word_of_int v, lg)
         | None \<Rightarrow> (0, ldb_Put L lg (commit_version_key key) (str ''0'')))"

definition put_committed_version :: "'db leveldb \<Rightarrow> bytes \<Rightarrow> u32 \<Rightarrow> 'db \<Rightarrow> 'db" where
  "put_committed_version L key version lg =
     ldb_Put L lg (commit_version_key key) (to_string (unat version))"

definition put_pending_prepare :: "'db leveldb \<Rightarrow> bytes \<Rightarrow> bytes \<Rightarrow> u32 \<Rightarrow> 'db \<Rightarrow> 'db" where
  "put_pending_prepare L key value version lg =
     ldb_Put L (ldb_Put L lg (version_key key) (to_string (unat version))) (log_key key) value"

definition get_pending_prepare_data :: "'db leveldb \<Rightarrow> bytes \<Rightarrow> 'db \<Rightarrow> bytes" where
  "get_pending_prepare_data L key lg = get_or_empty L lg (log_key key)"

definition get_pending_prepare_version :: "'db leveldb \<Rightarrow> bytes \<Rightarrow> 'db \<Rightarrow> u32 \<times> 'db" where
  "get_pending_prepare_version L key lg =
     (let value = get_or_empty L lg (version_key key)
      in if value = [] then (0, lg)
         else case stoll value of
           Some v \<Rightarrow> (word_of_int v, lg)
         | None \<Rightarrow> (0, ldb_Put L lg (version_key key) (str ''0'')))"

text \<open>\<open>save_dest\<close> is the main database; the pair is (log, main database).\<close>

definition commit_pending_prepare :: "'db leveldb \<Rightarrow> bytes \<Rightarrow> 'db \<times> 'db \<Rightarrow> 'db \<times> 'db" where
  "commit_pending_prepare L key s =
     (let (lg, save_dest) = s;
          value = get_pending_prepare_data L key lg;
          (version, lg1) = get_pending_prepare_version L key lg;
          lg2 = put_committed_version L key version lg1
      in (lg2, ldb_Put L save_dest key value))"

definition have_pending_log :: "'db leveldb \<Rightarrow> bytes \<Rightarrow> 'db \<Rightarrow> bool \<times> 'db" where
  "have_pending_log L key lg =
     (let (pending, lg1) = get_pending_prepare_version L key lg;
          (committed, lg2) = get_committed_version L key lg1
      in if pending = committed then (False, lg2)
         else let (pending', lg3) = get_pending_prepare_version L key lg2
              in (pending' \<noteq> 0, lg3))"

section \<open>The cells of the log\<close>

definition is_block_key :: "bytes \<Rightarrow> bool" where
  "is_block_key k \<longleftrightarrow> (\<exists>u b. length u = 32 \<and> k = block_key u b)"

lemma is_block_keyI [intro, simp]: "length u = 32 \<Longrightarrow> is_block_key (block_key u b)"
  by (auto simp: is_block_key_def)

lemma block_key_append_inject:
  assumes "is_block_key k" "is_block_key k'" "no_digit_head s" "no_digit_head s'"
  shows "k @ s = k' @ s' \<longleftrightarrow> k = k' \<and> s = s'"
proof -
  from assms(1,2) obtain u b u' b' where "length u = 32" "k = block_key u b"
    and "length u' = 32" "k' = block_key u' b'"
    by (auto simp: is_block_key_def)
  then show ?thesis
    using block_key_suffix_inject [of u u' s s' b b'] assms(3,4) by auto
qed

lemma dash_no_digit: "\<not> is_digit 45"
  by (simp add: is_digit_def)

text \<open>Equal cells come from the same block and the same kind of cell.\<close>

lemma log_keys_disjoint:
  assumes "is_block_key k" "is_block_key k'"
  shows "commit_version_key k = commit_version_key k' \<longleftrightarrow> k = k'"
    and "version_key k = version_key k' \<longleftrightarrow> k = k'"
    and "log_key k = log_key k' \<longleftrightarrow> k = k'"
    and "commit_version_key k \<noteq> version_key k'"
    and "version_key k \<noteq> commit_version_key k'"
    and "commit_version_key k \<noteq> log_key k'"
    and "log_key k \<noteq> commit_version_key k'"
    and "version_key k \<noteq> log_key k'"
    and "log_key k \<noteq> version_key k'"
  using assms
  by (simp_all add: commit_version_key_def version_key_def log_key_def block_key_append_inject
      dash_no_digit)

section \<open>The abstract log of a block\<close>

record block_log =
  bl_committed :: u32
  bl_pending :: u32
  bl_data :: bytes

definition log_abs :: "'db leveldb \<Rightarrow> 'db \<Rightarrow> bytes \<Rightarrow> block_log" where
  "log_abs L lg key =
     \<lparr>bl_committed = fst (get_committed_version L key lg),
      bl_pending = fst (get_pending_prepare_version L key lg),
      bl_data = get_pending_prepare_data L key lg\<rparr>"

definition pending :: "block_log \<Rightarrow> bool" where
  "pending l \<longleftrightarrow> bl_pending l \<noteq> bl_committed l \<and> bl_pending l \<noteq> 0"

text \<open>A number cell is readable when it is absent, empty or parses; the server writes no others.\<close>

definition readable :: "'db leveldb \<Rightarrow> 'db \<Rightarrow> bytes \<Rightarrow> bool" where
  "readable L lg c \<longleftrightarrow> get_or_empty L lg c = [] \<or> stoll (get_or_empty L lg c) \<noteq> None"

definition log_readable :: "'db leveldb \<Rightarrow> 'db \<Rightarrow> bytes \<Rightarrow> bool" where
  "log_readable L lg key \<longleftrightarrow>
     readable L lg (commit_version_key key) \<and> readable L lg (version_key key)"

lemma get_or_empty_Put:
  "leveldb_ok L \<Longrightarrow> get_or_empty L (ldb_Put L lg k v) k' = (if k' = k then v else get_or_empty L lg k')"
  by (simp add: get_or_empty_def leveldb_get_put)

lemma stoll_version [simp]: "stoll (to_string (unat (v :: u32))) = Some (int (unat v))"
  by (rule stoll_to_string) (rule less_trans [OF unat_u32_less], simp)

lemma word_of_int_unat [simp]: "word_of_int (int (unat (v :: u32))) = v"
  by simp

definition cell_number :: "bytes \<Rightarrow> u32" where
  "cell_number c = (if c = [] then 0 else case stoll c of Some v \<Rightarrow> word_of_int v | None \<Rightarrow> 0)"

lemma fst_get_version:
  "fst (get_committed_version L key lg) = cell_number (get_or_empty L lg (commit_version_key key))"
  "fst (get_pending_prepare_version L key lg) = cell_number (get_or_empty L lg (version_key key))"
  by (simp_all add: get_committed_version_def get_pending_prepare_version_def cell_number_def Let_def
      split: option.splits)

lemma cell_number_version [simp]: "cell_number (to_string (unat (v :: u32))) = v"
  by (simp add: cell_number_def)

lemma getters_keep_log:
  assumes "log_readable L lg key"
  shows "snd (get_committed_version L key lg) = lg"
    and "snd (get_pending_prepare_version L key lg) = lg"
  using assms
  by (auto simp: log_readable_def readable_def get_committed_version_def
      get_pending_prepare_version_def Let_def)

lemma have_pending_log_abs:
  "log_readable L lg key \<Longrightarrow> have_pending_log L key lg = (pending (log_abs L lg key), lg)"
  using getters_keep_log [of L lg key]
  by (cases "get_pending_prepare_version L key lg"; cases "get_committed_version L key lg")
    (simp add: have_pending_log_def log_abs_def pending_def)

lemma log_abs_put_pending:
  assumes "leveldb_ok L" "is_block_key key" "is_block_key key'"
  shows "log_abs L (put_pending_prepare L key value v lg) key' =
     (if key' = key then (log_abs L lg key)\<lparr>bl_pending := v, bl_data := value\<rparr>
      else log_abs L lg key')"
  using assms
  by (simp add: log_abs_def put_pending_prepare_def fst_get_version get_pending_prepare_data_def
      get_or_empty_Put log_keys_disjoint)

lemma log_abs_put_committed:
  assumes "leveldb_ok L" "is_block_key key" "is_block_key key'"
  shows "log_abs L (put_committed_version L key v lg) key' =
     (if key' = key then (log_abs L lg key)\<lparr>bl_committed := v\<rparr> else log_abs L lg key')"
  using assms
  by (simp add: log_abs_def put_committed_version_def fst_get_version get_pending_prepare_data_def
      get_or_empty_Put log_keys_disjoint)

lemma readable_put:
  assumes "leveldb_ok L" "is_block_key key" "is_block_key key'" "log_readable L lg key'"
  shows "log_readable L (put_pending_prepare L key value v lg) key'"
    and "log_readable L (put_committed_version L key v lg) key'"
  using assms
  by (simp_all add: log_readable_def readable_def put_pending_prepare_def put_committed_version_def
      get_or_empty_Put log_keys_disjoint)

lemma commit_pending_prepare_eq:
  assumes "log_readable L lg key"
  shows "commit_pending_prepare L key (lg, d) =
     (put_committed_version L key (bl_pending (log_abs L lg key)) lg,
      ldb_Put L d key (bl_data (log_abs L lg key)))"
  using getters_keep_log(2) [OF assms]
  by (cases "get_pending_prepare_version L key lg") (simp add: commit_pending_prepare_def log_abs_def)

lemmas log_abs_simps = log_abs_put_pending log_abs_put_committed readable_put
  have_pending_log_abs commit_pending_prepare_eq

end
