(* ===== verification/Block_Spec.thy ===== *)
theory Block_Spec
  imports Persistent_Log
begin

text \<open>
  What a block server promises, one block at a time: a block has a content (or does not exist yet)
  and a log. \<open>a_handle\<close> is the specification of every request; \<open>patch\<close> is a write at a position
  that extends the block with zero bytes, \<open>a_read\<close> a read that fills up with zero bytes.
  \<open>Ssbd_Server\<close> proves that the handlers implement it.
\<close>

definition patch :: "nat \<Rightarrow> bytes \<Rightarrow> bytes \<Rightarrow> bytes" where
  "patch pos data old =
     (let r = resize (max (pos + length data) (length old)) old
      in take pos r @ data @ drop (pos + length data) r)"

definition a_read :: "nat \<Rightarrow> nat \<Rightarrow> bytes \<Rightarrow> bytes" where
  "a_read pos n content = resize n (drop pos content)"

record ablock =
  ab_content :: "bytes option"
  ab_log :: block_log

definition fresh_log :: block_log where
  "fresh_log = \<lparr>bl_committed = 0, bl_pending = 0, bl_data = []\<rparr>"

definition a_open :: "ablock \<Rightarrow> ablock" where
  "a_open b = (if ab_content b = None then \<lparr>ab_content = Some [], ab_log = fresh_log\<rparr> else b)"

definition a_content :: "ablock \<Rightarrow> bytes" where
  "a_content b = (case ab_content b of None \<Rightarrow> [] | Some c \<Rightarrow> c)"

definition a_stage :: "nat \<Rightarrow> bytes \<Rightarrow> u32 \<Rightarrow> ablock \<Rightarrow> ablock" where
  "a_stage pos data ver b =
     b\<lparr>ab_log := (ab_log b)\<lparr>bl_pending := ver, bl_data := patch pos data (a_content b)\<rparr>\<rparr>"

definition a_commit :: "ablock \<Rightarrow> ablock" where
  "a_commit b = \<lparr>ab_content = Some (bl_data (ab_log b)),
     ab_log = (ab_log b)\<lparr>bl_committed := bl_pending (ab_log b)\<rparr>\<rparr>"

definition a_rollback :: "ablock \<Rightarrow> ablock" where
  "a_rollback b = b\<lparr>ab_log := (ab_log b)\<lparr>bl_pending := 0, bl_data := []\<rparr>\<rparr>"

fun a_handle :: "lmsg_t \<Rightarrow> nat \<Rightarrow> nat \<Rightarrow> bytes \<Rightarrow> u32 \<Rightarrow> ablock \<Rightarrow> ablock \<times> lmsg_t \<times> bytes" where
  "a_handle Two_pc_prepare pos n data ver b =
     (if pending (ab_log (a_open b)) then (a_open b, Two_pc_prepare_abort, [])
      else (a_stage pos data ver (a_open b), Two_pc_prepare_agree, []))"
| "a_handle Two_pc_prepare_quick pos n data ver b =
     (a_stage pos data ver (a_open b), Two_pc_prepare_agree, [])"
| "a_handle Two_pc_commit_execute pos n data ver b = (a_commit b, Two_pc_commit_ack, [])"
| "a_handle Two_pc_commit_rollback pos n data ver b = (a_rollback b, Two_pc_commit_ack, [])"
| "a_handle Replication pos n data ver b = (b, L_ack, [])"
| "a_handle L_get pos n data ver b =
     (case ab_content b of None \<Rightarrow> (b, L_err, []) | Some c \<Rightarrow> (b, L_ack, a_read pos n c))"
| "a_handle _ pos n data ver b = (b, L_err, [])"

section \<open>Patches and reads\<close>

lemma length_patch [simp, range_simps]: "length (patch pos data old) = max (pos + length data) (length old)"
  by (simp add: patch_def Let_def)

lemma nth_patch [range_simps]:
  "i < max (pos + length data) (length old) \<Longrightarrow>
   patch pos data old ! i =
     (if pos \<le> i \<and> i < pos + length data then data ! (i - pos) else if i < length old then old ! i else 0)"
  by (auto simp: patch_def Let_def nth_append nth_resize min_def)

lemma a_read_patch [range_simps]: "a_read pos (length data) (patch pos data old) = data"
  by (rule nth_equalityI) (auto simp: a_read_def nth_resize nth_patch)

text \<open>A read that does not meet the written range sees the old block.\<close>

lemma a_read_patch_other:
  assumes "q + n \<le> pos \<or> pos + length data \<le> q"
  shows "a_read q n (patch pos data old) = a_read q n old"
  using assms by (intro nth_equalityI) (auto simp: a_read_def nth_resize nth_patch)

lemma length_a_read [simp, range_simps]: "length (a_read pos n c) = n"
  by (simp add: a_read_def)

lemma patch_overwrite:
  "overwrite pos data (resize (max (pos + length data) (length old)) old) = Some (patch pos data old)"
  by (simp add: overwrite_def patch_def Let_def)

lemma a_content_open [simp]: "a_content (a_open b) = a_content b"
  by (simp add: a_open_def a_content_def)

lemma a_commit_stage:
  "a_commit (a_stage pos data ver b) =
     \<lparr>ab_content = Some (patch pos data (a_content b)),
      ab_log = (ab_log b)\<lparr>bl_committed := ver, bl_pending := ver, bl_data := patch pos data (a_content b)\<rparr>\<rparr>"
  by (simp add: a_commit_def a_stage_def)

section \<open>The contract of a block server\<close>

text \<open>Which handlers read a body: the others go on with the next header at once.\<close>

definition body_len :: "lheader \<Rightarrow> nat" where
  "body_len h =
     (case lmsg_of (lh_type h) of
        Some Two_pc_prepare \<Rightarrow> unat (lh_datasize h)
      | Some Two_pc_prepare_quick \<Rightarrow> unat (lh_datasize h)
      | Some Two_pc_commit_execute \<Rightarrow> unat (lh_datasize h)
      | Some Replication \<Rightarrow> unat (lh_datasize h)
      | _ \<Rightarrow> 0)"

definition has_body :: "lmsg_t \<Rightarrow> bool" where
  "has_body m \<longleftrightarrow> m \<in> {Two_pc_prepare, Two_pc_prepare_quick, Two_pc_commit_execute, Replication}"

lemma body_len_eq:
  "lmsg_of (lh_type h) = Some m \<Longrightarrow> body_len h = (if has_body m then unat (lh_datasize h) else 0)"
  by (cases m) (simp_all add: body_len_def has_body_def)

text \<open>
  \<open>request_ok\<close>: the body has the size its handler reads, and the written range ends below 4 GiB.
  \<open>read_inside\<close>: a read starts inside the block or at its end.
\<close>

definition request_ok :: "lpacket \<Rightarrow> bool" where
  "request_ok p \<longleftrightarrow>
     wf_lheader (lp_header p) \<and> length (lp_buf p) = body_len (lp_header p) \<and>
     unat (lh_position (lp_header p)) + length (lp_buf p) < 2 ^ 32"

lemma is_block_key_as_string [simp]: "wf_lheader h \<Longrightarrow> is_block_key (as_string h)"
  by (simp add: wf_lheader_def as_string_def)

definition read_inside :: "lpacket \<Rightarrow> ablock \<Rightarrow> bool" where
  "read_inside p b \<longleftrightarrow>
     (case ab_content b of None \<Rightarrow> True | Some c \<Rightarrow> unat (lh_position (lp_header p)) \<le> length c)"

definition a_request :: "lmsg_t \<Rightarrow> lpacket \<Rightarrow> ablock \<Rightarrow> ablock \<times> lmsg_t \<times> bytes" where
  "a_request m p b = a_handle m (unat (lh_position (lp_header p))) (unat (lh_datasize (lp_header p)))
     (lp_buf p) (lh_version (lp_header p)) b"

text \<open>
  One request against the specification: the answer carries the header of the request with the type
  replaced, the block addressed by the request changes as \<open>a_handle\<close> says, every other block keeps
  its view.
\<close>

definition meets_spec :: "('s \<Rightarrow> bytes \<Rightarrow> ablock) \<Rightarrow> lpacket \<Rightarrow> lmsg_t \<Rightarrow> 's \<Rightarrow> 's \<Rightarrow> lpacket \<Rightarrow> bool" where
  "meets_spec view p m s s' r \<longleftrightarrow>
     (let key = as_string (lp_header p); (b', m', data') = a_request m p (view s key)
      in r = \<lparr>lp_header = set_ltype m' (lp_header p), lp_buf = data'\<rparr> \<and>
         (\<forall>k. is_block_key k \<longrightarrow> view s' k = (if k = key then b' else view s k)))"

section \<open>Sessions\<close>

definition kind :: "lpacket \<Rightarrow> lmsg_t option" where
  "kind p = lmsg_of (lh_type (lp_header p))"

text \<open>
  The specification of a session: the requests of a connection against the abstract blocks.
  \<open>session_ok\<close> says that every request of it is well-formed, of a known type, and that no read
  starts behind the end of its block at the time it is served.
\<close>

definition a_step :: "lpacket \<Rightarrow> (bytes \<Rightarrow> ablock) \<Rightarrow> (bytes \<Rightarrow> ablock) \<times> lpacket" where
  "a_step p v =
     (let key = as_string (lp_header p); (b', m', d') = a_request (the (kind p)) p (v key)
      in (v(key := b'), \<lparr>lp_header = set_ltype m' (lp_header p), lp_buf = d'\<rparr>))"

fun a_serve :: "(bytes \<Rightarrow> ablock) \<Rightarrow> lpacket list \<Rightarrow> (bytes \<Rightarrow> ablock) \<times> lpacket list" where
  "a_serve v [] = (v, [])"
| "a_serve v (p # ps) =
     (let (v1, r) = a_step p v; (v2, rs) = a_serve v1 ps in (v2, r # rs))"

fun session_ok :: "(bytes \<Rightarrow> ablock) \<Rightarrow> lpacket list \<Rightarrow> bool" where
  "session_ok v [] \<longleftrightarrow> True"
| "session_ok v (p # ps) \<longleftrightarrow>
     request_ok p \<and> kind p \<noteq> None \<and>
     (kind p = Some L_get \<longrightarrow> read_inside p (v (as_string (lp_header p)))) \<and>
     session_ok (fst (a_step p v)) ps"

definition agree :: "(bytes \<Rightarrow> ablock) \<Rightarrow> (bytes \<Rightarrow> ablock) \<Rightarrow> bool" where
  "agree v v' \<longleftrightarrow> (\<forall>k. is_block_key k \<longrightarrow> v k = v' k)"

lemma agree_refl: "agree v v"
  by (simp add: agree_def)

lemma request_ok_key [simp]: "request_ok p \<Longrightarrow> is_block_key (as_string (lp_header p))"
  by (simp add: request_ok_def)

lemmas session_simps = a_step_def a_request_def a_commit_stage Let_def

lemma a_serve_append:
  "a_serve v (ps @ qs) = (let (v1, rs) = a_serve v ps; (v2, rs') = a_serve v1 qs in (v2, rs @ rs'))"
  by (induction ps arbitrary: v) (auto simp: Let_def split: prod.splits)

lemma session_ok_append:
  "session_ok v (ps @ qs) \<longleftrightarrow> session_ok v ps \<and> session_ok (fst (a_serve v ps)) qs"
  by (induction ps arbitrary: v) (auto simp: Let_def split: prod.splits)

section \<open>The interface of a block server\<close>

text \<open>\<open>requests\<close>: a client sends requests one after the other and collects the answers.\<close>

fun requests :: "(lpacket \<Rightarrow> 's \<Rightarrow> ('s \<times> lpacket) option) \<Rightarrow> 's \<Rightarrow> lpacket list \<Rightarrow> ('s \<times> lpacket list) option" where
  "requests request s [] = Some (s, [])"
| "requests request s (p # ps) =
     (case request p s of
        None \<Rightarrow> None
      | Some (s', r) \<Rightarrow> map_option (\<lambda>(s'', rs). (s'', r # rs)) (requests request s' ps))"

locale block_server =
  fixes request :: "lpacket \<Rightarrow> 's \<Rightarrow> ('s \<times> lpacket) option"
    and view :: "'s \<Rightarrow> bytes \<Rightarrow> ablock"
    and inv :: "'s \<Rightarrow> bool"
  assumes request_spec:
    "inv s \<Longrightarrow> request_ok p \<Longrightarrow> lmsg_of (lh_type (lp_header p)) = Some m \<Longrightarrow>
     (m = L_get \<Longrightarrow> read_inside p (view s (as_string (lp_header p)))) \<Longrightarrow>
     \<exists>s' r. request p s = Some (s', r) \<and> inv s' \<and> meets_spec view p m s s' r"
begin

lemma request_simulates:
  assumes "inv s" "agree (view s) v" "session_ok v (p # ps)"
  obtains s' where "request p s = Some (s', snd (a_step p v))" "inv s'" "agree (view s') (fst (a_step p v))"
proof -
  let ?key = "as_string (lp_header p)"
  from assms(3) obtain m where req: "request_ok p" "kind p = Some m" by auto
  have v: "view s ?key = v ?key"
    using assms(2) req(1) by (simp add: agree_def)
  then have "m = L_get \<Longrightarrow> read_inside p (view s ?key)"
    using assms(3) req(2) by simp
  then obtain s' r where h: "request p s = Some (s', r)" "inv s'" "meets_spec view p m s s' r"
    using request_spec [OF assms(1) req(1)] req(2) by (auto simp: kind_def)
  have "r = snd (a_step p v) \<and> agree (view s') (fst (a_step p v))"
    using h(3) req(2) assms(2)
    by (auto simp: meets_spec_def a_step_def agree_def v Let_def split: prod.splits)
  then show thesis using h(1,2) by (auto intro: that)
qed

lemma requests_simulate:
  assumes "inv s" "agree (view s) v" "session_ok v ps"
  shows "\<exists>s'. requests request s ps = Some (s', snd (a_serve v ps)) \<and> inv s' \<and>
    agree (view s') (fst (a_serve v ps))"
  using assms
proof (induction ps arbitrary: s v)
  case Nil
  then show ?case by simp
next
  case (Cons p ps)
  from request_simulates [OF Cons.prems] obtain s1 where
    1: "request p s = Some (s1, snd (a_step p v))" "inv s1" "agree (view s1) (fst (a_step p v))" .
  moreover have "session_ok (fst (a_step p v)) ps"
    using Cons.prems by simp
  ultimately obtain s2 where
    "requests request s1 ps = Some (s2, snd (a_serve (fst (a_step p v)) ps))" "inv s2"
    "agree (view s2) (fst (a_serve (fst (a_step p v)) ps))"
    using Cons.IH by blast
  then show ?case
    using 1(1) by (auto simp: Let_def split: prod.splits)
qed

end

end
