(* ===== verification/Ssbd_Server.thy ===== *)
theory Ssbd_Server
  imports Block_Spec
begin

text \<open>
  The block server: \<^verbatim>\<open>ssbd/rawblocks.hpp\<close> and the connection handlers of \<^verbatim>\<open>ssbd/main.cpp\<close>
  (class \<^verbatim>\<open>tcp_connection\<close>). A handler takes the parsed packet, with the body its own
  \<^verbatim>\<open>async_read\<close> collected, and gives the new databases and the packet it queues for writing.
  \<open>Undef\<close> marks undefined behaviour (a copy outside a buffer), \<open>Stall\<close> a message type no
  \<^verbatim>\<open>case\<close> matches, after which the connection neither answers nor reads again.
\<close>

section \<open>Raw blocks\<close>

text \<open>\<^verbatim>\<open>rawblocks::read\<close>: \<open>buf_.size() - headersize() - logic_position\<close> is computed in \<^verbatim>\<open>size_t\<close>.\<close>

definition rb_headersize :: u64 where
  "rb_headersize = 0"

definition rb_read :: "bytes \<Rightarrow> u64 \<Rightarrow> u64 \<Rightarrow> bytes option" where
  "rb_read buf pos n =
     (let cnt = min (of_nat (length buf) - rb_headersize - pos) n
      in if unat (pos + rb_headersize) + unat cnt \<le> length buf
         then Some (slice (unat (pos + rb_headersize)) (unat cnt) buf) else None)"

definition rb_bind :: "'db leveldb \<Rightarrow> 'db \<Rightarrow> bytes \<Rightarrow> bytes option" where
  "rb_bind L d key = ldb_Get L d key"

definition rb_flush :: "'db leveldb \<Rightarrow> 'db \<Rightarrow> bytes \<Rightarrow> bytes \<Rightarrow> 'db" where
  "rb_flush L d key buf = ldb_Put L d key buf"

definition rb_write :: "bytes \<Rightarrow> nat \<Rightarrow> bytes \<Rightarrow> bytes option" where
  "rb_write buf pos data = overwrite pos data buf"

section \<open>Handlers\<close>

record 'db ssbd =
  sv_db :: 'db
  sv_log :: 'db

datatype 'db outcome = Reply "'db ssbd" lpacket | Stall | Undef

definition answer :: "lmsg_t \<Rightarrow> lpacket \<Rightarrow> lpacket" where
  "answer m p = \<lparr>lp_header = set_ltype m (lp_header p), lp_buf = []\<rparr>"

text \<open>
  \<open>merge_block\<close>: resize the old block to
  \<^verbatim>\<open>std::max<std::uint32_t>(position + datasize, old_block.size())\<close>, a 32-bit computation, and copy
  the received bytes to the position.
\<close>

definition merge_block :: "bytes \<Rightarrow> lheader \<Rightarrow> bytes \<Rightarrow> bytes option" where
  "merge_block old h data =
     overwrite (unat (lh_position h)) data
       (resize (unat (max (ucast (lh_position h) + lh_datasize h) (of_nat (length old) :: u32))) old)"

definition create_block :: "'db leveldb \<Rightarrow> bytes \<Rightarrow> 'db ssbd \<Rightarrow> 'db ssbd" where
  "create_block L key sv =
     \<lparr>sv_db = ldb_Put L (sv_db sv) key [],
      sv_log = put_pending_prepare L key [] 0 (put_committed_version L key 0 (sv_log sv))\<rparr>"

definition open_block :: "'db leveldb \<Rightarrow> bytes \<Rightarrow> 'db ssbd \<Rightarrow> 'db ssbd" where
  "open_block L key sv =
     (case rb_bind L (sv_db sv) key of None \<Rightarrow> create_block L key sv | Some _ \<Rightarrow> sv)"

definition start_two_pc_prepare :: "'db leveldb \<Rightarrow> lpacket \<Rightarrow> 'db ssbd \<Rightarrow> 'db outcome" where
  "start_two_pc_prepare L p sv =
     (let h = lp_header p; key = as_string h; sv1 = open_block L key sv
      in case rb_bind L (sv_db sv1) key of
           None \<Rightarrow> Reply sv1 (answer Two_pc_prepare_agree p)
         | Some buf \<Rightarrow>
             (let (busy, lg) = have_pending_log L key (sv_log sv1)
              in if busy
                 then Reply (sv1\<lparr>sv_log := snd (get_committed_version L key lg)\<rparr>)
                        (answer Two_pc_prepare_abort p)
                 else case merge_block buf h (lp_buf p) of
                        None \<Rightarrow> Undef
                      | Some new \<Rightarrow>
                          (let lg' = put_pending_prepare L key new (lh_version h) lg
                           in Reply (sv1\<lparr>sv_log := snd (get_committed_version L key lg')\<rparr>)
                                (answer Two_pc_prepare_agree p))))"

definition start_two_pc_prepare_quick :: "'db leveldb \<Rightarrow> lpacket \<Rightarrow> 'db ssbd \<Rightarrow> 'db outcome" where
  "start_two_pc_prepare_quick L p sv =
     (let h = lp_header p; key = as_string h; sv1 = open_block L key sv
      in case rb_bind L (sv_db sv1) key of
           None \<Rightarrow> Reply sv1 (answer Two_pc_prepare_agree p)
         | Some buf \<Rightarrow>
             (case merge_block buf h (lp_buf p) of
                None \<Rightarrow> Undef
              | Some new \<Rightarrow>
                  (let lg' = put_pending_prepare L key new (lh_version h) (sv_log sv1)
                   in Reply (sv1\<lparr>sv_log := snd (get_committed_version L key lg')\<rparr>)
                        (answer Two_pc_prepare_agree p))))"

definition start_two_pc_commit_execute :: "'db leveldb \<Rightarrow> lpacket \<Rightarrow> 'db ssbd \<Rightarrow> 'db outcome" where
  "start_two_pc_commit_execute L p sv =
     (let (lg, d) = commit_pending_prepare L (as_string (lp_header p)) (sv_log sv, sv_db sv)
      in Reply \<lparr>sv_db = d, sv_log = lg\<rparr> (answer Two_pc_commit_ack p))"

definition start_two_pc_commit_rollback :: "'db leveldb \<Rightarrow> lpacket \<Rightarrow> 'db ssbd \<Rightarrow> 'db outcome" where
  "start_two_pc_commit_rollback L p sv =
     Reply (sv\<lparr>sv_log := put_pending_prepare L (as_string (lp_header p)) [] 0 (sv_log sv)\<rparr>)
       (answer Two_pc_commit_ack p)"

definition repl_key :: "lheader \<Rightarrow> bytes" where
  "repl_key h = as_string h @ str ''repl''"

definition start_replication :: "'db leveldb \<Rightarrow> lpacket \<Rightarrow> 'db ssbd \<Rightarrow> 'db outcome" where
  "start_replication L p sv =
     (let h = lp_header p; key = repl_key h; old = get_or_empty L (sv_db sv) key
      in case merge_block old h (lp_buf p) of
           None \<Rightarrow> Undef
         | Some new \<Rightarrow> Reply (sv\<lparr>sv_db := ldb_Put L (sv_db sv) key new\<rparr>) (answer L_ack p))"

definition start_db_read :: "'db leveldb \<Rightarrow> lpacket \<Rightarrow> 'db ssbd \<Rightarrow> 'db outcome" where
  "start_db_read L p sv =
     (let h = lp_header p
      in case rb_bind L (sv_db sv) (as_string h) of
           None \<Rightarrow> Reply sv (answer L_err p)
         | Some buf \<Rightarrow>
             (case rb_read buf (ucast (lh_position h)) (ucast (lh_datasize h)) of
                None \<Rightarrow> Undef
              | Some out \<Rightarrow>
                  (case overwrite 0 out (replicate (unat (lh_datasize h)) 0) of
                     None \<Rightarrow> Undef
                   | Some data \<Rightarrow> Reply sv ((answer L_ack p)\<lparr>lp_buf := data\<rparr>))))"

text \<open>The \<^verbatim>\<open>switch\<close> of \<^verbatim>\<open>start_read_header\<close>.\<close>

definition handle :: "'db leveldb \<Rightarrow> lpacket \<Rightarrow> 'db ssbd \<Rightarrow> 'db outcome" where
  "handle L p sv =
     (case lmsg_of (lh_type (lp_header p)) of
        None \<Rightarrow> Stall
      | Some Two_pc_prepare \<Rightarrow> start_two_pc_prepare L p sv
      | Some Two_pc_prepare_quick \<Rightarrow> start_two_pc_prepare_quick L p sv
      | Some Two_pc_commit_execute \<Rightarrow> start_two_pc_commit_execute L p sv
      | Some Two_pc_commit_rollback \<Rightarrow> start_two_pc_commit_rollback L p sv
      | Some Replication \<Rightarrow> start_replication L p sv
      | Some L_get \<Rightarrow> start_db_read L p sv
      | Some L_err \<Rightarrow> Reply sv (answer L_err p)
      | Some L_ack \<Rightarrow> Reply sv (answer L_err p)
      | Some Two_pc_commit_ack \<Rightarrow> Reply sv (answer L_err p)
      | Some Two_pc_prepare_agree \<Rightarrow> Reply sv (answer L_err p)
      | Some Two_pc_prepare_abort \<Rightarrow> Reply sv (answer L_err p))"

text \<open>
  A connection: the frames of the incoming stream in order, each handled to its end (\<^verbatim>\<open>None\<close> when a
  handler has undefined behaviour); the answers in the order they are queued. After a \<open>Stall\<close> the
  rest of the stream stays unread.
\<close>

fun serve :: "'db leveldb \<Rightarrow> 'db ssbd \<Rightarrow> (lheader \<times> bytes) list \<Rightarrow> ('db ssbd \<times> lpacket list) option" where
  "serve L sv [] = Some (sv, [])"
| "serve L sv ((h, b) # fs) =
     (case handle L \<lparr>lp_header = h, lp_buf = b\<rparr> sv of
        Undef \<Rightarrow> None
      | Stall \<Rightarrow> Some (sv, [])
      | Reply sv' r \<Rightarrow> map_option (\<lambda>(sv'', rs). (sv'', r # rs)) (serve L sv' fs))"

definition connection :: "'db leveldb \<Rightarrow> 'db ssbd \<Rightarrow> bytes \<Rightarrow> ('db ssbd \<times> lpacket list) option" where
  "connection L sv stream = serve L sv (fst (read_frames lparse lbytesize body_len stream))"

section \<open>The view of a block and the invariant\<close>

definition view :: "'db leveldb \<Rightarrow> 'db ssbd \<Rightarrow> bytes \<Rightarrow> ablock" where
  "view L sv key = \<lparr>ab_content = ldb_Get L (sv_db sv) key, ab_log = log_abs L (sv_log sv) key\<rparr>"

text \<open>
  Stored values stay below 4 GiB, and the version cells of the log can be read.
\<close>

definition ssbd_inv :: "'db leveldb \<Rightarrow> 'db ssbd \<Rightarrow> bool" where
  "ssbd_inv L sv \<longleftrightarrow>
     (\<forall>k v. ldb_Get L (sv_db sv) k = Some v \<longrightarrow> length v < 2 ^ 32) \<and>
     (\<forall>k. is_block_key k \<longrightarrow> log_readable L (sv_log sv) k \<and>
          length (bl_data (log_abs L (sv_log sv) k)) < 2 ^ 32)"

lemma repl_key_not_block: "wf_lheader h \<Longrightarrow> is_block_key k \<Longrightarrow> k \<noteq> repl_key h"
  using block_key_append_inject [of k "as_string h" "[]" "str ''repl''"]
  by (auto simp: repl_key_def is_digit_def)

lemma merge_block_patch:
  assumes "length old < 2 ^ 32" and "unat (lh_position h) + length data < 2 ^ 32"
    and "length data = unat (lh_datasize h)"
  shows "merge_block old h data = Some (patch (unat (lh_position h)) data old)"
proof -
  have "unat (ucast (lh_position h) + lh_datasize h) = unat (lh_position h) + length data"
    using assms by (simp add: unat_word_ariths)
  moreover have "unat (of_nat (length old) :: u32) = length old"
    using assms by (simp add: unat_of_nat)
  ultimately show ?thesis
    by (simp add: merge_block_def unat_max patch_overwrite)
qed

lemma rb_read_inside:
  assumes "length buf < 2 ^ 32" and "unat (pos :: u16) \<le> length buf"
  shows "rb_read buf (ucast pos) (ucast (n :: u32)) = Some (take (unat n) (drop (unat pos) buf))"
proof -
  have len: "unat (of_nat (length buf) :: u64) = length buf"
    using assms(1) by (simp add: unat_of_nat)
  have "unat (of_nat (length buf) - ucast pos :: u64) = length buf - unat pos"
    using assms by (subst unat_sub) (simp_all add: word_le_nat_alt len)
  then show ?thesis
    using assms(2) by (auto simp: rb_read_def rb_headersize_def Let_def min_def word_le_nat_alt slice_def)
qed

lemma rb_read_outside:
  assumes "length buf < 2 ^ 32" and "length buf < unat (pos :: u16)"
  shows "rb_read buf (ucast pos) (ucast (n :: u32)) = None"
  using assms by (simp add: rb_read_def rb_headersize_def Let_def)

section \<open>The handlers implement the specification\<close>

lemma view_sel:
  "ab_content (view L sv k) = ldb_Get L (sv_db sv) k"
  "ab_log (view L sv k) = log_abs L (sv_log sv) k"
  by (simp_all add: view_def)

lemma view_open:
  assumes "leveldb_ok L" "is_block_key key" "is_block_key k"
  shows "view L (open_block L key sv) k = (if k = key then a_open (view L sv key) else view L sv k)"
  using assms
  by (auto simp: open_block_def create_block_def rb_bind_def view_def a_open_def fresh_log_def
      leveldb_get_put log_abs_simps split: option.splits)

lemma open_block_content:
  "leveldb_ok L \<Longrightarrow> ldb_Get L (sv_db (open_block L key sv)) key = Some (a_content (view L sv key))"
  by (auto simp: open_block_def create_block_def rb_bind_def view_def a_content_def leveldb_get_put
      split: option.splits)

lemma open_block_inv:
  assumes "leveldb_ok L" "ssbd_inv L sv" "is_block_key key"
  shows "ssbd_inv L (open_block L key sv)"
  using assms
  by (auto simp: ssbd_inv_def open_block_def create_block_def rb_bind_def leveldb_get_put
      log_abs_simps split: option.splits)

lemma inv_content_small:
  "ssbd_inv L sv \<Longrightarrow> length (a_content (view L sv key)) < 2 ^ 32"
  by (auto simp: ssbd_inv_def a_content_def view_def split: option.splits)

lemma inv_readable: "ssbd_inv L sv \<Longrightarrow> is_block_key k \<Longrightarrow> log_readable L (sv_log sv) k"
  by (simp add: ssbd_inv_def)

text \<open>Staging a pending write: what both prepare handlers do to an open block.\<close>

definition stage :: "'db leveldb \<Rightarrow> bytes \<Rightarrow> bytes \<Rightarrow> u32 \<Rightarrow> 'db ssbd \<Rightarrow> 'db ssbd" where
  "stage L key new ver sv = sv\<lparr>sv_log := put_pending_prepare L key new ver (sv_log sv)\<rparr>"

lemma stage_view:
  assumes "leveldb_ok L" "is_block_key key" "is_block_key k"
  shows "view L (stage L key new ver sv) k =
     (if k = key then (view L sv key)\<lparr>ab_log := (ab_log (view L sv key))\<lparr>bl_pending := ver, bl_data := new\<rparr>\<rparr>
      else view L sv k)"
  using assms by (simp add: stage_def view_def log_abs_simps)

lemma stage_inv:
  assumes "leveldb_ok L" "ssbd_inv L sv" "is_block_key key" "length new < 2 ^ 32"
  shows "ssbd_inv L (stage L key new ver sv)"
  using assms by (auto simp: ssbd_inv_def stage_def log_abs_simps)

text \<open>The log is unchanged by the getters that the handlers call at their end.\<close>

lemma committed_getter_keeps:
  "leveldb_ok L \<Longrightarrow> ssbd_inv L sv \<Longrightarrow> is_block_key key \<Longrightarrow>
   snd (get_committed_version L key (sv_log sv)) = sv_log sv"
  by (simp add: getters_keep_log inv_readable)

lemma prepare_quick_eq:
  assumes ok: "leveldb_ok L" and inv: "ssbd_inv L sv" and req: "request_ok p"
    and len: "length (lp_buf p) = unat (lh_datasize (lp_header p))"
  shows "start_two_pc_prepare_quick L p sv =
     Reply (stage L (as_string (lp_header p))
              (patch (unat (lh_position (lp_header p))) (lp_buf p) (a_content (view L sv (as_string (lp_header p)))))
              (lh_version (lp_header p)) (open_block L (as_string (lp_header p)) sv))
       (answer Two_pc_prepare_agree p)"
proof -
  let ?h = "lp_header p" and ?c = "a_content (view L sv (as_string (lp_header p)))"
  let ?new = "patch (unat (lh_position ?h)) (lp_buf p) ?c"
  have key: "is_block_key (as_string ?h)"
    using req by (simp add: request_ok_def)
  have small: "length ?c < 2 ^ 32"
    using inv by (rule inv_content_small)
  then have merge: "merge_block ?c ?h (lp_buf p) = Some ?new" and "length ?new < 2 ^ 32"
    using req len by (simp_all add: merge_block_patch request_ok_def)
  then have "ssbd_inv L (stage L (as_string ?h) ?new (lh_version ?h) (open_block L (as_string ?h) sv))"
    using ok inv key by (intro stage_inv open_block_inv)
  from committed_getter_keeps [OF ok this key] merge show ?thesis
    by (simp add: start_two_pc_prepare_quick_def rb_bind_def open_block_content [OF ok] stage_def
        Let_def)
qed

lemma prepare_eq:
  assumes ok: "leveldb_ok L" and inv: "ssbd_inv L sv" and req: "request_ok p"
    and len: "length (lp_buf p) = unat (lh_datasize (lp_header p))"
  shows "start_two_pc_prepare L p sv =
     (if pending (ab_log (a_open (view L sv (as_string (lp_header p)))))
      then Reply (open_block L (as_string (lp_header p)) sv) (answer Two_pc_prepare_abort p)
      else start_two_pc_prepare_quick L p sv)"
proof -
  let ?h = "lp_header p"
  let ?sv1 = "open_block L (as_string ?h) sv"
  have key: "is_block_key (as_string ?h)"
    using req by (simp add: request_ok_def)
  have inv1: "ssbd_inv L ?sv1"
    using ok inv key by (rule open_block_inv)
  have log: "log_abs L (sv_log ?sv1) (as_string ?h) = ab_log (a_open (view L sv (as_string ?h)))"
    by (metis view_open [OF ok key key] view_sel(2))
  have pend: "have_pending_log L (as_string ?h) (sv_log ?sv1) =
      (pending (ab_log (a_open (view L sv (as_string ?h)))), sv_log ?sv1)"
    using have_pending_log_abs [OF inv_readable [OF inv1 key]] by (simp add: log)
  show ?thesis
    using committed_getter_keeps [OF ok inv1 key]
    by (simp add: start_two_pc_prepare_def start_two_pc_prepare_quick_def rb_bind_def
        open_block_content [OF ok] pend Let_def)
qed

lemma commit_eq:
  assumes "leveldb_ok L" "ssbd_inv L sv" "wf_lheader (lp_header p)"
  shows "start_two_pc_commit_execute L p sv =
     Reply \<lparr>sv_db = ldb_Put L (sv_db sv) (as_string (lp_header p))
                     (bl_data (log_abs L (sv_log sv) (as_string (lp_header p)))),
            sv_log = put_committed_version L (as_string (lp_header p))
                     (bl_pending (log_abs L (sv_log sv) (as_string (lp_header p)))) (sv_log sv)\<rparr>
       (answer Two_pc_commit_ack p)"
  using assms by (simp add: start_two_pc_commit_execute_def commit_pending_prepare_eq inv_readable)

lemma replication_eq:
  assumes "ssbd_inv L sv" "request_ok p"
    and "length (lp_buf p) = unat (lh_datasize (lp_header p))"
  shows "start_replication L p sv =
     Reply (sv\<lparr>sv_db := ldb_Put L (sv_db sv) (repl_key (lp_header p))
                (patch (unat (lh_position (lp_header p))) (lp_buf p)
                  (get_or_empty L (sv_db sv) (repl_key (lp_header p))))\<rparr>) (answer L_ack p)"
proof -
  have "length (get_or_empty L (sv_db sv) (repl_key (lp_header p))) < 2 ^ 32"
    using assms(1) by (auto simp: ssbd_inv_def get_or_empty_def split: option.splits)
  then show ?thesis
    using assms by (simp add: start_replication_def merge_block_patch request_ok_def Let_def)
qed

lemma db_read_eq:
  assumes "ssbd_inv L sv" and "ldb_Get L (sv_db sv) (as_string (lp_header p)) = Some c"
  shows "start_db_read L p sv =
     (if unat (lh_position (lp_header p)) \<le> length c
      then Reply sv ((answer L_ack p)\<lparr>lp_buf :=
             a_read (unat (lh_position (lp_header p))) (unat (lh_datasize (lp_header p))) c\<rparr>)
      else Undef)"
proof -
  have small: "length c < 2 ^ 32"
    using assms by (auto simp: ssbd_inv_def)
  show ?thesis
  proof (cases "unat (lh_position (lp_header p)) \<le> length c")
    case True
    then show ?thesis
      using assms(2) small
      by (simp add: start_db_read_def rb_bind_def rb_read_inside overwrite_prefix a_read_def
          Let_def)
  next
    case False
    then show ?thesis
      using assms(2) small by (simp add: start_db_read_def rb_bind_def rb_read_outside Let_def)
  qed
qed

lemmas handler_eqs = prepare_eq prepare_quick_eq commit_eq replication_eq db_read_eq

definition refines :: "'db leveldb \<Rightarrow> lpacket \<Rightarrow> 'db ssbd \<Rightarrow> lmsg_t \<Rightarrow> 'db outcome \<Rightarrow> bool" where
  "refines L p sv m out \<longleftrightarrow>
     (\<exists>sv' r. out = Reply sv' r \<and> ssbd_inv L sv' \<and> meets_spec (view L) p m sv sv' r)"

lemma stage_open_view:
  assumes ok: "leveldb_ok L" and key: "is_block_key key" and k: "is_block_key k"
  shows "view L (stage L key (patch pos data (a_content (view L sv key))) ver (open_block L key sv)) k =
     (if k = key then a_stage pos data ver (a_open (view L sv key)) else view L sv k)"
  by (simp add: stage_view [OF ok key k] view_open [OF ok key] key k a_stage_def)

lemma prepare_quick_refines:
  assumes "leveldb_ok L" "ssbd_inv L sv" "request_ok p"
    and "length (lp_buf p) = unat (lh_datasize (lp_header p))"
  shows "refines L p sv Two_pc_prepare_quick (start_two_pc_prepare_quick L p sv)"
  using assms inv_content_small [of L sv "as_string (lp_header p)"]
  by (auto simp: refines_def meets_spec_def prepare_quick_eq answer_def a_request_def stage_open_view request_ok_def Let_def
      intro!: stage_inv open_block_inv)

lemma prepare_refines:
  assumes "leveldb_ok L" "ssbd_inv L sv" "request_ok p"
    and "length (lp_buf p) = unat (lh_datasize (lp_header p))"
  shows "refines L p sv Two_pc_prepare (start_two_pc_prepare L p sv)"
  using assms prepare_quick_refines [OF assms]
  by (auto simp: refines_def meets_spec_def prepare_eq answer_def a_request_def view_open request_ok_def Let_def open_block_inv)

lemma commit_refines:
  assumes "leveldb_ok L" "ssbd_inv L sv" "wf_lheader (lp_header p)"
  shows "refines L p sv Two_pc_commit_execute (start_two_pc_commit_execute L p sv)"
  using assms
  by (auto simp: refines_def meets_spec_def commit_eq answer_def a_request_def a_commit_def view_def ssbd_inv_def leveldb_get_put
      log_abs_simps Let_def)

lemma rollback_refines:
  assumes "leveldb_ok L" "ssbd_inv L sv" "wf_lheader (lp_header p)"
  shows "refines L p sv Two_pc_commit_rollback (start_two_pc_commit_rollback L p sv)"
  using assms
  by (auto simp: refines_def meets_spec_def start_two_pc_commit_rollback_def answer_def a_request_def a_rollback_def view_def
      ssbd_inv_def log_abs_simps Let_def)

lemma replication_refines:
  assumes "leveldb_ok L" "ssbd_inv L sv" "request_ok p"
    and "length (lp_buf p) = unat (lh_datasize (lp_header p))"
  shows "refines L p sv Replication (start_replication L p sv)"
proof -
  have "length (get_or_empty L (sv_db sv) (repl_key (lp_header p))) < 2 ^ 32"
    using assms(2) by (auto simp: ssbd_inv_def get_or_empty_def split: option.splits)
  then show ?thesis
    using assms repl_key_not_block [of "lp_header p"]
    by (auto simp: refines_def meets_spec_def replication_eq answer_def a_request_def view_def ssbd_inv_def request_ok_def
        leveldb_get_put Let_def)
qed

lemma db_read_refines:
  assumes "ssbd_inv L sv" "read_inside p (view L sv (as_string (lp_header p)))"
  shows "refines L p sv L_get (start_db_read L p sv)"
proof (cases "ldb_Get L (sv_db sv) (as_string (lp_header p))")
  case None
  then show ?thesis
    using assms by (auto simp: refines_def meets_spec_def start_db_read_def rb_bind_def answer_def a_request_def view_def Let_def)
next
  case (Some c)
  then show ?thesis
    using assms by (auto simp: refines_def meets_spec_def db_read_eq read_inside_def answer_def a_request_def view_def Let_def)
qed

lemmas handlers_refine = prepare_refines prepare_quick_refines commit_refines rollback_refines
  replication_refines db_read_refines

lemma handle_refines:
  assumes "leveldb_ok L" "ssbd_inv L sv" "request_ok p" "lmsg_of (lh_type (lp_header p)) = Some m"
    and "m = L_get \<Longrightarrow> read_inside p (view L sv (as_string (lp_header p)))"
  shows "refines L p sv m (handle L p sv)"
  using assms
  by (cases m)
    (auto simp: handle_def request_ok_def body_len_def intro!: handlers_refine,
     auto simp: refines_def meets_spec_def answer_def a_request_def)

text \<open>The server as the transport sees it: \<open>None\<close> when no answer comes.\<close>

definition ssbd_request :: "'db leveldb \<Rightarrow> lpacket \<Rightarrow> 'db ssbd \<Rightarrow> ('db ssbd \<times> lpacket) option" where
  "ssbd_request L p sv =
     (case handle L p sv of Reply sv' r \<Rightarrow> Some (sv', r) | Stall \<Rightarrow> None | Undef \<Rightarrow> None)"

locale leveldb_store =
  fixes L :: "'db leveldb"
  assumes L_ok: "leveldb_ok L"

lemma ssbd_is_block_server:
  "leveldb_ok L \<Longrightarrow> block_server (ssbd_request L) (view L) (ssbd_inv L)"
  using handle_refines [of L]
  by unfold_locales (fastforce simp: ssbd_request_def refines_def)

sublocale leveldb_store \<subseteq> srv: block_server "ssbd_request L" "view L" "ssbd_inv L"
  using L_ok by (rule ssbd_is_block_server)

interpretation mem_store: leveldb_store mem_leveldb
  by unfold_locales (rule mem_leveldb_ok)

section \<open>Sequences of requests\<close>

definition frame :: "lpacket \<Rightarrow> lheader \<times> bytes" where
  "frame p = (lp_header p, lp_buf p)"

lemma handle_meets_spec:
  assumes "leveldb_ok L" "ssbd_inv L sv" "request_ok p" "kind p = Some m"
    and "m = L_get \<Longrightarrow> read_inside p (view L sv (as_string (lp_header p)))"
  obtains sv' r where "handle L p sv = Reply sv' r" "ssbd_inv L sv'"
    "meets_spec (view L) p m sv sv' r"
  using handle_refines [of L sv p m] assms by (auto simp: refines_def kind_def)

lemma serve_Reply:
  "handle L p sv = Reply sv' r \<Longrightarrow>
   serve L sv (frame p # fs) = map_option (\<lambda>(sv'', rs). (sv'', r # rs)) (serve L sv' fs)"
  by (cases p) (simp add: frame_def)

lemma meets_specD:
  assumes "meets_spec v p m s s' r" "a_request m p (v s (as_string (lp_header p))) = (b', m', d')"
  shows "r = \<lparr>lp_header = set_ltype m' (lp_header p), lp_buf = d'\<rparr>"
    and "is_block_key k \<Longrightarrow> v s' k = (if k = as_string (lp_header p) then b' else v s k)"
  using assms by (auto simp: meets_spec_def Let_def)

text \<open>Serving frames is sending requests one after the other, as long as none of them stalls.\<close>

lemma serve_requests:
  "requests (ssbd_request L) sv ps = Some r \<Longrightarrow> serve L sv (map frame ps) = Some r"
  by (induction ps arbitrary: sv r)
    (auto simp: ssbd_request_def serve_Reply split: option.splits outcome.splits)

lemma session_refines:
  assumes "leveldb_ok L" "ssbd_inv L sv" "session_ok (view L sv) ps"
  shows "\<exists>sv'. serve L sv (map frame ps) = Some (sv', snd (a_serve (view L sv) ps)) \<and> ssbd_inv L sv' \<and>
    agree (view L sv') (fst (a_serve (view L sv) ps))"
proof -
  have "block_server (ssbd_request L) (view L) (ssbd_inv L)"
    using assms(1) by (rule ssbd_is_block_server)
  from block_server.requests_simulate [OF this assms(2) agree_refl assms(3)] show ?thesis
    using serve_requests by blast
qed

definition empty_ssbd :: "(bytes \<rightharpoonup> bytes) ssbd" where
  "empty_ssbd = \<lparr>sv_db = Map.empty, sv_log = Map.empty\<rparr>"

lemma empty_ssbd_inv: "ssbd_inv mem_leveldb empty_ssbd"
  by (simp add: ssbd_inv_def empty_ssbd_def mem_leveldb_def log_readable_def readable_def
      log_abs_def get_pending_prepare_data_def get_or_empty_def)

lemma view_empty_ssbd: "view mem_leveldb empty_ssbd k = \<lparr>ab_content = None, ab_log = fresh_log\<rparr>"
  by (simp add: view_def empty_ssbd_def mem_leveldb_def log_abs_def get_pending_prepare_data_def
      get_or_empty_def fresh_log_def fst_get_version cell_number_def)

text \<open>A request to block 3 of a fixed file, for the witnesses.\<close>

definition sample_request :: "lmsg_t \<Rightarrow> u16 \<Rightarrow> u32 \<Rightarrow> u32 \<Rightarrow> bytes \<Rightarrow> lpacket" where
  "sample_request m pos n ver data = \<lparr>lp_header = sample_lheader m 3 pos n ver, lp_buf = data\<rparr>"

lemma sample_request_simps [simp]:
  "kind (sample_request m pos n ver data) = Some m"
  "lp_buf (sample_request m pos n ver data) = data"
  "as_string (lp_header (sample_request m pos n ver data)) = block_key (replicate 32 65) 3"
  "lh_position (lp_header (sample_request m pos n ver data)) = pos"
  "lh_datasize (lp_header (sample_request m pos n ver data)) = n"
  "lh_version (lp_header (sample_request m pos n ver data)) = ver"
  by (simp_all add: sample_request_def kind_def sample_lheader_def as_string_def)

lemma sample_request_ok:
  assumes "length data = (if has_body m then unat n else 0)" "length data < 1000"
  shows "request_ok (sample_request m pos n ver data)"
proof -
  have "lmsg_of (lh_type (lp_header (sample_request m pos n ver data))) = Some m"
    using sample_request_simps(1) [of m pos n ver data] by (simp add: kind_def)
  moreover have "unat pos < 65536" by simp
  ultimately show ?thesis
    using assms
    by (simp add: request_ok_def body_len_eq del: unat_u16_less) (simp add: sample_request_def)
qed

section \<open>Properties\<close>

text \<open>
  C4. The handlers implement the block specification. In a server state that satisfies the
  invariant, every well-formed request of a known type is answered; the answer and the addressed block
  change as the abstract block specification says, every other block is untouched, and the
  invariant holds again. The one restriction: a read must not start behind the end of the block.
\<close>

theorem server_refines_block_spec:
  assumes "leveldb_ok L" "ssbd_inv L sv" "request_ok p" "kind p = Some m"
    and "m = L_get \<Longrightarrow> read_inside p (view L sv (as_string (lp_header p)))"
  shows "\<exists>sv' r. handle L p sv = Reply sv' r \<and> ssbd_inv L sv' \<and>
    (let key = as_string (lp_header p); (b', m', data') = a_request m p (view L sv key)
     in r = \<lparr>lp_header = set_ltype m' (lp_header p), lp_buf = data'\<rparr> \<and>
        (\<forall>k. is_block_key k \<longrightarrow> view L sv' k = (if k = key then b' else view L sv k)))"
  using assms by (rule handle_meets_spec) (auto simp: meets_spec_def)

theorem server_refines_block_spec_witness:
  "\<exists>sv' r. handle mem_leveldb (sample_request Two_pc_prepare 2 3 9 [1, 2, 3]) empty_ssbd = Reply sv' r \<and>
     lh_type (lp_header r) = lmsg_val Two_pc_prepare_agree \<and>
     bl_data (ab_log (view mem_leveldb sv' (block_key (replicate 32 65) 3))) = [0, 0, 1, 2, 3]"
proof -
  let ?p = "sample_request Two_pc_prepare 2 3 9 [1, 2, 3]"
  have ok: "request_ok ?p" by (rule sample_request_ok) (simp_all add: has_body_def)
  have "a_request Two_pc_prepare ?p \<lparr>ab_content = None, ab_log = fresh_log\<rparr> =
      (\<lparr>ab_content = Some [], ab_log = \<lparr>bl_committed = 0, bl_pending = 9, bl_data = [0, 0, 1, 2, 3]\<rparr>\<rparr>,
       Two_pc_prepare_agree, [])"
    by (simp add: a_request_def a_open_def fresh_log_def pending_def a_stage_def a_content_def patch_def
        resize_def) (simp add: numeral_eq_Suc)
  with server_refines_block_spec [OF mem_leveldb_ok empty_ssbd_inv ok, of Two_pc_prepare]
  show ?thesis
    by (auto simp: view_empty_ssbd set_ltype_def)
qed

text \<open>
  A committed write is read back. On a connection that sends a prepare, then a commit for the
  same block, then a read of the written range, and where no other write is pending on the block,
  the server answers agree, commit acknowledgement and the written bytes; no other block changes.
\<close>

theorem committed_write_is_read_back:
  assumes "leveldb_ok L" "ssbd_inv L sv"
    and "request_ok w" "kind w = Some Two_pc_prepare"
    and "request_ok c" "kind c = Some Two_pc_commit_execute"
    and "request_ok g" "kind g = Some L_get"
    and "as_string (lp_header c) = as_string (lp_header w)"
    and "as_string (lp_header g) = as_string (lp_header w)"
    and "lh_position (lp_header g) = lh_position (lp_header w)"
    and "lh_datasize (lp_header g) = lh_datasize (lp_header w)"
    and "\<not> pending (ab_log (a_open (view L sv (as_string (lp_header w)))))"
  shows "\<exists>sv'. serve L sv [frame w, frame c, frame g] =
      Some (sv', [answer Two_pc_prepare_agree w, answer Two_pc_commit_ack c,
                  (answer L_ack g)\<lparr>lp_buf := lp_buf w\<rparr>]) \<and>
    ssbd_inv L sv' \<and>
    (\<forall>k. is_block_key k \<and> k \<noteq> as_string (lp_header w) \<longrightarrow> view L sv' k = view L sv k)"
proof -
  let ?v = "view L sv"
  have len: "unat (lh_datasize (lp_header w)) = length (lp_buf w)"
    using assms(3,4) by (auto simp: request_ok_def kind_def body_len_eq has_body_def)
  have "session_ok ?v [w, c, g]"
    using assms(3-13) by (simp add: session_simps read_inside_def)
  moreover have "snd (a_serve ?v [w, c, g]) =
      [answer Two_pc_prepare_agree w, answer Two_pc_commit_ack c, (answer L_ack g)\<lparr>lp_buf := lp_buf w\<rparr>]"
    using assms(4,6,8-13) by (simp add: session_simps answer_def len a_read_patch)
  moreover have "\<forall>k. k \<noteq> as_string (lp_header w) \<longrightarrow> fst (a_serve ?v [w, c, g]) k = ?v k"
    using assms(9,10) by (auto simp: a_step_def Let_def split: prod.splits)
  ultimately show ?thesis
    using session_refines [OF assms(1,2), of "[w, c, g]"] by (auto simp: agree_def)
qed

lemmas sample_requests_ok = sample_request_ok [where data = "[]"] sample_request_ok [where data = "[1, 2, 3]"]

theorem committed_write_is_read_back_witness:
  "\<exists>sv'. serve mem_leveldb empty_ssbd
     [frame (sample_request Two_pc_prepare 2 3 9 [1, 2, 3]), frame (sample_request Two_pc_commit_execute 2 0 9 []),
      frame (sample_request L_get 2 3 0 [])] =
   Some (sv', [answer Two_pc_prepare_agree (sample_request Two_pc_prepare 2 3 9 [1, 2, 3]),
     answer Two_pc_commit_ack (sample_request Two_pc_commit_execute 2 0 9 []),
     (answer L_ack (sample_request L_get 2 3 0 []))\<lparr>lp_buf := [1, 2, 3]\<rparr>])"
  using committed_write_is_read_back [OF mem_leveldb_ok empty_ssbd_inv,
      of "sample_request Two_pc_prepare 2 3 9 [1, 2, 3]" "sample_request Two_pc_commit_execute 2 0 9 []"
         "sample_request L_get 2 3 0 []"]
  by (auto simp: sample_requests_ok has_body_def view_empty_ssbd a_open_def fresh_log_def pending_def)

text \<open>
  Isolation of a pending write. A prepare that the server agrees to stages the patched block but
  does not show: a later read of the existing block still answers its old bytes. A further
  prepare on the block is answered with abort as long as the staged version differs from the
  committed one and from zero, and the staged write survives it.
\<close>

theorem pending_write_isolated:
  assumes "leveldb_ok L" "ssbd_inv L sv"
    and "request_ok w" "kind w = Some Two_pc_prepare"
    and "request_ok w'" "kind w' = Some Two_pc_prepare" "as_string (lp_header w') = as_string (lp_header w)"
    and "request_ok g" "kind g = Some L_get" "as_string (lp_header g) = as_string (lp_header w)"
    and "ab_content (view L sv (as_string (lp_header w))) = Some old"
    and "unat (lh_position (lp_header g)) \<le> length old"
    and "\<not> pending (ab_log (view L sv (as_string (lp_header w))))"
    and "lh_version (lp_header w) \<noteq> 0"
    and "lh_version (lp_header w) \<noteq> bl_committed (ab_log (view L sv (as_string (lp_header w))))"
  shows "\<exists>sv'. serve L sv [frame w, frame w', frame g] =
      Some (sv', [answer Two_pc_prepare_agree w, answer Two_pc_prepare_abort w',
        (answer L_ack g)\<lparr>lp_buf := a_read (unat (lh_position (lp_header g))) (unat (lh_datasize (lp_header g))) old\<rparr>]) \<and>
    bl_data (ab_log (view L sv' (as_string (lp_header w)))) = patch (unat (lh_position (lp_header w))) (lp_buf w) old"
proof -
  let ?v = "view L sv" and ?key = "as_string (lp_header w)"
  let ?b1 = "a_stage (unat (lh_position (lp_header w))) (lp_buf w) (lh_version (lp_header w)) (?v ?key)"
  have b1: "ab_content ?b1 = Some old" "a_open ?b1 = ?b1" "pending (ab_log ?b1)"
    "bl_data (ab_log ?b1) = patch (unat (lh_position (lp_header w))) (lp_buf w) old"
    and op: "a_open (?v ?key) = ?v ?key"
    using assms(11,14,15) by (auto simp: a_stage_def a_open_def pending_def a_content_def)
  have step: "a_step w ?v = (?v(?key := ?b1), answer Two_pc_prepare_agree w)"
    using assms(4,13) by (simp add: session_simps op answer_def)
  have "session_ok ?v [w, w', g]"
    using assms(3-12) by (simp add: step) (simp add: session_simps read_inside_def b1)
  moreover have "a_serve ?v [w, w', g] = (?v(?key := ?b1), [answer Two_pc_prepare_agree w,
      answer Two_pc_prepare_abort w', (answer L_ack g)\<lparr>lp_buf := a_read (unat (lh_position (lp_header g))) (unat (lh_datasize (lp_header g))) old\<rparr>])"
    using assms(6,7,9,10) by (simp add: step) (simp add: session_simps b1 answer_def)
  ultimately show ?thesis
    using session_refines [OF assms(1,2), of "[w, w', g]"] assms(3) b1(4) by (auto simp: agree_def)
qed

definition one_block_ssbd :: "(bytes \<rightharpoonup> bytes) ssbd" where
  "one_block_ssbd = \<lparr>sv_db = [block_key (replicate 32 65) 3 \<mapsto> [5, 6]], sv_log = Map.empty\<rparr>"

lemma one_block_ssbd_inv: "ssbd_inv mem_leveldb one_block_ssbd"
  by (simp add: ssbd_inv_def one_block_ssbd_def mem_leveldb_def log_readable_def readable_def
      log_abs_def get_pending_prepare_data_def get_or_empty_def)

lemma view_one_block:
  "view mem_leveldb one_block_ssbd (block_key (replicate 32 65) 3) = \<lparr>ab_content = Some [5, 6], ab_log = fresh_log\<rparr>"
  by (simp add: view_def one_block_ssbd_def mem_leveldb_def log_abs_def get_pending_prepare_data_def
      get_or_empty_def fresh_log_def fst_get_version cell_number_def)

theorem pending_write_isolated_witness:
  "\<exists>sv'. serve mem_leveldb one_block_ssbd
     [frame (sample_request Two_pc_prepare 2 3 9 [1, 2, 3]), frame (sample_request Two_pc_prepare 0 3 10 [1, 2, 3]),
      frame (sample_request L_get 1 1 0 [])] =
   Some (sv', [answer Two_pc_prepare_agree (sample_request Two_pc_prepare 2 3 9 [1, 2, 3]),
     answer Two_pc_prepare_abort (sample_request Two_pc_prepare 0 3 10 [1, 2, 3]),
     (answer L_ack (sample_request L_get 1 1 0 []))\<lparr>lp_buf := [6]\<rparr>])"
proof -
  have "a_read (Suc 0) (Suc 0) [5, 6] = [6]" by (simp add: a_read_def resize_def)
  then show ?thesis
    using pending_write_isolated [OF mem_leveldb_ok one_block_ssbd_inv,
        of "sample_request Two_pc_prepare 2 3 9 [1, 2, 3]" "sample_request Two_pc_prepare 0 3 10 [1, 2, 3]"
           "sample_request L_get 1 1 0 []" "[5, 6]"]
    by (auto simp: sample_requests_ok has_body_def view_one_block fresh_log_def pending_def)
qed

text \<open>
  C10. Sessions. A connection that carries any sequence of well-formed requests of known types, none of
  which reads behind the end of its block, is served to its end: the byte stream is cut
  into exactly those requests, each gets one answer, in order, the answers and the final blocks are
  those of the abstract session, and the invariant holds at the end.
\<close>

theorem connection_serves_session:
  assumes "leveldb_ok L" "ssbd_inv L sv" "session_ok (view L sv) ps"
  shows "\<exists>sv'. connection L sv (concat (map (\<lambda>p. ldump (lp_header p) @ lp_buf p) ps)) =
      Some (sv', snd (a_serve (view L sv) ps)) \<and> ssbd_inv L sv' \<and>
    (\<forall>k. is_block_key k \<longrightarrow> view L sv' k = fst (a_serve (view L sv) ps) k)"
proof -
  have "session_ok v qs \<Longrightarrow> \<forall>p \<in> set qs. request_ok p" for v qs
    by (induction qs arbitrary: v) auto
  then have "\<forall>(h, b) \<in> set (map frame ps). wf_lheader h \<and> length b = body_len h"
    using assms(3) by (fastforce simp: frame_def request_ok_def)
  from leveldb_wire.read_frames_stream [OF this]
  have "connection L sv (concat (map (\<lambda>p. ldump (lp_header p) @ lp_buf p) ps)) = serve L sv (map frame ps)"
    by (simp add: connection_def frame_def comp_def)
  with session_refines [OF assms] show ?thesis by (auto simp: agree_def)
qed

theorem connection_serves_session_witness:
  "\<exists>sv' rs. connection mem_leveldb one_block_ssbd
     (ldump (lp_header (sample_request L_get 2 3 0 [])) @
      ldump (lp_header (sample_request Two_pc_commit_rollback 0 3 0 []))) = Some (sv', rs) \<and> length rs = 2"
proof -
  have "session_ok (view mem_leveldb one_block_ssbd)
      [sample_request L_get 2 3 0 [], sample_request Two_pc_commit_rollback 0 3 0 []]"
    by (simp add: sample_requests_ok has_body_def read_inside_def view_one_block)
  from connection_serves_session [OF mem_leveldb_ok one_block_ssbd_inv this] show ?thesis
    by (auto simp: Let_def split: prod.splits)
qed

text \<open>
  The limit of reads. For a read of an existing block, \<^verbatim>\<open>rawblocks::read\<close> computes
  \<^verbatim>\<open>buf_.size() - headersize() - logic_position\<close> in unsigned arithmetic: the handler has defined
  behaviour exactly when the position is not behind the end of the stored block; otherwise the
  subtraction wraps and bytes outside the buffer are copied.
\<close>

theorem read_defined_iff_inside:
  assumes "ssbd_inv L sv" and "ldb_Get L (sv_db sv) (as_string (lp_header p)) = Some c"
  shows "start_db_read L p sv = Undef \<longleftrightarrow> length c < unat (lh_position (lp_header p))"
  using db_read_eq [OF assms] by auto

theorem read_defined_iff_inside_witness:
  "start_db_read mem_leveldb (sample_request L_get 3 1 0 []) one_block_ssbd = Undef"
  using read_defined_iff_inside [OF one_block_ssbd_inv, of "sample_request L_get 3 1 0 []" "[5, 6]"]
  by (simp add: one_block_ssbd_def mem_leveldb_def)

text \<open>
  C32. A lost write. A rollback clears the pending cell of the block without looking at the version it
  carries. When writer \<open>w\<close> was agreed to and a competing prepare \<open>w'\<close> was answered with abort, the
  rollback of the competitor erases the staged data of \<open>w\<close>, and the commit of \<open>w\<close>, which is still
  acknowledged, stores the empty block: the old content and the agreed write are both gone.
\<close>

theorem rollback_of_loser_loses_block:
  assumes "leveldb_ok L" "ssbd_inv L sv"
    and "request_ok w" "kind w = Some Two_pc_prepare"
    and "request_ok w'" "kind w' = Some Two_pc_prepare" "as_string (lp_header w') = as_string (lp_header w)"
    and "request_ok r" "kind r = Some Two_pc_commit_rollback" "as_string (lp_header r) = as_string (lp_header w)"
    and "request_ok c" "kind c = Some Two_pc_commit_execute" "as_string (lp_header c) = as_string (lp_header w)"
    and "ab_content (view L sv (as_string (lp_header w))) = Some old"
    and "\<not> pending (ab_log (view L sv (as_string (lp_header w))))"
    and "lh_version (lp_header w) \<noteq> 0"
    and "lh_version (lp_header w) \<noteq> bl_committed (ab_log (view L sv (as_string (lp_header w))))"
  shows "\<exists>sv'. serve L sv [frame w, frame w', frame r, frame c] =
      Some (sv', [answer Two_pc_prepare_agree w, answer Two_pc_prepare_abort w',
                  answer Two_pc_commit_ack r, answer Two_pc_commit_ack c]) \<and>
    ab_content (view L sv' (as_string (lp_header w))) = Some []"
proof -
  let ?v = "view L sv" and ?key = "as_string (lp_header w)"
  let ?b1 = "a_stage (unat (lh_position (lp_header w))) (lp_buf w) (lh_version (lp_header w)) (?v ?key)"
  have b1: "a_open ?b1 = ?b1" "pending (ab_log ?b1)" and op: "a_open (?v ?key) = ?v ?key"
    using assms(14,16,17) by (auto simp: a_stage_def a_open_def pending_def a_content_def)
  have step: "a_step w ?v = (?v(?key := ?b1), answer Two_pc_prepare_agree w)"
    using assms(4,15) by (simp add: session_simps op answer_def)
  have "session_ok ?v [w, w', r, c]"
    using assms(3-13) by (simp add: step)
  moreover have "a_serve ?v [w, w', r, c] = (?v(?key := a_commit (a_rollback ?b1)),
      [answer Two_pc_prepare_agree w, answer Two_pc_prepare_abort w', answer Two_pc_commit_ack r,
       answer Two_pc_commit_ack c])"
    using assms(6,7,9,10,12,13) by (simp add: step) (simp add: session_simps b1 answer_def)
  moreover have "ab_content (a_commit (a_rollback ?b1)) = Some []"
    by (simp add: a_commit_def a_rollback_def)
  ultimately show ?thesis
    using session_refines [OF assms(1,2), of "[w, w', r, c]"] assms(3) by (auto simp: agree_def)
qed

theorem rollback_of_loser_loses_block_witness:
  "\<exists>sv' rs. serve mem_leveldb one_block_ssbd
     [frame (sample_request Two_pc_prepare 2 3 9 [1, 2, 3]), frame (sample_request Two_pc_prepare 0 3 10 [1, 2, 3]),
      frame (sample_request Two_pc_commit_rollback 0 0 10 []), frame (sample_request Two_pc_commit_execute 2 0 9 [])] =
       Some (sv', rs) \<and> ab_content (view mem_leveldb sv' (block_key (replicate 32 65) 3)) = Some []"
  using rollback_of_loser_loses_block [OF mem_leveldb_ok one_block_ssbd_inv,
      of "sample_request Two_pc_prepare 2 3 9 [1, 2, 3]" "sample_request Two_pc_prepare 0 3 10 [1, 2, 3]"
         "sample_request Two_pc_commit_rollback 0 0 10 []" "sample_request Two_pc_commit_execute 2 0 9 []" "[5, 6]"]
  by (auto simp: sample_requests_ok has_body_def view_one_block fresh_log_def pending_def)

end
