(* ===== verification/Ssbd_Client.thy ===== *)
theory Ssbd_Client
  imports Ssbd_Server "HOL-Library.Multiset"
begin

text \<open>
  The client side of a block server connection, \<^verbatim>\<open>functions/libslsfs/slsfs/backend-ssbd.hpp\<close>
  (classes \<^verbatim>\<open>detail::job\<close> and \<^verbatim>\<open>ssbd\<close>). The table of outstanding jobs is a concurrent hash map
  keyed by uuid, block number and salt of the request header, which is what its comparison looks
  at. A callback is a value of type \<open>'c\<close>; an operation returns the callbacks it runs, each with the
  packet it is given. Time stamps and log lines are left out.
\<close>

section \<open>Jobs\<close>

record 'c job =
  jb_original_request :: lpacket
  jb_next :: 'c

definition job_run :: "'c job \<Rightarrow> lpacket \<Rightarrow> 'c \<times> lpacket" where
  "job_run j resp = (jb_next j, resp)"

definition job_cancel :: "'c job \<Rightarrow> 'c \<times> lpacket" where
  "job_cancel j =
     job_run j \<lparr>lp_header = set_ltype L_err (lp_header (jb_original_request j)), lp_buf = []\<rparr>"

type_synonym jobkey = "bytes \<times> u32 \<times> bytes"
type_synonym ('c, 't) jobmap = "(jobkey, 'c job, 't) chmap"

section \<open>Requests\<close>

text \<open>
  What goes to the socket: a read request sends its header only, with the number of bytes to read
  in \<^verbatim>\<open>datasize\<close>; every other request is serialized, which sets \<^verbatim>\<open>datasize\<close> to the size of the body.
\<close>

definition wire :: "lpacket \<Rightarrow> bytes option" where
  "wire p = (if kind p = Some L_get then Some (serialize_header p) else map_option snd (lserialize p))"

text \<open>The request as the server sees it.\<close>

definition sent :: "lpacket \<Rightarrow> lpacket" where
  "sent p = (if kind p = Some L_get then p\<lparr>lp_buf := []\<rparr> else p\<lparr>lp_header := lsized p\<rparr>)"

text \<open>
  \<open>start_send_request\<close>: register the job, then write. The flag is the result of \<^verbatim>\<open>emplace\<close>, checked by
  an assertion. The completion handler of the write cancels the job when the write failed.
\<close>

definition start_send_request ::
  "('c, 't) jobmap \<Rightarrow> lpacket \<Rightarrow> 'c \<Rightarrow> 't \<Rightarrow> bool \<times> 't \<times> bytes option" where
  "start_send_request M p on_response jobs =
     (let k = job_key (lp_header p)
      in (chm_find M jobs k = None,
          chm_emplace M jobs k \<lparr>jb_original_request = p, jb_next = on_response\<rparr>,
          wire p))"

definition on_written :: "bool \<Rightarrow> 'c job \<Rightarrow> ('c \<times> lpacket) list" where
  "on_written ec j = (if ec then [job_cancel j] else [])"

text \<open>
  \<open>start_read_one_body\<close>: with the header and the body read, find the job, run it, erase it. A
  response that matches no job fails the assertion (and would dereference an empty accessor).
\<close>

definition start_read_one_body ::
  "('c, 't) jobmap \<Rightarrow> lpacket \<Rightarrow> 't \<Rightarrow> ('t \<times> 'c \<times> lpacket) option" where
  "start_read_one_body M resp jobs =
     (let k = job_key (lp_header resp)
      in case chm_find M jobs k of
           None \<Rightarrow> None
         | Some j \<Rightarrow> Some (chm_erase M jobs k, job_run j resp))"

fun read_loop :: "('c, 't) jobmap \<Rightarrow> lpacket list \<Rightarrow> 't \<Rightarrow> ('t \<times> ('c \<times> lpacket) list) option" where
  "read_loop M [] jobs = Some (jobs, [])"
| "read_loop M (resp # rs) jobs =
     (case start_read_one_body M resp jobs of
        None \<Rightarrow> None
      | Some (jobs', call) \<Rightarrow> map_option (\<lambda>(jobs'', calls). (jobs'', call # calls)) (read_loop M rs jobs'))"

text \<open>\<open>start_read_one\<close>: the frames of the socket, with \<^verbatim>\<open>datasize\<close> body bytes each.\<close>

definition start_read_one :: "('c, 't) jobmap \<Rightarrow> bytes \<Rightarrow> 't \<Rightarrow> ('t \<times> ('c \<times> lpacket) list) option" where
  "start_read_one M stream jobs =
     read_loop M (map (\<lambda>(h, b). \<lparr>lp_header = h, lp_buf = b\<rparr>)
       (fst (read_frames lparse lbytesize (\<lambda>h. unat (lh_datasize h)) stream))) jobs"

text \<open>\<open>close\<close> cancels every outstanding job; the table keeps them.\<close>

definition client_close :: "('c, 't) jobmap \<Rightarrow> 't \<Rightarrow> ('c \<times> lpacket) list" where
  "client_close M jobs = map (\<lambda>(k, j). job_cancel j) (chm_range M jobs)"

section \<open>Sending and receiving\<close>

definition register_all :: "('c, 't) jobmap \<Rightarrow> (lpacket \<times> 'c) list \<Rightarrow> 't \<Rightarrow> 't" where
  "register_all M reqs jobs = foldl (\<lambda>js (p, c). fst (snd (start_send_request M p c js))) jobs reqs"

definition request_key :: "lpacket \<times> 'c \<Rightarrow> jobkey" where
  "request_key r = job_key (lp_header (fst r))"

definition request_job :: "lpacket \<times> 'c \<Rightarrow> 'c job" where
  "request_job r = \<lparr>jb_original_request = fst r, jb_next = snd r\<rparr>"

lemma register_all_find:
  assumes "chmap_ok M" "distinct (map request_key reqs)" "\<forall>r \<in> set reqs. chm_find M jobs (request_key r) = None"
  shows "chm_find M (register_all M reqs jobs) =
    chm_find M jobs ++ map_of (map (\<lambda>r. (request_key r, request_job r)) reqs)"
  using assms(2,3)
proof (induction reqs arbitrary: jobs)
  case Nil
  then show ?case by (simp add: register_all_def)
next
  case (Cons r reqs)
  obtain p c where r: "r = (p, c)" by (cases r)
  let ?js = "fst (snd (start_send_request M p c jobs))"
  have find: "chm_find M ?js = (chm_find M jobs)(request_key r \<mapsto> request_job r)"
    using Cons.prems(2)
    by (simp add: start_send_request_def chmap_find_emplace [OF assms(1)] r request_key_def request_job_def Let_def)
  have "chm_find M (register_all M reqs ?js) =
      chm_find M ?js ++ map_of (map (\<lambda>r. (request_key r, request_job r)) reqs)"
    using Cons.prems by (intro Cons.IH) (auto simp: find image_iff)
  moreover have "register_all M (r # reqs) jobs = register_all M reqs ?js"
    by (simp add: register_all_def r)
  moreover have "map_of (map (\<lambda>r. (request_key r, request_job r)) reqs) (request_key r) = None"
    using Cons.prems(1) by (auto simp: map_of_eq_None_iff comp_def)
  ultimately show ?case
    by (auto simp: find map_add_def fun_eq_iff split: option.splits)
qed

text \<open>A permutation of the keys comes from a permutation of the requests.\<close>

lemma align_keys:
  "mset (map k xs) = mset zs \<Longrightarrow> \<exists>ys. mset ys = mset xs \<and> map k ys = zs"
proof (induction zs arbitrary: xs)
  case Nil
  then show ?case by simp
next
  case (Cons z zs)
  then obtain x where x: "x \<in> set xs" "k x = z"
    using mset_eq_setD [OF Cons.prems] by force
  then have "mset (map k (remove1 x xs)) = mset zs"
    using Cons.prems by (simp add: image_mset_Diff)
  from Cons.IH [OF this] obtain ys where "mset ys = mset (remove1 x xs)" "map k ys = zs" by blast
  moreover from this have "mset (x # ys) = add_mset x (mset xs - {#x#})"
    by (simp only: mset.simps mset_remove1)
  then have "mset (x # ys) = mset xs"
    using x(1) by (simp only: insert_DiffM set_mset_mset)
  ultimately show ?case using x(2) by (intro exI [of _ "x # ys"]) simp
qed

text \<open>The callbacks run when the requests are listed in the order of their responses.\<close>

lemma zip_calls:
  assumes "map request_key ys = map (job_key \<circ> lp_header) rs"
    and "\<And>q. q \<in> set ys \<Longrightarrow> tab (request_key q) = Some (request_job q)"
  shows "map (\<lambda>r. job_run (the (tab (job_key (lp_header r)))) r) rs = zip (map snd ys) rs"
  using assms
proof (induction ys arbitrary: rs)
  case (Cons q ys)
  then obtain r rs' where r: "rs = r # rs'" "request_key q = job_key (lp_header r)"
    "map request_key ys = map (job_key \<circ> lp_header) rs'"
    by (auto simp: comp_def)
  with Cons.IH [of rs'] Cons.prems(2) [of q] Cons.prems(2) show ?case
    by (simp add: job_run_def request_job_def)
qed simp

lemma zip_owners:
  assumes "map request_key ys = map (job_key \<circ> lp_header) rs"
  shows "\<forall>(c, r) \<in> set (zip (map snd ys) rs). \<exists>p. (p, c) \<in> set ys \<and> job_key (lp_header p) = job_key (lp_header r)"
  using assms
proof (induction ys arbitrary: rs)
  case (Cons q ys)
  then obtain r rs' where r: "rs = r # rs'" "request_key q = job_key (lp_header r)"
    "map request_key ys = map (job_key \<circ> lp_header) rs'"
    by (auto simp: comp_def)
  with Cons.IH [of rs'] show ?case
    by (cases q) (fastforce simp: request_key_def)
qed simp

text \<open>Receiving: each response takes the job with its key out of the table.\<close>

lemma read_loop_find:
  assumes "chmap_ok M" "distinct (map (job_key \<circ> lp_header) rs)"
    and "\<forall>r \<in> set rs. chm_find M jobs (job_key (lp_header r)) \<noteq> None"
  shows "\<exists>jobs'. read_loop M rs jobs =
      Some (jobs', map (\<lambda>r. job_run (the (chm_find M jobs (job_key (lp_header r)))) r) rs) \<and>
    chm_find M jobs' = chm_find M jobs |` (- (job_key \<circ> lp_header) ` set rs)"
  using assms(2,3)
proof (induction rs arbitrary: jobs)
  case Nil
  then show ?case by simp
next
  case (Cons r rs)
  let ?k = "job_key (lp_header r)"
  obtain j where j: "chm_find M jobs ?k = Some j"
    using Cons.prems(2) by auto
  have erase: "chm_find M (chm_erase M jobs ?k) = (chm_find M jobs)(?k := None)"
    by (rule chmap_find_erase [OF assms(1)])
  have other: "job_key (lp_header r') \<noteq> ?k" if "r' \<in> set rs" for r'
    using Cons.prems(1) that by (auto simp: comp_def image_iff)
  then have "\<forall>r' \<in> set rs. chm_find M (chm_erase M jobs ?k) (job_key (lp_header r')) \<noteq> None"
    using Cons.prems(2) by (auto simp: erase)
  with Cons.IH [of "chm_erase M jobs ?k"] Cons.prems(1) obtain jobs' where
    "read_loop M rs (chm_erase M jobs ?k) =
       Some (jobs', map (\<lambda>r'. job_run (the (chm_find M (chm_erase M jobs ?k) (job_key (lp_header r')))) r') rs)"
    "chm_find M jobs' = chm_find M (chm_erase M jobs ?k) |` (- (job_key \<circ> lp_header) ` set rs)"
    by auto
  then show ?case
    using j other by (auto simp: start_read_one_body_def erase restrict_map_def fun_eq_iff)
qed

section \<open>Agreement of client and server on the framing\<close>

text \<open>
  Requests the data function builds: well formed, of a known type, with a body only where the
  server reads one, and below 4 GiB in all.
\<close>

definition client_packet :: "lpacket \<Rightarrow> bool" where
  "client_packet p \<longleftrightarrow>
     wf_lheader (lp_header p) \<and> lbytesize + length (lp_buf p) < 2 ^ 32 \<and>
     (case kind p of None \<Rightarrow> False | Some m \<Rightarrow> has_body m \<or> m = L_get \<or> lp_buf p = [])"

lemma wf_lsized [simp]: "wf_lheader (lsized p) = wf_lheader (lp_header p)"
  by (simp add: lsized_def wf_lheader_def)

lemma kind_sent [simp]: "kind (sent p) = kind p"
  by (simp add: sent_def kind_def lsized_def)

lemma wire_frame:
  assumes "client_packet p"
  shows "wire p = Some (ldump (lp_header (sent p)) @ lp_buf (sent p))"
    and "wf_lheader (lp_header (sent p))" and "length (lp_buf (sent p)) = body_len (lp_header (sent p))"
proof -
  from assms obtain m where m: "kind p = Some m" and p: "wf_lheader (lp_header p)"
    "lbytesize + length (lp_buf p) < 2 ^ 32" "has_body m \<or> m = L_get \<or> lp_buf p = []"
    by (auto simp: client_packet_def split: option.splits)
  note ser = lserialize_Some [OF p(2)]
  show "wire p = Some (ldump (lp_header (sent p)) @ lp_buf (sent p))"
    using ser by (auto simp: wire_def sent_def serialize_header_def)
  show "wf_lheader (lp_header (sent p))"
    using p(1) by (simp add: sent_def)
  have "lmsg_of (lh_type (lp_header (sent p))) = Some m"
    using m kind_sent [of p] by (simp add: kind_def)
  then show "length (lp_buf (sent p)) = body_len (lp_header (sent p))"
    using ser p(3) m by (auto simp: body_len_eq sent_def has_body_def)
qed

section \<open>Properties\<close>

text \<open>
  Client and server agree on the framing. The bytes the client writes for a sequence of requests,
  reads as bare headers and all others serialized with their body, are cut by the server, which
  looks at the message type to decide whether a body follows, into exactly those requests.
\<close>

theorem request_framing_agrees:
  assumes "\<forall>p \<in> set ps. client_packet p"
  shows "\<exists>bs. map wire ps = map Some bs \<and>
    read_frames lparse lbytesize body_len (concat bs) = (map (frame \<circ> sent) ps, [])"
proof -
  let ?bs = "map (\<lambda>p. ldump (lp_header (sent p)) @ lp_buf (sent p)) ps"
  have "map wire ps = map Some ?bs"
    using assms by (simp add: wire_frame(1))
  moreover have "\<forall>(h, b) \<in> set (map (frame \<circ> sent) ps). wf_lheader h \<and> length b = body_len h"
    using assms by (auto simp: frame_def wire_frame)
  from leveldb_wire.read_frames_stream [OF this]
  have "read_frames lparse lbytesize body_len (concat ?bs) = (map (frame \<circ> sent) ps, [])"
    by (simp add: frame_def comp_def)
  ultimately show ?thesis by blast
qed

theorem request_framing_agrees_witness:
  "\<exists>bs. map wire [sample_request L_get 2 300 0 [], sample_request Two_pc_prepare 2 0 9 [1, 2, 3]] = map Some bs \<and>
     read_frames lparse lbytesize body_len (concat bs) =
       (map (frame \<circ> sent) [sample_request L_get 2 300 0 [], sample_request Two_pc_prepare 2 0 9 [1, 2, 3]], [])"
  by (rule request_framing_agrees)
    (simp add: client_packet_def has_body_def lbytesize_def, simp add: sample_request_def)

text \<open>
  C33. Matching of responses. When requests with pairwise different keys (uuid, block number, salt) are
  registered in an empty table and a response for each of them arrives, in whatever order, every
  response runs the callback of its own request, each callback runs exactly once, and the table is
  empty at the end.
\<close>

theorem responses_match_requests:
  assumes "chmap_ok M" and "distinct (map request_key reqs)"
    and "mset (map (job_key \<circ> lp_header) rs) = mset (map request_key reqs)"
  shows "\<exists>jobs' calls. read_loop M rs (register_all M reqs (chm_empty M)) = Some (jobs', calls) \<and>
    chm_find M jobs' = Map.empty \<and> map snd calls = rs \<and>
    (\<forall>(c, r) \<in> set calls. \<exists>p. (p, c) \<in> set reqs \<and> job_key (lp_header p) = job_key (lp_header r)) \<and>
    mset (map fst calls) = mset (map snd reqs)"
proof -
  let ?jobs = "register_all M reqs (chm_empty M)"
  let ?tab = "map (\<lambda>r. (request_key r, request_job r)) reqs"
  have find: "chm_find M ?jobs = map_of ?tab"
    using register_all_find [OF assms(1,2), of "chm_empty M"]
    by (simp add: chmap_find_empty assms(1) map_add_def fun_eq_iff split: option.splits)
  obtain ys where ys: "mset ys = mset reqs" "map request_key ys = map (job_key \<circ> lp_header) rs"
    using align_keys [OF assms(3) [symmetric]] by blast
  have tab: "map_of ?tab (request_key q) = Some (request_job q)" if "q \<in> set ys" for q
    using that assms(2) mset_eq_setD [OF ys(1)] by (intro map_of_is_SomeI) (auto simp: comp_def)
  have keys: "(job_key \<circ> lp_header) ` set rs = request_key ` set reqs"
    using ys by (metis list.set_map mset_eq_setD)
  have dist: "distinct (map (job_key \<circ> lp_header) rs)"
    using assms(2,3) by (metis mset_eq_imp_distinct_iff)
  have len: "length ys = length rs" using ys(2) by (metis length_map)
  have calls: "map (\<lambda>r. job_run (the (chm_find M ?jobs (job_key (lp_header r)))) r) rs = zip (map snd ys) rs"
    using ys(2) by (rule zip_calls) (simp add: find tab)
  have "\<forall>r \<in> set rs. chm_find M ?jobs (job_key (lp_header r)) \<noteq> None"
    using keys by (auto simp: find map_of_eq_None_iff comp_def image_image)
  from read_loop_find [OF assms(1) dist this] obtain jobs' where
    run: "read_loop M rs ?jobs = Some (jobs', zip (map snd ys) rs)"
    "chm_find M jobs' = map_of ?tab |` (- request_key ` set reqs)"
    using calls by (simp add: keys find del: comp_apply image_comp) blast
  have "chm_find M jobs' = Map.empty"
    using run(2) by (auto simp: restrict_map_def fun_eq_iff map_of_eq_None_iff)
  moreover have "mset (map fst (zip (map snd ys) rs)) = mset (map snd reqs)"
    using ys(1) len by simp
  moreover have "\<forall>(c, r) \<in> set (zip (map snd ys) rs).
      \<exists>p. (p, c) \<in> set reqs \<and> job_key (lp_header p) = job_key (lp_header r)"
    using zip_owners [OF ys(2)] by (simp only: mset_eq_setD [OF ys(1)])
  moreover have "map snd (zip (map snd ys) rs) = rs"
    using len by simp
  ultimately show ?thesis
    using run(1) by blast
qed

theorem responses_match_requests_witness:
  "\<exists>jobs'. read_loop al_chmap [answer L_ack (sample_request L_get 9 1 0 []), answer L_ack (\<lparr>lp_header = sample_lheader L_get 4 0 1 0, lp_buf = []\<rparr>)]
     (register_all al_chmap [(\<lparr>lp_header = sample_lheader L_get 4 0 1 0, lp_buf = []\<rparr>, ''a''), (sample_request L_get 9 1 0 [], ''b'')] []) =
     Some (jobs', [(''b'', answer L_ack (sample_request L_get 9 1 0 [])),
                   (''a'', answer L_ack (\<lparr>lp_header = sample_lheader L_get 4 0 1 0, lp_buf = []\<rparr>))])"
proof -
  let ?p = "\<lparr>lp_header = sample_lheader L_get 4 0 1 0, lp_buf = []\<rparr>" and ?q = "sample_request L_get 9 1 0 []"
  have keys: "job_key (lp_header (answer m p)) = job_key (lp_header p)" for m p
    by (simp add: answer_def job_key_def set_ltype_def)
  have neq: "job_key (lp_header ?p) \<noteq> job_key (lp_header ?q)"
    by (simp add: job_key_def sample_request_def sample_lheader_def)
  have "chm_empty (al_chmap :: (jobkey, string job, _) chmap) = []"
    by (simp add: al_chmap_def)
  with responses_match_requests [OF al_chmap_ok, of "[(?p, ''a''), (?q, ''b'')]" "[answer L_ack ?q, answer L_ack ?p]"] neq
  show ?thesis
    by (auto simp: request_key_def keys add_mset_commute)
qed

end
