(* ===== verification/Block_Range.thy ===== *)
theory Block_Range
  imports Block_Spec
begin

text \<open>
  The loop that every operation of \<^verbatim>\<open>storage_conf_ssbd_backend\<close> runs over the blocks of a byte
  range: \<^verbatim>\<open>currentpos\<close> walks from \<^verbatim>\<open>realpos\<close> to \<^verbatim>\<open>endpos\<close> in 32-bit arithmetic, one chunk per block.
  \<open>tiles\<close> is the specification over natural numbers: the chunks cover the range without gap or
  overlap, each inside one block. The second half describes a file as a flat array of bytes
  (\<open>file_byte\<close>) and what patching and reading its chunks means there.
\<close>

section \<open>The loop\<close>

record chunk =
  ck_block :: u32
  ck_offset :: u32
  ck_size :: u32
  ck_bufoff :: u32

lemma chunk_step:
  fixes cur endp bs :: u32
  assumes "bs \<noteq> 0" "cur < endp"
  defines "n \<equiv> min (endp - cur) (bs - cur mod bs)"
  shows "0 < unat n" and "unat (cur + n) = unat cur + unat n" and "unat (cur + n) \<le> unat endp"
    and "unat n = min (unat endp - unat cur) (unat bs - unat cur mod unat bs)"
proof -
  have md: "unat (cur mod bs) = unat cur mod unat bs" by (simp add: unat_mod)
  have bs: "0 < unat bs" using assms(1) by (simp add: unat_gt_0)
  then have less: "unat cur mod unat bs < unat bs" by simp
  have "unat (endp - cur) = unat endp - unat cur"
    using assms(2) by (simp add: unat_sub)
  moreover have "unat (bs - cur mod bs) = unat bs - unat cur mod unat bs"
    using less by (simp add: unat_sub word_le_nat_alt md)
  ultimately show n: "unat n = min (unat endp - unat cur) (unat bs - unat cur mod unat bs)"
    by (simp add: n_def unat_min)
  show "0 < unat n"
    using n less assms(2) by (simp add: word_less_nat_alt)
  have sum: "unat cur + unat n \<le> unat endp"
    using n assms(2) by (simp add: word_less_nat_alt)
  have "unat cur + unat n < 4294967296"
    using sum unat_u32_less by (rule le_less_trans)
  then show "unat (cur + n) = unat cur + unat n"
    by (simp add: unat_word_ariths)
  then show "unat (cur + n) \<le> unat endp" using sum by simp
qed

function chunk_loop :: "u32 \<Rightarrow> u32 \<Rightarrow> u32 \<Rightarrow> u32 \<Rightarrow> chunk list" where
  "chunk_loop bs cur endp boff =
     (if bs = 0 \<or> \<not> cur < endp then []
      else let blockid = cur div bs; offset = cur mod bs; n = min (endp - cur) (bs - offset)
           in \<lparr>ck_block = blockid, ck_offset = offset, ck_size = n, ck_bufoff = boff\<rparr>
                # chunk_loop bs (cur + n) endp (boff + n))"
  by pat_completeness auto
termination
proof (relation "measure (\<lambda>(bs, cur, endp, boff). unat endp - unat cur)", goal_cases)
  case 1
  then show ?case by simp
next
  case (2 bs cur endp boff blockid offset n)
  then have "bs \<noteq> 0" "cur < endp" by simp_all
  from chunk_step(1,2) [OF this] 2(2-4) have "unat cur < unat (cur + n)" by simp
  moreover have "unat cur < unat endp"
    using \<open>cur < endp\<close> by (simp add: word_less_nat_alt)
  ultimately show ?case by simp
qed

declare chunk_loop.simps [simp del]

text \<open>
  The chunks of a request: \<^verbatim>\<open>endpos\<close> is a 32-bit sum. A block size of zero would divide by zero in
  the first turn of the loop, \<open>None\<close>.
\<close>

definition chunks :: "u32 \<Rightarrow> u32 \<Rightarrow> u32 \<Rightarrow> chunk list option" where
  "chunks bs realpos n =
     (if bs = 0 \<and> realpos < realpos + n then None else Some (chunk_loop bs realpos (realpos + n) 0))"

section \<open>Tilings of a range\<close>

fun tiles :: "nat \<Rightarrow> nat \<Rightarrow> nat \<Rightarrow> nat \<Rightarrow> chunk list \<Rightarrow> bool" where
  "tiles bs cur endp boff [] \<longleftrightarrow> cur = endp"
| "tiles bs cur endp boff (c # cs) \<longleftrightarrow>
     unat (ck_block c) = cur div bs \<and> unat (ck_offset c) = cur mod bs \<and>
     0 < unat (ck_size c) \<and> unat (ck_offset c) + unat (ck_size c) \<le> bs \<and>
     unat (ck_bufoff c) = boff \<and> cur + unat (ck_size c) \<le> endp \<and>
     (cs \<noteq> [] \<longrightarrow> unat (ck_offset c) + unat (ck_size c) = bs) \<and>
     tiles bs (cur + unat (ck_size c)) endp (boff + unat (ck_size c)) cs"

lemma chunk_loop_end: "\<not> cur < endp \<Longrightarrow> chunk_loop bs cur endp boff = []"
  by (simp add: chunk_loop.simps)

lemma chunk_loop_tiles:
  assumes "bs \<noteq> 0" "cur \<le> endp" "unat boff \<le> unat cur"
  shows "tiles (unat bs) (unat cur) (unat endp) (unat boff) (chunk_loop bs cur endp boff)"
  using assms
proof (induction bs cur endp boff rule: chunk_loop.induct)
  case (1 bs cur endp boff)
  show ?case
  proof (cases "cur < endp")
    case False
    then show ?thesis using 1(3) by (simp add: chunk_loop_end)
  next
    case True
    define n where "n = min (endp - cur) (bs - cur mod bs)"
    note st = chunk_step [OF 1(2) True, folded n_def]
    have "unat boff + unat n \<le> unat (cur + n)"
      using 1(4) st(2) by simp
    then have "unat boff + unat n < 4294967296"
      using unat_u32_less by (rule le_less_trans)
    then have boff: "unat (boff + n) = unat boff + unat n"
      by (simp add: unat_word_ariths)
    have "tiles (unat bs) (unat (cur + n)) (unat endp) (unat (boff + n)) (chunk_loop bs (cur + n) endp (boff + n))"
      using 1(1) [OF _ refl refl n_def] True 1(2,4) st(2,3) boff by (simp add: word_le_nat_alt)
    moreover have "unat cur mod unat bs < unat bs"
      using 1(2) by (simp add: unat_gt_0)
    moreover have "chunk_loop bs (cur + n) endp (boff + n) \<noteq> [] \<Longrightarrow> unat (cur + n) < unat endp"
      using chunk_loop_end [of "cur + n" endp] by (auto simp: word_less_nat_alt)
    ultimately have "tiles (unat bs) (unat cur) (unat endp) (unat boff)
        (\<lparr>ck_block = cur div bs, ck_offset = cur mod bs, ck_size = n, ck_bufoff = boff\<rparr>
         # chunk_loop bs (cur + n) endp (boff + n))"
      using st boff by (auto simp: unat_div unat_mod min_def split: if_splits)
    then show ?thesis
      using True 1(2) unfolding n_def by (subst chunk_loop.simps) (simp only: Let_def if_False simp_thms)
  qed
qed

lemma chunks_tile:
  assumes "bs \<noteq> 0" "unat pos + unat n < 2 ^ 32"
  obtains cs where "chunks bs pos n = Some cs" "tiles (unat bs) (unat pos) (unat pos + unat n) 0 cs"
proof -
  have end_eq: "unat (pos + n) = unat pos + unat n"
    using assms(2) by (simp add: unat_word_ariths)
  then have "tiles (unat bs) (unat pos) (unat (pos + n)) 0 (chunk_loop bs pos (pos + n) 0)"
    using chunk_loop_tiles [OF assms(1), of pos "pos + n" 0] by (simp add: word_le_nat_alt)
  with assms(1) end_eq show thesis by (intro that) (auto simp: chunks_def)
qed

lemma tiles_le: "tiles bs cur endp boff cs \<Longrightarrow> cur \<le> endp"
  by (induction cs arbitrary: cur boff) auto

lemma tiles_empty: "tiles bs cur endp boff cs \<Longrightarrow> cs = [] \<longleftrightarrow> cur = endp"
  by (cases cs) (auto dest: tiles_le)

text \<open>The blocks of a tiling are strictly increasing, so no block is visited twice.\<close>

lemma tiles_blocks:
  assumes "tiles bs cur endp boff cs" "0 < bs"
  shows "map (\<lambda>c. unat (ck_block c)) cs = [cur div bs ..< cur div bs + length cs]"
  using assms
proof (induction cs arbitrary: cur boff)
  case (Cons c cs)
  show ?case
  proof (cases "cs = []")
    case False
    then have "cur + unat (ck_size c) = bs * (cur div bs + 1)"
      using Cons.prems(1) by (simp add: algebra_simps) (metis add.assoc add.commute mult_div_mod_eq)
    then have "(cur + unat (ck_size c)) div bs = cur div bs + 1"
      using Cons.prems(2) by simp
    then have "map (\<lambda>c. unat (ck_block c)) cs = [cur div bs + 1 ..< cur div bs + 1 + length cs]"
      using Cons.IH [of "cur + unat (ck_size c)" "boff + unat (ck_size c)"] Cons.prems
      by (simp del: upt_Suc)
    then show ?thesis
      using Cons.prems(1) by (simp add: upt_conv_Cons del: upt_Suc)
  qed (use Cons.prems in simp)
qed simp

lemma tiles_distinct: "tiles bs cur endp boff cs \<Longrightarrow> 0 < bs \<Longrightarrow> distinct (map ck_block cs)"
  using tiles_blocks [of bs cur endp boff cs] by (metis (no_types, lifting) distinct_map distinct_upt inj_on_def list.map_comp)

text \<open>The buffer slices of a tiling, put together, are the buffer range.\<close>

lemma tiles_slices:
  "tiles bs cur endp boff cs \<Longrightarrow>
   concat (map (\<lambda>c. slice (unat (ck_bufoff c)) (unat (ck_size c)) data) cs) = slice boff (endp - cur) data"
proof (induction cs arbitrary: cur boff)
  case Nil
  then show ?case by (simp add: slice_def)
next
  case (Cons c cs)
  let ?n = "unat (ck_size c)"
  have "slice boff ?n data @ slice (boff + ?n) (endp - (cur + ?n)) data = slice boff (?n + (endp - (cur + ?n))) data"
    by (rule slice_join) simp
  moreover have "?n + (endp - (cur + ?n)) = endp - cur"
    using Cons.prems by simp
  moreover have "tiles bs (cur + ?n) endp (boff + ?n) cs" "unat (ck_bufoff c) = boff"
    using Cons.prems by simp_all
  ultimately show ?case
    using Cons.IH [of "cur + ?n" "boff + ?n"] by simp
qed

lemma tiles_member:
  assumes "tiles bs cur endp boff cs" "c \<in> set cs"
  shows "unat (ck_offset c) + unat (ck_size c) \<le> bs" and "0 < unat (ck_size c)"
    and "unat (ck_bufoff c) + unat (ck_size c) \<le> boff + (endp - cur)"
  using assms by (induction cs arbitrary: cur boff) (auto dest: tiles_le, fastforce dest: tiles_le)

section \<open>Files as arrays of bytes\<close>

text \<open>
  The byte of a file at an address, when block \<open>b\<close> of the file has content \<open>f b\<close>: addresses behind
  the stored end of a block read as zero.
\<close>

definition file_byte :: "nat \<Rightarrow> (nat \<Rightarrow> bytes) \<Rightarrow> nat \<Rightarrow> u8" where
  "file_byte bs f a = (let c = f (a div bs) in if a mod bs < length c then c ! (a mod bs) else 0)"

fun patch_chunks :: "bytes \<Rightarrow> chunk list \<Rightarrow> (nat \<Rightarrow> bytes) \<Rightarrow> nat \<Rightarrow> bytes" where
  "patch_chunks data [] f = f"
| "patch_chunks data (c # cs) f =
     patch_chunks data cs
       (f(unat (ck_block c) := patch (unat (ck_offset c)) (slice (unat (ck_bufoff c)) (unat (ck_size c)) data)
            (f (unat (ck_block c)))))"

definition read_chunks :: "chunk list \<Rightarrow> (nat \<Rightarrow> bytes) \<Rightarrow> bytes" where
  "read_chunks cs f = concat (map (\<lambda>c. a_read (unat (ck_offset c)) (unat (ck_size c)) (f (unat (ck_block c)))) cs)"

lemma same_block:
  assumes "cur mod bs + i < (bs :: nat)"
  shows "(cur + i) div bs = cur div bs" and "(cur + i) mod bs = cur mod bs + i"
proof -
  obtain k r where kr: "bs * (cur div bs) = k" "cur mod bs = r" by blast
  then have eq: "cur = k + r" using mult_div_mod_eq [of bs cur] by simp
  have le: "bs * (cur div bs) \<le> cur + i" "cur + i < bs * Suc (cur div bs)"
    using assms by (simp_all add: kr) (simp_all add: eq)
  then show dv: "(cur + i) div bs = cur div bs"
    by (metis div_nat_eqI)
  show "(cur + i) mod bs = cur mod bs + i"
    by (simp add: modulo_nat_def dv le add.commute)
qed

lemma read_one_chunk:
  assumes "cur mod bs + n \<le> bs"
  shows "a_read (cur mod bs) n (f (cur div bs)) = map (file_byte bs f) [cur ..< cur + n]"
proof (rule nth_equalityI)
  fix i
  assume "i < length (a_read (cur mod bs) n (f (cur div bs)))"
  then have i: "i < n" by simp
  then have "cur mod bs + i < bs" using assms by simp
  with i show "a_read (cur mod bs) n (f (cur div bs)) ! i = map (file_byte bs f) [cur ..< cur + n] ! i"
    by (auto simp: a_read_def nth_resize file_byte_def same_block Let_def)
qed simp

lemma read_chunks_tiles:
  assumes "tiles bs cur endp boff cs"
  shows "read_chunks cs f = map (file_byte bs f) [cur ..< endp]"
  using assms
proof (induction cs arbitrary: cur boff)
  case Nil
  then show ?case by (simp add: read_chunks_def)
next
  case (Cons c cs)
  let ?n = "unat (ck_size c)"
  from Cons.prems have t: "tiles bs (cur + ?n) endp (boff + ?n) cs" and le: "cur + ?n \<le> endp"
    and c: "unat (ck_block c) = cur div bs" "unat (ck_offset c) = cur mod bs" "cur mod bs + ?n \<le> bs"
    by auto
  have "[cur ..< endp] = [cur ..< cur + ?n] @ [cur + ?n ..< endp]"
    using le by (metis le_add1 upt_add_eq_append le_add_diff_inverse)
  then show ?case
    using Cons.IH [OF t] read_one_chunk [OF c(3), of f] by (simp add: read_chunks_def c)
qed

lemma patch_one_block:
  assumes "off + length d \<le> bs"
  shows "file_byte bs (f(b := patch off d (f b))) a =
    (if b * bs + off \<le> a \<and> a < b * bs + off + length d then d ! (a - (b * bs + off)) else file_byte bs f a)"
proof (cases "a div bs = b \<and> 0 < bs")
  case True
  then have a: "a = b * bs + a mod bs" and less: "a mod bs < bs"
    by (auto simp: mod_div_decomp)
  define r where "r = a mod bs"
  have "file_byte bs (f(b := patch off d (f b))) a =
      (if off \<le> r \<and> r < off + length d then d ! (r - off) else if r < length (f b) then f b ! r else 0)"
    using True by (auto simp: file_byte_def Let_def nth_patch r_def)
  moreover have "file_byte bs f a = (if r < length (f b) then f b ! r else 0)"
    using True by (simp add: file_byte_def Let_def r_def)
  moreover have "a = b * bs + r" using a by (simp add: r_def)
  ultimately show ?thesis by auto
next
  case False
  have "\<not> (b * bs + off \<le> a \<and> a < b * bs + off + length d)"
  proof
    assume in_range: "b * bs + off \<le> a \<and> a < b * bs + off + length d"
    then have "0 < bs" using assms by (cases bs) auto
    moreover have "b * bs \<le> a" "a < Suc b * bs" using in_range assms by auto
    then have "a div bs = b" by (simp add: div_nat_eqI mult.commute)
    ultimately show False using False by simp
  qed
  moreover have "file_byte bs (f(b := patch off d (f b))) a = file_byte bs f a"
  proof (cases "a div bs = b")
    case True
    with False have "bs = 0" by simp
    then show ?thesis using assms by (auto simp: file_byte_def Let_def patch_def resize_def)
  qed (simp add: file_byte_def)
  ultimately show ?thesis by auto
qed

text \<open>Writing the chunks of a range writes the range of the flat array, and nothing else.\<close>

lemma patch_chunks_tiles:
  assumes "tiles bs cur endp boff cs" "boff + (endp - cur) \<le> length data"
  shows "file_byte bs (patch_chunks data cs f) a =
    (if cur \<le> a \<and> a < endp then data ! (boff + (a - cur)) else file_byte bs f a)"
  using assms
proof (induction cs arbitrary: cur boff f)
  case Nil
  then show ?case by auto
next
  case (Cons c cs)
  let ?n = "unat (ck_size c)" and ?b = "cur div bs" and ?off = "cur mod bs"
  let ?d = "slice boff ?n data"
  from Cons.prems(1) have t: "tiles bs (cur + ?n) endp (boff + ?n) cs" and le: "cur + ?n \<le> endp"
    and c: "unat (ck_block c) = ?b" "unat (ck_offset c) = ?off" "?off + ?n \<le> bs" "unat (ck_bufoff c) = boff"
    by auto
  have d: "length ?d = ?n" using Cons.prems(2) le by simp
  have cur: "?b * bs + ?off = cur" by (simp add: mult.commute)
  let ?f = "f(?b := patch ?off ?d (f ?b))"
  have "file_byte bs (patch_chunks data cs ?f) a =
      (if cur + ?n \<le> a \<and> a < endp then data ! (boff + ?n + (a - (cur + ?n))) else file_byte bs ?f a)"
    by (rule Cons.IH [OF t]) (use Cons.prems(2) le in simp)
  moreover have "file_byte bs ?f a =
      (if cur \<le> a \<and> a < cur + ?n then ?d ! (a - cur) else file_byte bs f a)"
    using patch_one_block [of ?off ?d bs f ?b a] c(3) unfolding d cur by blast
  moreover have "?d ! (a - cur) = data ! (boff + (a - cur))" if "cur \<le> a" "a < cur + ?n"
    using that Cons.prems(2) le by (simp add: nth_slice)
  ultimately show ?case
    using le by (auto simp: c)
qed

section \<open>Properties\<close>

text \<open>
  The block loop. For every range that ends below 4 GiB and every block size, the loop ends and its
  chunks tile the range: they lie inside one block each, follow each other without gap, visit
  consecutive blocks once, and the buffer slices they name, put together, are the data.
\<close>

theorem block_loop_tiles_range:
  assumes "bs \<noteq> 0" and "unat pos + unat n < 2 ^ 32" and "length data = unat n"
  shows "\<exists>cs. chunks bs pos n = Some cs \<and>
    tiles (unat bs) (unat pos) (unat pos + unat n) 0 cs \<and> distinct (map ck_block cs) \<and>
    map (\<lambda>c. unat (ck_block c)) cs = [unat pos div unat bs ..< unat pos div unat bs + length cs] \<and>
    concat (map (\<lambda>c. slice (unat (ck_bufoff c)) (unat (ck_size c)) data) cs) = data"
proof -
  from chunks_tile [OF assms(1,2)] obtain cs where cs: "chunks bs pos n = Some cs"
    "tiles (unat bs) (unat pos) (unat pos + unat n) 0 cs" .
  have "0 < unat bs" using assms(1) by (simp add: unat_gt_0)
  with cs tiles_distinct [OF cs(2)] tiles_blocks [OF cs(2)] tiles_slices [OF cs(2), of data] assms(3)
  show ?thesis by auto
qed

theorem block_loop_tiles_range_witness:
  "\<exists>cs. chunks 4096 4000 200 = Some cs \<and> tiles 4096 4000 4200 0 cs \<and> distinct (map ck_block cs)"
  using block_loop_tiles_range [of 4096 4000 200 "replicate 200 7"] by auto

text \<open>
  C12. Flat-file view of a block-wise write. Patching the chunks of a range block by block changes
  the file exactly on that range, to the data; and collecting the chunks of any range block by block,
  in order, reads the flat file on that range, unwritten bytes as zero.
\<close>

theorem blockwise_access_is_flat_access:
  assumes "bs \<noteq> 0" and "unat pos + unat n < 2 ^ 32" and "length data = unat n"
    and "unat q + unat m < 2 ^ 32"
  shows "\<exists>ws rs. chunks bs pos n = Some ws \<and> chunks bs q m = Some rs \<and>
    read_chunks rs (patch_chunks data ws f) =
      map (\<lambda>a. if unat pos \<le> a \<and> a < unat pos + unat n then data ! (a - unat pos)
               else file_byte (unat bs) f a) [unat q ..< unat q + unat m]"
proof -
  from chunks_tile [OF assms(1,2)] obtain ws where ws: "chunks bs pos n = Some ws"
    "tiles (unat bs) (unat pos) (unat pos + unat n) 0 ws" .
  from chunks_tile [OF assms(1,4)] obtain rs where rs: "chunks bs q m = Some rs"
    "tiles (unat bs) (unat q) (unat q + unat m) 0 rs" .
  show ?thesis
    using ws(1) rs(1) patch_chunks_tiles [OF ws(2), of data f] assms(3)
    by (simp add: read_chunks_tiles [OF rs(2)])
qed

theorem blockwise_access_is_flat_access_witness:
  "\<exists>ws rs. chunks 4 3 6 = Some ws \<and> chunks 4 2 5 = Some rs \<and>
     read_chunks rs (patch_chunks [1, 2, 3, 4, 5, 6] ws (\<lambda>b. [9, 9, 9])) = [9, 1, 2, 3, 4]"
  using blockwise_access_is_flat_access [of 4 3 6 "[1, 2, 3, 4, 5, 6]" 2 5 "\<lambda>b. [9, 9, 9]"]
  by (simp add: upt_rec file_byte_def)

end
