(* ===== verification/Storage_Conf.thy ===== *)
theory Storage_Conf
  imports Ssbd_Client Block_Range Jsre
begin

text \<open>
  The replicated block storage of a data function,
  \<^verbatim>\<open>functions/datafunction/storage-conf-ssbd-backend.hpp\<close>: two-phase commit of a write over the
  blocks of its range, replication, and reads. The callbacks of the code run on the threads of one
  \<^verbatim>\<open>io_context\<close>; each operation is a job with its shared counters as a record, and one definition
  per callback and per turn of a sending loop. A callback is one step. The replies a job gives are the
  arguments of its calls of \<^verbatim>\<open>next\<close>, in order.

  Parameters: \<open>draw uuid n k\<close> is the number that \<^verbatim>\<open>std::uniform_int_distribution<>(0, n - 1)\<close> takes
  from the engine seeded with \<open>uuid\<close> after \<open>k\<close> numbers were discarded (its algorithm is left to the
  library implementation; \<open>draw_ok\<close> is the range it promises); the salt of a request is drawn by the
  packet constructor; the version is read off the clock.
\<close>

section \<open>Configuration\<close>

record conf =
  cf_blocksize :: u32
  cf_replication_size :: int
  cf_replication_start_index :: nat
  cf_backends :: nat

text \<open>\<^verbatim>\<open>init\<close>: every configured host is entered twice, once for normal operation, once for replicas.\<close>

definition conf_init :: "int \<Rightarrow> nat \<Rightarrow> u32 option \<Rightarrow> conf" where
  "conf_init replication_size hosts blocksize =
     \<lparr>cf_blocksize = (case blocksize of None \<Rightarrow> 4096 | Some b \<Rightarrow> b),
      cf_replication_size = replication_size,
      cf_replication_start_index = hosts, cf_backends = hosts + hosts\<rparr>"

definition version :: "u64 \<Rightarrow> u32" where
  "version microseconds = ucast (drop_bit 6 microseconds)"

text \<open>\<^verbatim>\<open>detail::recoder\<close>: the files whose last write went through.\<close>

type_synonym 't filecheckmap = "(bytes, int, 't) chmap"

definition is_checked :: "'t filecheckmap \<Rightarrow> bytes \<Rightarrow> 't \<Rightarrow> bool" where
  "is_checked M uuid t \<longleftrightarrow> chm_find M t uuid \<noteq> None"

definition mark_checked :: "'t filecheckmap \<Rightarrow> bytes \<Rightarrow> 't \<Rightarrow> 't" where
  "mark_checked M uuid t = chm_emplace M t uuid 0"

definition erase_checked :: "'t filecheckmap \<Rightarrow> bytes \<Rightarrow> 't \<Rightarrow> 't" where
  "erase_checked M uuid t = chm_erase M t uuid"

lemma recoder_laws:
  assumes "chmap_ok M"
  shows "is_checked M u (mark_checked M u' t) \<longleftrightarrow> u = u' \<or> is_checked M u t"
    and "is_checked M u (erase_checked M u' t) \<longleftrightarrow> u \<noteq> u' \<and> is_checked M u t"
  using assms
  by (auto simp: is_checked_def mark_checked_def erase_checked_def chmap_laws)

section \<open>Placement\<close>

definition draw_ok :: "(bytes \<Rightarrow> nat \<Rightarrow> nat \<Rightarrow> nat) \<Rightarrow> bool" where
  "draw_ok draw \<longleftrightarrow> (\<forall>u n k. 0 < n \<longrightarrow> draw u n k < n)"

definition int32 :: "int \<Rightarrow> bool" where
  "int32 x \<longleftrightarrow> - (2 ^ 31) \<le> x \<and> x < 2 ^ 31"

text \<open>
  \<open>discard(partition * (partition * replication_index))\<close> is computed in \<^verbatim>\<open>int\<close>; an overflow is
  undefined behaviour, \<open>None\<close>.
\<close>

definition select_replica ::
  "(bytes \<Rightarrow> nat \<Rightarrow> nat \<Rightarrow> nat) \<Rightarrow> conf \<Rightarrow> bytes \<Rightarrow> u32 \<Rightarrow> int \<Rightarrow> nat option" where
  "select_replica draw cf uuid blockid replication_index =
     (let partition = sint blockid; inner = partition * replication_index; amount = partition * inner
      in if int32 inner \<and> int32 amount
         then Some (draw uuid (cf_replication_start_index cf) (nat (amount mod 2 ^ 64))) else None)"

text \<open>\<^verbatim>\<open>backend_list_.at(index)\<close> throws when the index is out of range, \<open>None\<close>.\<close>

definition backend_at :: "conf \<Rightarrow> nat option \<Rightarrow> nat option" where
  "backend_at cf i = (case i of None \<Rightarrow> None | Some k \<Rightarrow> if k < cf_backends cf then Some k else None)"

section \<open>Inputs\<close>

record jinput =
  in_uuid :: bytes
  in_request :: request
  in_data :: bytes

definition parse_input :: "packet \<Rightarrow> jinput option" where
  "parse_input p =
     map_option (\<lambda>r. \<lparr>in_uuid = rp_uuid p, in_request = r, in_data = rp_data p\<rparr>) (copy_request p)"

definition in_position :: "jinput \<Rightarrow> u32" where
  "in_position inp = rq_position (in_request inp)"

definition in_size :: "jinput \<Rightarrow> u32" where
  "in_size inp = rq_size (in_request inp)"

definition in_chunks :: "conf \<Rightarrow> jinput \<Rightarrow> chunk list option" where
  "in_chunks cf inp = chunks (cf_blocksize cf) (in_position inp) (in_size inp)"

definition block_request ::
  "bytes \<Rightarrow> bytes \<Rightarrow> lmsg_t \<Rightarrow> u32 \<Rightarrow> chunk \<Rightarrow> u32 \<Rightarrow> lpacket" where
  "block_request salt uuid ty ver c n =
     create_request salt uuid ty ver (ucast (ck_block c)) (ucast (ck_offset c)) (ucast n)"

section \<open>Two-phase commit: prepare\<close>

record 't wjob =
  wj_todo :: "chunk list"
  wj_outstanding :: int
  wj_agree :: bool
  wj_timer :: bool
  wj_checked :: 't
  wj_replies :: "bytes list"
  wj_commits :: "bool list"

definition prepare_start :: "conf \<Rightarrow> 't \<Rightarrow> jinput \<Rightarrow> 't wjob option" where
  "prepare_start cf checked inp =
     map_option (\<lambda>cs. \<lparr>wj_todo = cs, wj_outstanding = 0, wj_agree = True, wj_timer = True,
         wj_checked = checked, wj_replies = [], wj_commits = []\<rparr>) (in_chunks cf inp)"

text \<open>
  The request of one turn: the data of the chunk is copied out of the packet body; a body shorter than
  the size in its request is read behind its end (\<open>None\<close>).
\<close>

definition prepare_request ::
  "'t filecheckmap \<Rightarrow> 't \<Rightarrow> jinput \<Rightarrow> u32 \<Rightarrow> bytes \<Rightarrow> chunk \<Rightarrow> lpacket option" where
  "prepare_request M checked inp ver salt c =
     (if unat (ck_bufoff c) + unat (ck_size c) \<le> length (in_data inp)
      then Some ((block_request salt (in_uuid inp)
                    (if is_checked M (in_uuid inp) checked then Two_pc_prepare_quick else Two_pc_prepare)
                    ver c (ck_size c))
                  \<lparr>lp_buf := slice (unat (ck_bufoff c)) (unat (ck_size c)) (in_data inp)\<rparr>)
      else None)"

definition prepare_send ::
  "'t filecheckmap \<Rightarrow> (bytes \<Rightarrow> nat \<Rightarrow> nat \<Rightarrow> nat) \<Rightarrow> conf \<Rightarrow> jinput \<Rightarrow> u32 \<Rightarrow> (u32 \<Rightarrow> bytes) \<Rightarrow>
   't wjob \<Rightarrow> ('t wjob \<times> nat \<times> lpacket) option" where
  "prepare_send M draw cf inp ver salt job =
     (case wj_todo job of
        [] \<Rightarrow> None
      | c # cs \<Rightarrow>
          (case (backend_at cf (select_replica draw cf (in_uuid inp) (ck_block c) 0),
                 prepare_request M (wj_checked job) inp ver (salt (ck_block c)) c) of
             (Some i, Some p) \<Rightarrow>
               Some (job\<lparr>wj_todo := cs, wj_outstanding := wj_outstanding job + 1\<rparr>, i, p)
           | _ \<Rightarrow> None))"

text \<open>The callback of a prepare request; \<open>ty\<close> is the type field of the response.\<close>

definition prepare_response :: "'t filecheckmap \<Rightarrow> bytes \<Rightarrow> u16 \<Rightarrow> 't wjob \<Rightarrow> 't wjob" where
  "prepare_response M uuid ty job =
     (let agree' = (case lmsg_of ty of Some Two_pc_prepare_agree \<Rightarrow> wj_agree job | _ \<Rightarrow> False);
          n = wj_outstanding job - 1;
          job1 = job\<lparr>wj_agree := agree', wj_outstanding := n\<rparr>
      in if n = 0
         then if agree'
              then job1\<lparr>wj_timer := False, wj_checked := mark_checked M uuid (wj_checked job1),
                        wj_replies := wj_replies job1 @ [str ''OK''], wj_commits := wj_commits job1 @ [True]\<rparr>
              else job1\<lparr>wj_timer := False, wj_checked := erase_checked M uuid (wj_checked job1),
                        wj_replies := wj_replies job1 @ [str ''Error: Found Pending 2PC Log''],
                        wj_commits := wj_commits job1 @ [False]\<rparr>
         else job1)"

text \<open>The deadline timer; a canceled timer does nothing.\<close>

definition prepare_timeout :: "'t filecheckmap \<Rightarrow> bytes \<Rightarrow> 't wjob \<Rightarrow> 't wjob" where
  "prepare_timeout M uuid job =
     (if wj_timer job
      then job\<lparr>wj_timer := False, wj_checked := erase_checked M uuid (wj_checked job),
               wj_replies := wj_replies job @ [str ''Error: request timeout internally'']\<rparr>
      else job)"

text \<open>The whole sending loop, with no response in between.\<close>

fun prepare_loop ::
  "'t filecheckmap \<Rightarrow> (bytes \<Rightarrow> nat \<Rightarrow> nat \<Rightarrow> nat) \<Rightarrow> conf \<Rightarrow> jinput \<Rightarrow> u32 \<Rightarrow> (u32 \<Rightarrow> bytes) \<Rightarrow>
   nat \<Rightarrow> 't wjob \<Rightarrow> ('t wjob \<times> (nat \<times> lpacket) list) option" where
  "prepare_loop M draw cf inp ver salt 0 job = Some (job, [])"
| "prepare_loop M draw cf inp ver salt (Suc n) job =
     (case prepare_send M draw cf inp ver salt job of
        None \<Rightarrow> None
      | Some (job', s) \<Rightarrow>
          map_option (\<lambda>(job'', ss). (job'', s # ss)) (prepare_loop M draw cf inp ver salt n job'))"

definition start_2pc_prepare ::
  "'t filecheckmap \<Rightarrow> (bytes \<Rightarrow> nat \<Rightarrow> nat \<Rightarrow> nat) \<Rightarrow> conf \<Rightarrow> 't \<Rightarrow> jinput \<Rightarrow> u32 \<Rightarrow> (u32 \<Rightarrow> bytes) \<Rightarrow>
   ('t wjob \<times> (nat \<times> lpacket) list) option" where
  "start_2pc_prepare M draw cf checked inp ver salt =
     (case prepare_start cf checked inp of
        None \<Rightarrow> None
      | Some job \<Rightarrow> prepare_loop M draw cf inp ver salt (length (wj_todo job)) job)"

section \<open>Two-phase commit: commit\<close>

record 't cjob =
  cj_outstanding :: int
  cj_checked :: 't
  cj_replies :: "bytes list"
  cj_replications :: nat

definition commit_request :: "jinput \<Rightarrow> u32 \<Rightarrow> bool \<Rightarrow> bytes \<Rightarrow> chunk \<Rightarrow> lpacket" where
  "commit_request inp ver all_ssbd_agree salt c =
     block_request salt (in_uuid inp)
       (if all_ssbd_agree then Two_pc_commit_execute else Two_pc_commit_rollback) ver c 0"

fun at_backends :: "(chunk \<Rightarrow> nat option) \<Rightarrow> (chunk \<Rightarrow> lpacket) \<Rightarrow> chunk list \<Rightarrow> (nat \<times> lpacket) list option" where
  "at_backends host req [] = Some []"
| "at_backends host req (c # cs) =
     (case host c of
        None \<Rightarrow> None
      | Some i \<Rightarrow> map_option (\<lambda>ss. (i, req c) # ss) (at_backends host req cs))"

definition start_2pc_commit ::
  "(bytes \<Rightarrow> nat \<Rightarrow> nat \<Rightarrow> nat) \<Rightarrow> conf \<Rightarrow> jinput \<Rightarrow> bool \<Rightarrow> u32 \<Rightarrow> (u32 \<Rightarrow> bytes) \<Rightarrow> (nat \<times> lpacket) list option" where
  "start_2pc_commit draw cf inp all_ssbd_agree ver salt =
     (case in_chunks cf inp of
        None \<Rightarrow> None
      | Some cs \<Rightarrow>
          at_backends (\<lambda>c. backend_at cf (select_replica draw cf (in_uuid inp) (ck_block c) 0))
            (\<lambda>c. commit_request inp ver all_ssbd_agree (salt (ck_block c)) c) cs)"

text \<open>
  The callback of a commit request; \<open>has_next\<close> tells whether a continuation was passed (the write path
  passes \<^verbatim>\<open>nullptr\<close>).
\<close>

definition commit_response ::
  "'t filecheckmap \<Rightarrow> conf \<Rightarrow> bytes \<Rightarrow> bool \<Rightarrow> bool \<Rightarrow> u16 \<Rightarrow> 't cjob \<Rightarrow> 't cjob" where
  "commit_response M cf uuid has_next all_ssbd_agree ty job =
     (let job1 = (if lmsg_of ty = Some Two_pc_commit_ack \<or> \<not> has_next then job
                  else job\<lparr>cj_checked := erase_checked M uuid (cj_checked job),
                           cj_replies := cj_replies job @ [str ''Error: Commit Message Get Error Reply'']\<rparr>);
          n = cj_outstanding job1 - 1;
          job2 = job1\<lparr>cj_outstanding := n\<rparr>
      in if n = 0
         then let job3 = (if has_next then job2\<lparr>cj_replies := cj_replies job2 @ [str ''OK'']\<rparr> else job2)
              in if all_ssbd_agree \<and> cf_replication_size cf > 1
                 then job3\<lparr>cj_replications := cj_replications job3 + 1\<rparr> else job3
         else job2)"

section \<open>Replication\<close>

text \<open>
  For every chunk and every replica index from 1 on, one request to a backend of the second half. The
  request is built with the size of the chunk, but no data is copied into it.
\<close>

definition replication_request :: "jinput \<Rightarrow> u32 \<Rightarrow> bytes \<Rightarrow> chunk \<Rightarrow> lpacket" where
  "replication_request inp ver salt c = block_request salt (in_uuid inp) Replication ver c (ck_size c)"

definition replica_host :: "(bytes \<Rightarrow> nat \<Rightarrow> nat \<Rightarrow> nat) \<Rightarrow> conf \<Rightarrow> jinput \<Rightarrow> int \<Rightarrow> chunk \<Rightarrow> nat option" where
  "replica_host draw cf inp idx c =
     backend_at cf (map_option (\<lambda>k. cf_replication_start_index cf + k)
       (select_replica draw cf (in_uuid inp) (ck_block c) idx))"

fun replicas_of_chunk ::
  "(bytes \<Rightarrow> nat \<Rightarrow> nat \<Rightarrow> nat) \<Rightarrow> conf \<Rightarrow> jinput \<Rightarrow> u32 \<Rightarrow> (u32 \<Rightarrow> int \<Rightarrow> bytes) \<Rightarrow> chunk \<Rightarrow> int list \<Rightarrow>
   (nat \<times> lpacket) list option" where
  "replicas_of_chunk draw cf inp ver salt c [] = Some []"
| "replicas_of_chunk draw cf inp ver salt c (idx # is) =
     (case replica_host draw cf inp idx c of
        None \<Rightarrow> None
      | Some i \<Rightarrow>
          map_option (\<lambda>ss. (i, replication_request inp ver (salt (ck_block c) idx) c) # ss)
            (replicas_of_chunk draw cf inp ver salt c is))"

fun replicate_chunks ::
  "(bytes \<Rightarrow> nat \<Rightarrow> nat \<Rightarrow> nat) \<Rightarrow> conf \<Rightarrow> jinput \<Rightarrow> u32 \<Rightarrow> (u32 \<Rightarrow> int \<Rightarrow> bytes) \<Rightarrow> chunk list \<Rightarrow>
   (nat \<times> lpacket) list option" where
  "replicate_chunks draw cf inp ver salt [] = Some []"
| "replicate_chunks draw cf inp ver salt (c # cs) =
     (case replicas_of_chunk draw cf inp ver salt c [1 .. cf_replication_size cf - 1] of
        None \<Rightarrow> None
      | Some ss \<Rightarrow> map_option (\<lambda>ss'. ss @ ss') (replicate_chunks draw cf inp ver salt cs))"

definition start_file_replication ::
  "(bytes \<Rightarrow> nat \<Rightarrow> nat \<Rightarrow> nat) \<Rightarrow> conf \<Rightarrow> jinput \<Rightarrow> u32 \<Rightarrow> (u32 \<Rightarrow> int \<Rightarrow> bytes) \<Rightarrow> (nat \<times> lpacket) list option" where
  "start_file_replication draw cf inp ver salt =
     (case in_chunks cf inp of None \<Rightarrow> None | Some cs \<Rightarrow> replicate_chunks draw cf inp ver salt cs)"

definition replication_response ::
  "'t filecheckmap \<Rightarrow> bytes \<Rightarrow> bool \<Rightarrow> u16 \<Rightarrow> 't cjob \<Rightarrow> 't cjob" where
  "replication_response M uuid has_next ty job =
     (if lmsg_of ty = Some L_ack
      then let n = cj_outstanding job - 1; job1 = job\<lparr>cj_outstanding := n\<rparr>
           in if n = 0 \<and> has_next then job1\<lparr>cj_replies := cj_replies job1 @ [str ''OK'']\<rparr> else job1
      else if has_next
           then job\<lparr>cj_checked := erase_checked M uuid (cj_checked job),
                    cj_replies := cj_replies job @ [str ''Error: Replication Failed'']\<rparr>
           else job)"

section \<open>Reads\<close>

text \<open>One slot per chunk: \<open>None\<close> while \<^verbatim>\<open>ready\<close> is false, then the received buffer.\<close>

record 't rdjob =
  rd_slots :: "bytes option list"
  rd_timer :: bool
  rd_checked :: 't
  rd_replies :: "bytes list"

definition read_request :: "jinput \<Rightarrow> bytes \<Rightarrow> chunk \<Rightarrow> lpacket" where
  "read_request inp salt c = block_request salt (in_uuid inp) L_get 0 c (ck_size c)"

definition start_read ::
  "(bytes \<Rightarrow> nat \<Rightarrow> nat \<Rightarrow> nat) \<Rightarrow> conf \<Rightarrow> 't \<Rightarrow> jinput \<Rightarrow> (u32 \<Rightarrow> bytes) \<Rightarrow>
   ('t rdjob \<times> (nat \<times> lpacket) list) option" where
  "start_read draw cf checked inp salt =
     (if in_size inp = 0
      then Some (\<lparr>rd_slots = [], rd_timer = False, rd_checked = checked, rd_replies = [[]]\<rparr>, [])
      else case in_chunks cf inp of
             None \<Rightarrow> None
           | Some cs \<Rightarrow>
               map_option (\<lambda>ss. (\<lparr>rd_slots = replicate (length cs) None, rd_timer = True,
                                  rd_checked = checked, rd_replies = []\<rparr>, ss))
                 (at_backends (\<lambda>c. backend_at cf (select_replica draw cf (in_uuid inp) (ck_block c) 0))
                    (\<lambda>c. read_request inp (salt (ck_block c)) c) cs))"

text \<open>
  The callback of a read request number \<open>i\<close>: whatever the type of the response, its buffer is stored;
  when all slots are ready the timer is canceled and the buffers are joined in order.
\<close>

definition read_response :: "nat \<Rightarrow> bytes \<Rightarrow> 't rdjob \<Rightarrow> 't rdjob" where
  "read_response i buf job =
     (let slots = (rd_slots job)[i := Some buf]; job1 = job\<lparr>rd_slots := slots\<rparr>
      in if list_all (\<lambda>s. s \<noteq> None) slots
         then job1\<lparr>rd_timer := False, rd_replies := rd_replies job1 @ [concat (map the slots)]\<rparr>
         else job1)"

definition read_timeout :: "'t filecheckmap \<Rightarrow> bytes \<Rightarrow> 't rdjob \<Rightarrow> 't rdjob" where
  "read_timeout M uuid job =
     (if rd_timer job
      then job\<lparr>rd_timer := False, rd_checked := erase_checked M uuid (rd_checked job),
               rd_replies := rd_replies job @ [str ''Error: Read Request Timeout'']\<rparr>
      else job)"

text \<open>\<open>start_perform\<close>: an operation byte that is neither write nor read starts nothing.\<close>

datatype 't task = Write_task "'t wjob" "(nat \<times> lpacket) list" | Read_task "'t rdjob" "(nat \<times> lpacket) list" | No_task

definition start_perform ::
  "'t filecheckmap \<Rightarrow> (bytes \<Rightarrow> nat \<Rightarrow> nat \<Rightarrow> nat) \<Rightarrow> conf \<Rightarrow> 't \<Rightarrow> u32 \<Rightarrow> (u32 \<Rightarrow> bytes) \<Rightarrow> jinput \<Rightarrow> 't task option" where
  "start_perform M draw cf checked ver salt inp =
     (case operation_of_byte (rq_operation (in_request inp)) of
        Some Op_write \<Rightarrow> map_option (\<lambda>(j, ss). Write_task j ss) (start_2pc_prepare M draw cf checked inp ver salt)
      | Some Op_read \<Rightarrow> map_option (\<lambda>(j, ss). Read_task j ss) (start_read draw cf checked inp salt)
      | None \<Rightarrow> Some No_task)"

section \<open>Placement: facts\<close>

text \<open>With replica index 0 nothing is discarded: every block of a file gets the same number.\<close>

lemma select_primary [simp]:
  "select_replica draw cf uuid b 0 = Some (draw uuid (cf_replication_start_index cf) 0)"
  by (simp add: select_replica_def int32_def)

definition primary :: "(bytes \<Rightarrow> nat \<Rightarrow> nat \<Rightarrow> nat) \<Rightarrow> conf \<Rightarrow> bytes \<Rightarrow> nat" where
  "primary draw cf uuid = draw uuid (cf_replication_start_index cf) 0"

definition conf_ok :: "conf \<Rightarrow> bool" where
  "conf_ok cf \<longleftrightarrow> 0 < cf_replication_start_index cf \<and>
     cf_backends cf = cf_replication_start_index cf + cf_replication_start_index cf \<and>
     0 < unat (cf_blocksize cf) \<and> unat (cf_blocksize cf) \<le> 65536"

lemma primary_host:
  assumes "draw_ok draw" "conf_ok cf"
  shows "backend_at cf (select_replica draw cf uuid b 0) = Some (primary draw cf uuid)"
    and "primary draw cf uuid < cf_replication_start_index cf"
  using assms by (auto simp: draw_ok_def conf_ok_def backend_at_def primary_def trans_less_add1)

lemma at_backends_const:
  "(\<And>c. host c = Some h) \<Longrightarrow> at_backends host req cs = Some (map (\<lambda>c. (h, req c)) cs)"
  by (induction cs) simp_all

lemma length_at_backends: "at_backends host req cs = Some ss \<Longrightarrow> length ss = length cs"
  by (induction cs arbitrary: ss) (auto split: option.splits)

section \<open>The prepare phase: facts\<close>

definition prepare_packet :: "'t filecheckmap \<Rightarrow> 't \<Rightarrow> jinput \<Rightarrow> u32 \<Rightarrow> (u32 \<Rightarrow> bytes) \<Rightarrow> chunk \<Rightarrow> lpacket" where
  "prepare_packet M checked inp ver salt c =
     (block_request (salt (ck_block c)) (in_uuid inp)
        (if is_checked M (in_uuid inp) checked then Two_pc_prepare_quick else Two_pc_prepare) ver c (ck_size c))
       \<lparr>lp_buf := slice (unat (ck_bufoff c)) (unat (ck_size c)) (in_data inp)\<rparr>"

lemma prepare_loop_sends:
  assumes "draw_ok draw" "conf_ok cf"
    and "\<forall>c \<in> set (wj_todo job). unat (ck_bufoff c) + unat (ck_size c) \<le> length (in_data inp)"
  shows "prepare_loop M draw cf inp ver salt (length (wj_todo job)) job =
    Some (job\<lparr>wj_todo := [], wj_outstanding := wj_outstanding job + int (length (wj_todo job))\<rparr>,
          map (\<lambda>c. (primary draw cf (in_uuid inp), prepare_packet M (wj_checked job) inp ver salt c)) (wj_todo job))"
  using assms(3)
proof (induction "wj_todo job" arbitrary: job)
  case Nil
  then show ?case by (cases job) simp
next
  case (Cons c cs)
  let ?job = "job\<lparr>wj_todo := cs, wj_outstanding := wj_outstanding job + 1\<rparr>"
  have "prepare_send M draw cf inp ver salt job =
      Some (?job, primary draw cf (in_uuid inp), prepare_packet M (wj_checked job) inp ver salt c)"
    using Cons.prems
    by (simp add: prepare_send_def Cons.hyps(2) [symmetric] primary_host(1) [OF assms(1,2)]
        prepare_request_def prepare_packet_def del: select_primary)
  with Cons.hyps(1) [of ?job] Cons.prems show ?case
    by (simp add: Cons.hyps(2) [symmetric] add.commute add.left_commute)
qed

definition agrees :: "u16 \<Rightarrow> bool" where
  "agrees ty \<longleftrightarrow> lmsg_of ty = Some Two_pc_prepare_agree"

lemma prepare_response_eq:
  "prepare_response M uuid ty job =
     (let ok = (wj_agree job \<and> agrees ty); job1 = job\<lparr>wj_agree := ok, wj_outstanding := wj_outstanding job - 1\<rparr>
      in if wj_outstanding job = 1
         then job1\<lparr>wj_timer := False,
                   wj_checked := (if ok then mark_checked else erase_checked) M uuid (wj_checked job),
                   wj_replies := wj_replies job @ [if ok then str ''OK'' else str ''Error: Found Pending 2PC Log''],
                   wj_commits := wj_commits job @ [ok]\<rparr>
         else job1)"
  by (auto simp: prepare_response_def agrees_def Let_def split: option.splits lmsg_t.splits)

lemma prepare_responses:
  assumes "tys \<noteq> []" "wj_outstanding job = int (length tys)"
  shows "foldl (\<lambda>j ty. prepare_response M uuid ty j) job tys =
    (let ok = (wj_agree job \<and> list_all agrees tys)
     in job\<lparr>wj_agree := ok, wj_outstanding := 0, wj_timer := False,
            wj_checked := (if ok then mark_checked else erase_checked) M uuid (wj_checked job),
            wj_replies := wj_replies job @ [if ok then str ''OK'' else str ''Error: Found Pending 2PC Log''],
            wj_commits := wj_commits job @ [ok]\<rparr>)"
  using assms
proof (induction tys arbitrary: job)
  case (Cons ty tys)
  let ?job = "prepare_response M uuid ty job"
  show ?case
  proof (cases "tys = []")
    case True
    then show ?thesis using Cons.prems by (simp add: prepare_response_eq Let_def)
  next
    case False
    then have "?job = job\<lparr>wj_agree := wj_agree job \<and> agrees ty, wj_outstanding := int (length tys)\<rparr>"
      using Cons.prems by (simp add: prepare_response_eq Let_def)
    with Cons.IH [OF False, of ?job] show ?thesis
      by (simp add: Let_def)
  qed
qed simp

section \<open>Interleavings of the prepare phase\<close>

text \<open>
  The sending loop, the callbacks and the timer run on several threads. A state is the job and the number
  of requests whose response has not been handled yet.
\<close>

inductive wstep ::
  "'t filecheckmap \<Rightarrow> (bytes \<Rightarrow> nat \<Rightarrow> nat \<Rightarrow> nat) \<Rightarrow> conf \<Rightarrow> jinput \<Rightarrow> u32 \<Rightarrow> (u32 \<Rightarrow> bytes) \<Rightarrow>
   't wjob \<times> nat \<Rightarrow> 't wjob \<times> nat \<Rightarrow> bool"
  for M draw cf inp ver salt where
  send: "prepare_send M draw cf inp ver salt job = Some (job', i, p) \<Longrightarrow>
    wstep M draw cf inp ver salt (job, k) (job', Suc k)"
| response: "wstep M draw cf inp ver salt (job, Suc k) (prepare_response M (in_uuid inp) ty job, k)"
| timeout: "wj_timer job \<Longrightarrow>
    wstep M draw cf inp ver salt (job, k) (prepare_timeout M (in_uuid inp) job, k)"

inductive_cases wstep_cases: "wstep M draw cf inp ver salt s s'"

inductive wreach ::
  "'t filecheckmap \<Rightarrow> (bytes \<Rightarrow> nat \<Rightarrow> nat \<Rightarrow> nat) \<Rightarrow> conf \<Rightarrow> jinput \<Rightarrow> u32 \<Rightarrow> (u32 \<Rightarrow> bytes) \<Rightarrow> 't \<Rightarrow>
   't wjob \<times> nat \<Rightarrow> bool"
  for M draw cf inp ver salt checked where
  start: "prepare_start cf checked inp = Some job \<Longrightarrow> wreach M draw cf inp ver salt checked (job, 0)"
| step: "wreach M draw cf inp ver salt checked s \<Longrightarrow> wstep M draw cf inp ver salt s s' \<Longrightarrow>
    wreach M draw cf inp ver salt checked s'"

lemma prepare_send_job:
  "prepare_send M draw cf inp ver salt job = Some (job', i, p) \<Longrightarrow>
   job' = job\<lparr>wj_todo := tl (wj_todo job), wj_outstanding := wj_outstanding job + 1\<rparr> \<and> wj_todo job \<noteq> []"
  by (auto simp: prepare_send_def split: list.splits option.splits)

text \<open>
  In every interleaving the counter equals the number of open requests; once a request was sent and
  none is open, a decision was made; every decision gave one reply; a job without a decision still has
  its timer, or the timer has replied.
\<close>

definition winv :: "chunk list \<Rightarrow> 't wjob \<times> nat \<Rightarrow> bool" where
  "winv cs s \<longleftrightarrow>
     (let (job, k) = s
      in wj_outstanding job = int k \<and>
         (\<exists>sent. cs = sent @ wj_todo job \<and> (sent \<noteq> [] \<and> k = 0 \<longrightarrow> wj_commits job \<noteq> [])) \<and>
         length (wj_commits job) \<le> length (wj_replies job) \<and>
         (wj_timer job \<or> wj_replies job \<noteq> []))"

lemma winv_step:
  assumes "winv cs s" "wstep M draw cf inp ver salt s s'"
  shows "winv cs s'"
  using assms(2,1)
proof (cases rule: wstep.cases)
  case (send job job' i p k)
  with prepare_send_job [OF send(3)] assms(1) show ?thesis
    by (cases "wj_todo job") (auto simp: winv_def)
next
  case (response job k ty)
  with assms(1) show ?thesis
    by (auto simp: winv_def prepare_response_eq Let_def)
next
  case (timeout job k)
  with assms(1) show ?thesis
    by (auto simp: winv_def prepare_timeout_def)
qed

lemma winv_reach:
  assumes "wreach M draw cf inp ver salt checked s" "in_chunks cf inp = Some cs"
  shows "winv cs s"
  using assms(1)
proof (induction rule: wreach.induct)
  case (start job)
  then show ?case using assms(2) by (auto simp: prepare_start_def winv_def)
next
  case (step s s')
  then show ?case by (blast intro: winv_step)
qed

section \<open>Reads: facts\<close>

definition slots_of :: "nat \<Rightarrow> (nat \<Rightarrow> bytes) \<Rightarrow> nat set \<Rightarrow> bytes option list" where
  "slots_of n b D = map (\<lambda>i. if i \<in> D then Some (b i) else None) [0 ..< n]"

lemma slots_of_update: "i < n \<Longrightarrow> (slots_of n b D)[i := Some (b i)] = slots_of n b (insert i D)"
  by (auto simp: slots_of_def intro!: nth_equalityI simp: nth_list_update)

lemma slots_of_ready: "list_all (\<lambda>s. s \<noteq> None) (slots_of n b D) \<longleftrightarrow> {..<n} \<subseteq> D"
  by (auto simp: slots_of_def list_all_iff)

lemma slots_of_full: "{..<n} \<subseteq> D \<Longrightarrow> map the (slots_of n b D) = map b [0 ..< n]"
  by (auto simp: slots_of_def)

lemma read_responses:
  assumes "distinct is" "set is \<inter> D = {}" "set is \<subseteq> {..<n}" "rd_slots job = slots_of n b D"
  shows "foldl (\<lambda>j i. read_response i (b i) j) job is =
    (if is \<noteq> [] \<and> {..<n} \<subseteq> D \<union> set is
     then job\<lparr>rd_slots := slots_of n b (D \<union> set is), rd_timer := False,
              rd_replies := rd_replies job @ [concat (map b [0 ..< n])]\<rparr>
     else job\<lparr>rd_slots := slots_of n b (D \<union> set is)\<rparr>)"
  using assms
proof (induction "is" arbitrary: job D)
  case Nil
  then show ?case by (cases job) simp
next
  case (Cons i "is")
  have i: "i < n" "i \<notin> D" "i \<notin> set is" using Cons.prems by auto
  show ?case
  proof (cases "is = []")
    case True
    then show ?thesis
      using Cons.prems(4) i
      by (simp add: read_response_def slots_of_update slots_of_ready slots_of_full Let_def del: not_None_eq)
  next
    case False
    then have "\<not> {..<n} \<subseteq> insert i D" using Cons.prems i by (cases "is") auto
    then have step: "read_response i (b i) job = job\<lparr>rd_slots := slots_of n b (insert i D)\<rparr>"
      using Cons.prems(4) i(1) by (simp add: read_response_def slots_of_update slots_of_ready Let_def del: not_None_eq)
    have "set is \<inter> insert i D = {}" using Cons.prems i by auto
    with Cons.IH [of "insert i D" "job\<lparr>rd_slots := slots_of n b (insert i D)\<rparr>"] Cons.prems show ?thesis
      by (simp add: step False insert_commute)
  qed
qed

section \<open>Properties\<close>

text \<open>
  C14. The decision of a write. When the prepare requests of a write have all been sent and then the
  responses arrive, in any order and of any type, the job replies exactly once and starts exactly one
  commit phase: \<^verbatim>\<open>OK\<close> and execute when every server agreed, the error and rollback otherwise; the
  deadline timer is canceled and the file is marked checked exactly in the first case.
\<close>

theorem prepare_phase_decides:
  assumes "chmap_ok M" "draw_ok draw" "conf_ok cf" "in_chunks cf inp = Some cs" "cs \<noteq> []"
    and "\<forall>c \<in> set cs. unat (ck_bufoff c) + unat (ck_size c) \<le> length (in_data inp)"
    and "length tys = length cs"
  shows "\<exists>job ss. start_2pc_prepare M draw cf checked inp ver salt = Some (job, ss) \<and>
    length ss = length cs \<and> wj_replies job = [] \<and>
    (let job' = foldl (\<lambda>j ty. prepare_response M (in_uuid inp) ty j) job tys
     in wj_replies job' = [if list_all agrees tys then str ''OK'' else str ''Error: Found Pending 2PC Log''] \<and>
        wj_commits job' = [list_all agrees tys] \<and> \<not> wj_timer job' \<and>
        is_checked M (in_uuid inp) (wj_checked job') = list_all agrees tys)"
proof -
  define job where "job = \<lparr>wj_todo = cs, wj_outstanding = 0, wj_agree = True, wj_timer = True,
      wj_checked = checked, wj_replies = [], wj_commits = []\<rparr>"
  have "start_2pc_prepare M draw cf checked inp ver salt =
      prepare_loop M draw cf inp ver salt (length (wj_todo job)) job"
    using assms(4) by (simp add: start_2pc_prepare_def prepare_start_def job_def)
  also have "\<dots> = Some (job\<lparr>wj_todo := [], wj_outstanding := int (length cs)\<rparr>,
      map (\<lambda>c. (primary draw cf (in_uuid inp), prepare_packet M checked inp ver salt c)) cs)"
    using prepare_loop_sends [OF assms(2,3), of job inp] assms(6) by (simp add: job_def)
  finally have sends: "start_2pc_prepare M draw cf checked inp ver salt = \<dots>" .
  have "tys \<noteq> []" using assms(5,7) by auto
  with prepare_responses [of tys "job\<lparr>wj_todo := [], wj_outstanding := int (length cs)\<rparr>" M "in_uuid inp"] assms(1,7)
  show ?thesis
    by (simp add: sends job_def recoder_laws Let_def)
qed

definition sample_conf :: conf where
  "sample_conf = conf_init 3 2 (Some 4)"

definition sample_input :: "operation_t \<Rightarrow> u32 \<Rightarrow> u32 \<Rightarrow> bytes \<Rightarrow> jinput" where
  "sample_input oper pos n data = \<lparr>in_uuid = replicate 32 65, in_request = \<lparr>rq_type = type_val T_file,
     rq_operation = operation_val oper, rq_position = pos, rq_size = n\<rparr>, in_data = data\<rparr>"

lemma sample_conf_ok: "conf_ok sample_conf"
  by (simp add: sample_conf_def conf_init_def conf_ok_def)

lemma draw_zero_ok: "draw_ok (\<lambda>u n k. 0)"
  by (simp add: draw_ok_def)

lemma sample_size: "in_size (sample_input oper pos n data) = n"
  by (simp add: in_size_def sample_input_def)

lemma sample_chunks:
  "in_chunks sample_conf (sample_input oper 3 6 data) =
     Some [\<lparr>ck_block = 0, ck_offset = 3, ck_size = 1, ck_bufoff = 0\<rparr>,
           \<lparr>ck_block = 1, ck_offset = 0, ck_size = 4, ck_bufoff = 1\<rparr>,
           \<lparr>ck_block = 2, ck_offset = 0, ck_size = 1, ck_bufoff = 5\<rparr>]"
  by (simp add: in_chunks_def chunks_def sample_conf_def conf_init_def in_position_def in_size_def
      sample_input_def chunk_loop.simps)

theorem prepare_phase_decides_witness:
  "\<exists>job ss. start_2pc_prepare al_chmap (\<lambda>u n k. 0) sample_conf [] (sample_input Op_write 3 6 [1, 2, 3, 4, 5, 6]) 9 (\<lambda>b. [1, 2, 3, 4]) =
      Some (job, ss) \<and> length ss = 3 \<and>
    wj_commits (foldl (\<lambda>j ty. prepare_response al_chmap (replicate 32 65) ty j) job
       [lmsg_val Two_pc_prepare_agree, lmsg_val Two_pc_prepare_abort, lmsg_val Two_pc_prepare_agree]) = [False]"
  using prepare_phase_decides [OF al_chmap_ok draw_zero_ok sample_conf_ok sample_chunks [of Op_write "[1, 2, 3, 4, 5, 6]"],
      of "[lmsg_val Two_pc_prepare_agree, lmsg_val Two_pc_prepare_abort, lmsg_val Two_pc_prepare_agree]" "[]" 9 "\<lambda>b. [1, 2, 3, 4]"]
  by (auto simp: sample_input_def agrees_def lmsg_of_val Let_def simp del: lmsg_val.simps)

text \<open>
  C15. All interleavings of a write. In whatever order the sending loop, the response callbacks and
  the timer run: the counter of outstanding requests equals the number of open requests, each started
  commit phase has its own reply, and when at least one request was sent and none is open, a decision
  has been made and replied.
\<close>

theorem prepare_interleavings:
  assumes "wreach M draw cf inp ver salt checked (job, k)" "in_chunks cf inp = Some cs"
  shows "wj_outstanding job = int k \<and> length (wj_commits job) \<le> length (wj_replies job) \<and>
    (\<exists>sent. cs = sent @ wj_todo job \<and>
       (sent \<noteq> [] \<and> k = 0 \<longrightarrow> wj_commits job \<noteq> [] \<and> wj_replies job \<noteq> []))"
  using winv_reach [OF assms] by (fastforce simp: winv_def)

theorem prepare_interleavings_witness:
  "\<exists>job. wreach al_chmap (\<lambda>u n k. 0) sample_conf (sample_input Op_write 3 6 [1, 2, 3, 4, 5, 6]) 9 (\<lambda>b. [1, 2, 3, 4]) [] (job, 0) \<and>
     wj_outstanding job = 0"
proof -
  let ?inp = "sample_input Op_write 3 6 [1, 2, 3, 4, 5, 6]"
  obtain job where "prepare_start sample_conf ([] :: (bytes \<times> int) list) ?inp = Some job"
    by (simp add: prepare_start_def sample_chunks)
  then have r: "wreach al_chmap (\<lambda>u n k. 0) sample_conf ?inp 9 (\<lambda>b. [1, 2, 3, 4]) [] (job, 0)"
    by (rule wreach.start)
  from prepare_interleavings [OF r sample_chunks] r show ?thesis by auto
qed

text \<open>
  C16. Early decisions. The counter is incremented inside the sending loop, so a response that is
  handled before the next request is sent brings it to zero. For every write over two or more blocks
  there is an interleaving in which the client is told \<^verbatim>\<open>OK\<close> and the commit of the whole range is
  started while blocks of the range have not even been prepared.
\<close>

theorem decision_before_all_prepared:
  assumes "draw_ok draw" "conf_ok cf" "in_chunks cf inp = Some (c # d # cs)"
    and "unat (ck_bufoff c) + unat (ck_size c) \<le> length (in_data inp)"
  shows "\<exists>job. wreach M draw cf inp ver salt checked (job, 0) \<and>
    wj_replies job = [str ''OK''] \<and> wj_commits job = [True] \<and> wj_todo job = d # cs"
proof -
  define job where "job = \<lparr>wj_todo = c # d # cs, wj_outstanding = 0, wj_agree = True, wj_timer = True,
      wj_checked = checked, wj_replies = [], wj_commits = []\<rparr>"
  let ?job1 = "job\<lparr>wj_todo := d # cs, wj_outstanding := 1\<rparr>"
  have "prepare_send M draw cf inp ver salt job =
      Some (?job1, primary draw cf (in_uuid inp), prepare_packet M checked inp ver salt c)"
    using assms(4) primary_host(1) [OF assms(1,2)]
    by (simp add: job_def prepare_send_def prepare_request_def prepare_packet_def del: select_primary)
  moreover have "wreach M draw cf inp ver salt checked (job, 0)"
    using assms(3) by (intro wreach.start) (simp add: prepare_start_def job_def)
  ultimately have "wreach M draw cf inp ver salt checked (?job1, Suc 0)"
    by (blast intro: wreach.step wstep.send)
  then have "wreach M draw cf inp ver salt checked
      (prepare_response M (in_uuid inp) (lmsg_val Two_pc_prepare_agree) ?job1, 0)"
    by (rule wreach.step) (rule wstep.response)
  moreover have "prepare_response M (in_uuid inp) (lmsg_val Two_pc_prepare_agree) ?job1 =
      ?job1\<lparr>wj_outstanding := 0, wj_timer := False, wj_checked := mark_checked M (in_uuid inp) checked,
             wj_replies := [str ''OK''], wj_commits := [True]\<rparr>"
    by (simp add: prepare_response_eq agrees_def job_def Let_def del: lmsg_val.simps str_Cons)
  ultimately show ?thesis by (auto simp: job_def)
qed

theorem decision_before_all_prepared_witness:
  "\<exists>job. wreach al_chmap (\<lambda>u n k. 0) sample_conf (sample_input Op_write 3 6 [1, 2, 3, 4, 5, 6]) 9 (\<lambda>b. [1, 2, 3, 4]) [] (job, 0) \<and>
     wj_replies job = [str ''OK''] \<and> length (wj_todo job) = 2"
  using decision_before_all_prepared [OF draw_zero_ok sample_conf_ok sample_chunks [of Op_write "[1, 2, 3, 4, 5, 6]"],
      of al_chmap 9 "\<lambda>b. [1, 2, 3, 4]" "[]"]
  by (fastforce simp: sample_input_def)

text \<open>
  Writes that are never decided. A write request has no chunk exactly when its size is zero or
  its 32-bit end position wraps around; then, in every interleaving, no request is sent, no decision
  is made, and the only reply the client can ever get is the timeout of the deadline timer.
\<close>

lemma no_chunks_iff:
  "conf_ok cf \<Longrightarrow>
   in_chunks cf inp = Some [] \<longleftrightarrow>
     in_size inp = 0 \<or> 2 ^ 32 \<le> unat (in_position inp) + unat (in_size inp)"
proof -
  assume ok: "conf_ok cf"
  let ?p = "in_position inp" and ?n = "in_size inp"
  have bs: "cf_blocksize cf \<noteq> 0" using ok by (auto simp: conf_ok_def)
  then have "in_chunks cf inp = Some [] \<longleftrightarrow> \<not> ?p < ?p + ?n"
    by (subst in_chunks_def, subst chunks_def, subst chunk_loop.simps) (simp add: Let_def)
  also have "\<dots> \<longleftrightarrow> ?n = 0 \<or> 2 ^ 32 \<le> unat ?p + unat ?n"
  proof (cases "unat ?p + unat ?n < 4294967296")
    case True
    then show ?thesis by (simp add: word_less_nat_alt unat_word_ariths unat_eq_0)
  next
    case False
    have "unat ?p + unat ?n < 2 * 4294967296" using unat_u32_less [of ?p] unat_u32_less [of ?n] by linarith
    then have "(unat ?p + unat ?n) mod 4294967296 = unat ?p + unat ?n - 4294967296"
      using False by (simp add: mod_if)
    moreover have "unat ?n < 4294967296" by (rule unat_u32_less)
    ultimately have "\<not> unat ?p < (unat ?p + unat ?n) mod 4294967296" by linarith
    then show ?thesis
      using False by (simp add: word_less_nat_alt unat_word_ariths)
  qed
  finally show ?thesis .
qed

theorem empty_range_only_times_out:
  assumes "conf_ok cf" "in_size inp = 0 \<or> 2 ^ 32 \<le> unat (in_position inp) + unat (in_size inp)"
    and "wreach M draw cf inp ver salt checked (job, k)"
  shows "k = 0 \<and> wj_commits job = [] \<and>
    (wj_replies job = [] \<or> wj_replies job = [str ''Error: request timeout internally''])"
proof -
  have chunks: "in_chunks cf inp = Some []"
    using assms(1,2) by (simp add: no_chunks_iff)
  define ok where "ok s \<longleftrightarrow> (let (job, k) = s in wj_todo job = [] \<and> k = 0 \<and> wj_commits job = [] \<and>
      (if wj_timer job then wj_replies job = []
       else wj_replies job = [str ''Error: request timeout internally'']))" for s :: "'a wjob \<times> nat"
  have "ok s" if "wreach M draw cf inp ver salt checked s" for s
    using that
  proof (induction rule: wreach.induct)
    case (start job)
    then show ?case using chunks by (auto simp: prepare_start_def ok_def)
  next
    case (step s s')
    from step(2,3) show ?case
      by (cases rule: wstep.cases) (auto simp: ok_def prepare_timeout_def dest: prepare_send_job simp del: str_Cons)
  qed
  with assms(3) show ?thesis by (fastforce simp: ok_def split: if_splits)
qed

theorem empty_range_only_times_out_witness:
  "\<exists>job. wreach al_chmap (\<lambda>u n k. 0) sample_conf (sample_input Op_write 3 0 []) 9 (\<lambda>b. [1, 2, 3, 4]) [] (job, 0) \<and>
     wj_commits job = []"
proof -
  let ?inp = "sample_input Op_write 3 0 []"
  have size: "in_size ?inp = 0" by (simp add: in_size_def sample_input_def)
  then have "in_chunks sample_conf ?inp = Some []" by (simp add: no_chunks_iff [OF sample_conf_ok])
  then obtain job where "prepare_start sample_conf ([] :: (bytes \<times> int) list) ?inp = Some job"
    by (simp add: prepare_start_def)
  then have r: "wreach al_chmap (\<lambda>u n k. 0) sample_conf ?inp 9 (\<lambda>b. [1, 2, 3, 4]) [] (job, 0)"
    by (rule wreach.start)
  with empty_range_only_times_out [OF sample_conf_ok _ r] size show ?thesis by auto
qed

text \<open>
  Placement. With the configuration of \<^verbatim>\<open>init\<close> every block of a file has the same primary
  backend, since replica index 0 discards nothing from the seeded engine; the primary lies in the
  first half of the backend list and every replica in the second half.
\<close>

theorem placement_of_blocks:
  assumes "draw_ok draw" "0 < hosts" "cf = conf_init r hosts bs"
  shows "backend_at cf (select_replica draw cf uuid b 0) = backend_at cf (select_replica draw cf uuid b' 0) \<and>
    (\<exists>i < hosts. backend_at cf (select_replica draw cf uuid b 0) = Some i) \<and>
    (\<forall>i. replica_host draw cf inp idx c = Some i \<longrightarrow> hosts \<le> i \<and> i < 2 * hosts)"
  using assms
  by (auto simp: conf_init_def backend_at_def draw_ok_def replica_host_def trans_less_add1 split: option.splits if_splits)

theorem placement_of_blocks_witness:
  "backend_at (conf_init 3 4 None) (select_replica (\<lambda>u n k. (length u + k) mod n) (conf_init 3 4 None) [1] 7 0) = Some 1"
proof -
  have "draw_ok (\<lambda>u n k. (length u + k) mod n)" by (simp add: draw_ok_def)
  from placement_of_blocks [OF this _ refl, of 4 3 None "[1]" 7] show ?thesis
    by (auto simp: conf_init_def backend_at_def)
qed

text \<open>
  Replicas carry no data. The replication requests are built with the size of their chunk, but no
  bytes are copied into them and serialization sets the size to that of the empty body: what the replica
  servers receive for a committed write has an empty body, whatever was written.
\<close>

theorem replication_requests_are_empty:
  assumes "start_file_replication draw cf inp ver salt = Some ss" "(i, p) \<in> set ss"
  shows "kind p = Some Replication \<and> lp_buf (sent p) = [] \<and> lh_datasize (lp_header (sent p)) = 0"
proof -
  have one: "\<exists>idx. snd s = replication_request inp ver (salt (ck_block c) idx) c"
    if "replicas_of_chunk draw cf inp ver salt c is = Some ss" "s \<in> set ss" for c "is" ss s
    using that by (induction "is" arbitrary: ss) (auto split: option.splits, blast)
  have "\<exists>c idx. snd s = replication_request inp ver (salt (ck_block c) idx) c"
    if "replicate_chunks draw cf inp ver salt cs = Some ss" "s \<in> set ss" for cs ss s
    using that by (induction cs arbitrary: ss) (auto split: option.splits, metis one)
  then obtain c idx where "p = replication_request inp ver (salt (ck_block c) idx) c"
    using assms by (fastforce simp: start_file_replication_def split: option.splits)
  then show ?thesis
    by (simp add: replication_request_def block_request_def create_request_def sent_def kind_def lsized_def
        lmsg_of_val del: lmsg_val.simps)
qed

theorem replication_requests_are_empty_witness:
  "\<exists>ss. start_file_replication (\<lambda>u n k. 0) sample_conf (sample_input Op_write 3 6 [1, 2, 3, 4, 5, 6]) 9 (\<lambda>b i. [1, 2, 3, 4]) = Some ss \<and>
     length ss = 6 \<and> (\<forall>(i, p) \<in> set ss. lp_buf (sent p) = [])"
proof -
  let ?inp = "sample_input Op_write 3 6 [1, 2, 3, 4, 5, 6]"
  have two: "[1 .. 2 :: int] = [1, 2]" by (simp add: upto.simps)
  have host: "replica_host (\<lambda>u n k. 0) sample_conf ?inp idx c = Some 2"
    if "idx = 1 \<or> idx = 2" "sint (ck_block c) \<in> {0, 1, 2}" for idx c
    using that by (auto simp: replica_host_def backend_at_def select_replica_def int32_def sample_conf_def conf_init_def)
  have "cf_replication_size sample_conf = 3" by (simp add: sample_conf_def conf_init_def)
  then obtain ss where ss: "start_file_replication (\<lambda>u n k. 0) sample_conf ?inp 9 (\<lambda>b i. [1, 2, 3, 4]) = Some ss" "length ss = 6"
    by (simp add: start_file_replication_def sample_chunks two host)
  with replication_requests_are_empty [OF ss(1)] show ?thesis by auto
qed

text \<open>
  Collecting a read. When the responses of the read requests of a range arrive in any order, the
  job replies exactly once, after the last one, with the received buffers joined in the order of the
  blocks, and cancels its timer.
\<close>

theorem read_collects_in_order:
  assumes "start_read draw cf checked inp salt = Some (job, ss)" "in_size inp \<noteq> 0" "ss \<noteq> []"
    and "distinct is" "set is = {..<length ss}"
  shows "let job' = foldl (\<lambda>j i. read_response i (b i) j) job is
    in rd_replies job' = [concat (map b [0 ..< length ss])] \<and> \<not> rd_timer job'"
proof -
  from assms(1,2) have "rd_slots job = replicate (length ss) None" "rd_replies job = []"
    by (auto simp: start_read_def length_at_backends split: option.splits)
  then have "rd_slots job = slots_of (length ss) b {}" by (simp add: slots_of_def map_replicate_const)
  moreover have "0 \<in> set is" using assms(3) unfolding assms(5) by simp
  then have "is \<noteq> []" by (rule list.set_cases) simp_all
  ultimately show ?thesis
    using read_responses [OF assms(4), of "{}" "length ss" job b] assms(5) \<open>rd_replies job = []\<close>
    by (simp add: Let_def)
qed

theorem read_collects_in_order_witness:
  "\<exists>job ss. start_read (\<lambda>u n k. 0) sample_conf () (sample_input Op_read 3 6 []) (\<lambda>b. [1, 2, 3, 4]) = Some (job, ss) \<and>
     rd_replies (foldl (\<lambda>j i. read_response i [of_nat i] j) job [2, 0, 1]) = [[0, 1, 2]]"
proof -
  let ?inp = "sample_input Op_read 3 6 []"
  obtain job ss where s: "start_read (\<lambda>u n k. 0) sample_conf () ?inp (\<lambda>b. [1, 2, 3, 4]) = Some (job, ss)" "length ss = 3"
    using primary_host(1) [OF draw_zero_ok sample_conf_ok]
    by (simp add: start_read_def sample_chunks sample_size del: select_primary)
  then have "in_size ?inp \<noteq> 0" "ss \<noteq> []" "set [2, 0, 1] = {..<length ss}"
    by (auto simp: sample_size)
  with read_collects_in_order [OF s(1), of "[2, 0, 1]" "\<lambda>i. [of_nat i]"] s show ?thesis
    by (auto simp: Let_def numeral_3_eq_3)
qed

end
