(* ===== verification/File_Cache.thy ===== *)
theory File_Cache
  imports Lru_Cache Storage_Conf
begin

text \<open>
  \<^verbatim>\<open>functions/datafunction/caching.hpp\<close>, the class \<^verbatim>\<open>cache\<close>: the block cache in front of the storage
  of a data function, reading and writing of cached blocks, and the table that one data function hands
  over to another when it ends. \<open>None\<close> is undefined behaviour (reading behind a buffer or
  through a dead pointer), a loop that does not end, or a thread that waits for its own lock.
\<close>

record 't cache =
  ca_map :: 't
  ca_lru :: lru
  ca_block_counter :: u32
  ca_policy :: string
  ca_hits :: u64

definition cache_new :: "('b, 't) file_map \<Rightarrow> u32 \<Rightarrow> string \<Rightarrow> 't cache" where
  "cache_new M cachesize policy = \<lparr>ca_map = chm_empty M, ca_lru = LRUCache cachesize,
     ca_block_counter = 0, ca_policy = policy, ca_hits = 0\<rparr>"

section \<open>Block numbers of a range\<close>

partial_function (option) block_ids_loop :: "u32 \<Rightarrow> u32 \<Rightarrow> u32 list option" where
  "block_ids_loop currentpos endpos =
     (if currentpos < endpos
      then Option.bind (block_ids_loop (currentpos + 4096) endpos) (\<lambda>ids. Some (currentpos div 4096 # ids))
      else Some [])"

definition get_block_ids :: "jinput \<Rightarrow> u32 list option" where
  "get_block_ids inp = (if in_size inp = 0 then Some []
     else block_ids_loop (in_position inp) (in_position inp + in_size inp))"

section \<open>Reading\<close>

fun read_blocks ::
  "('b, 't) file_map \<Rightarrow> 'b block_map \<Rightarrow> string \<Rightarrow> bytes \<Rightarrow> 'b \<Rightarrow> u32 list \<Rightarrow> bytes \<Rightarrow> lru \<times> 't \<Rightarrow>
     (bytes option \<times> lru \<times> 't) option" where
  "read_blocks M B policy uuid blocks [] to_return lt = Some (Some to_return, lt)"
| "read_blocks M B policy uuid blocks (block_id # ids) to_return lt =
     (case chm_find B blocks block_id of
        None \<Rightarrow> Some (None, lt)
      | Some buf \<Rightarrow> do {
          lt' \<leftarrow> (if policy \<noteq> ''FIFO''
            then lru_set M B (Some uuid) \<lparr>ce_file_key = uuid, ce_block_id = block_id, ce_data_size = of_nat (length buf)\<rparr> lt
            else Some lt);
          read_blocks M B policy uuid blocks ids (to_return @ buf) lt'
        })"

text \<open>The accessor of the file is held while the entries of its blocks are moved to the front.\<close>

definition read_from_cache ::
  "('b, 't) file_map \<Rightarrow> 'b block_map \<Rightarrow> jinput \<Rightarrow> 't cache \<Rightarrow> (bytes option \<times> 't cache) option" where
  "read_from_cache M B inp c =
     (case chm_find M (ca_map c) (in_uuid inp) of
        None \<Rightarrow> Some (None, c)
      | Some blocks \<Rightarrow> do {
          ids \<leftarrow> get_block_ids inp;
          (r, l, t) \<leftarrow> read_blocks M B (ca_policy c) (in_uuid inp) blocks ids [] (ca_lru c, ca_map c);
          let c = c\<lparr>ca_lru := l, ca_map := t\<rparr>;
          Some (r, if r = None then c else c\<lparr>ca_hits := ca_hits c + 1\<rparr>)
        })"

section \<open>Writing\<close>

definition buffer_offset :: "jinput \<Rightarrow> u32 \<Rightarrow> u32" where
  "buffer_offset inp block_id = (block_id - in_position inp div 4096) * 4096"

definition copy_size :: "jinput \<Rightarrow> u32 \<Rightarrow> u32" where
  "copy_size inp block_id = min 4096 (in_size inp - buffer_offset inp block_id)"

definition to_emplace :: "jinput \<Rightarrow> bytes \<Rightarrow> u32 \<Rightarrow> bytes option" where
  "to_emplace inp data block_id =
     (if unat (buffer_offset inp block_id) + unat (copy_size inp block_id) \<le> length data
      then Some (slice (unat (buffer_offset inp block_id)) (unat (copy_size inp block_id)) data) else None)"

definition block_entry :: "jinput \<Rightarrow> u32 \<Rightarrow> cache_entry" where
  "block_entry inp block_id =
     \<lparr>ce_file_key = in_uuid inp, ce_block_id = block_id, ce_data_size = copy_size inp block_id\<rparr>"

fun write_known ::
  "('b, 't) file_map \<Rightarrow> 'b block_map \<Rightarrow> jinput \<Rightarrow> bytes \<Rightarrow> u32 list \<Rightarrow> lru \<times> 't \<Rightarrow> (lru \<times> 't) option" where
  "write_known M B inp data [] lt = Some lt"
| "write_known M B inp data (block_id # ids) lt = do {
     buf \<leftarrow> to_emplace inp data block_id;
     (l, t) \<leftarrow> lru_set M B None (block_entry inp block_id) lt;
     let t = (case chm_find M t (in_uuid inp) of None \<Rightarrow> t
              | Some blocks \<Rightarrow> chm_write M t (in_uuid inp) (chm_emplace B blocks block_id buf));
     write_known M B inp data ids (l, t)
   }"

fun write_unknown ::
  "('b, 't) file_map \<Rightarrow> 'b block_map \<Rightarrow> jinput \<Rightarrow> bytes \<Rightarrow> u32 list \<Rightarrow> 'b \<times> u32 \<Rightarrow> lru \<times> 't \<Rightarrow>
     (('b \<times> u32) \<times> lru \<times> 't) option" where
  "write_unknown M B inp data [] bc lt = Some (bc, lt)"
| "write_unknown M B inp data (block_id # ids) (blocks, counter) lt = do {
     buf \<leftarrow> to_emplace inp data block_id;
     lt \<leftarrow> lru_set M B None (block_entry inp block_id) lt;
     write_unknown M B inp data ids (chm_emplace B blocks block_id buf, counter + copy_size inp block_id) lt
   }"

definition write_to_cache ::
  "('b, 't) file_map \<Rightarrow> 'b block_map \<Rightarrow> jinput \<Rightarrow> bytes \<Rightarrow> 't cache \<Rightarrow> 't cache option" where
  "write_to_cache M B inp data c = do {
     ids \<leftarrow> get_block_ids inp;
     case chm_find M (ca_map c) (in_uuid inp) of
       Some _ \<Rightarrow> do {
         (l, t) \<leftarrow> write_known M B inp data ids (ca_lru c, ca_map c);
         Some (c\<lparr>ca_lru := l, ca_map := t\<rparr>)
       }
     | None \<Rightarrow> do {
         ((blocks, counter), l, t) \<leftarrow>
           write_unknown M B inp data ids (chm_empty B, ca_block_counter c) (ca_lru c, ca_map c);
         Some (c\<lparr>ca_lru := l, ca_map := chm_emplace M t (in_uuid inp) blocks, ca_block_counter := counter\<rparr>)
       }
   }"

section \<open>Handing the cache over\<close>

text \<open>
  The table lists the files with the numbers and sizes of their blocks, then the entries of the LRU list
  from the least to the most recently used, then the counters of hits and evictions. Separators are
  the characters \<^verbatim>\<open>':'\<close>, \<^verbatim>\<open>','\<close>, \<^verbatim>\<open>'.'\<close> and the blank.
\<close>

fun table_blocks :: "(u32 \<times> bytes) list \<Rightarrow> bytes" where
  "table_blocks [] = []"
| "table_blocks ((b, buf) # bs) =
     mem32 b @ mem32 (of_nat (length buf)) @ (if bs = [] then [] else 44 # table_blocks bs)"

definition table_files :: "('b, 't) file_map \<Rightarrow> 'b block_map \<Rightarrow> 't \<Rightarrow> bytes" where
  "table_files M B t =
     concat (map (\<lambda>(k, blocks). k @ [58] @ table_blocks (chm_range B blocks) @ [32]) (chm_range M t))"

definition table_entry :: "cache_entry \<Rightarrow> bytes" where
  "table_entry e = ce_file_key e @ [46] @ mem32 (ce_block_id e) @ mem32 (ce_data_size e) @ [32]"

partial_function (option) table_lru :: "lru \<Rightarrow> addr \<Rightarrow> bytes option" where
  "table_lru l it =
     (if it = lr_head l then Some []
      else do {
        n \<leftarrow> lr_heap l it;
        prev \<leftarrow> nd_prev n;
        rest \<leftarrow> table_lru l prev;
        Some (table_entry (nd_key n) @ rest)
      })"

definition get_tables :: "('b, 't) file_map \<Rightarrow> 'b block_map \<Rightarrow> 't cache \<Rightarrow> bytes option" where
  "get_tables M B c = do {
     last \<leftarrow> get_prev (lr_tail (ca_lru c)) (ca_lru c);
     entries \<leftarrow> table_lru (ca_lru c) last;
     Some (table_files M B (ca_map c) @ entries @ mem32 (ucast (ca_hits c)) @ mem32 (ucast (lr_evictions (ca_lru c))))
   }"

text \<open>
  \<open>build_items\<close> is the inner loop of \<^verbatim>\<open>build_cache\<close>: it leaves the rest of the table at the blank, the
  cache state and the blocks to be fetched from the storage. \<open>build_cache\<close> gives the requests it
  starts; \<open>on_block\<close> is the callback of each of them.
\<close>

fun build_items ::
  "('b, 't) file_map \<Rightarrow> 'b block_map \<Rightarrow> bytes option \<Rightarrow> bytes \<Rightarrow> bytes \<Rightarrow> lru \<times> 't \<Rightarrow> (u32 \<times> u32) list \<Rightarrow>
     (bytes \<times> (lru \<times> 't) \<times> (u32 \<times> u32) list) option" where
  "build_items M B held key [] lt reqs = None"
| "build_items M B held key (x # r) lt reqs =
     (if x = 32 then Some (x # r, lt, reqs)
      else if length r < 8 then None
      else let bid = of_mem32 (take 4 r); b_size = of_mem32 (take 4 (drop 4 r)) in
        if x = 46 then
          map_option (\<lambda>lt'. (drop 8 r, lt', reqs))
            (lru_set M B held \<lparr>ce_file_key = key, ce_block_id = bid, ce_data_size = b_size\<rparr> lt)
        else build_items M B held key (drop 8 r) lt (reqs @ [(bid, b_size)]))"

partial_function (option) build_loop ::
  "('b, 't) file_map \<Rightarrow> 'b block_map \<Rightarrow> bytes \<Rightarrow> lru \<times> 't \<Rightarrow> (bytes \<times> u32 \<times> u32) list \<Rightarrow>
     ((lru \<times> 't) \<times> (bytes \<times> u32 \<times> u32) list) option" where
  "build_loop M B table lt reqs =
     (if table = [] then Some (lt, reqs)
      else if length table < 32 then None
      else
        let key = take 32 table; found = (chm_find M (snd lt) key \<noteq> None);
            t = (if found then snd lt else chm_emplace M (snd lt) key (chm_empty B))
        in do {
          (rest, lt', items) \<leftarrow> build_items M B (if found then Some key else None) key (drop 32 table) (fst lt, t) [];
          if rest = [] then None
          else build_loop M B (tl rest) lt' (reqs @ map (\<lambda>(b, n). (key, b, n)) items)
        })"

definition block_fetch :: "packet_header \<Rightarrow> bytes \<Rightarrow> bytes \<Rightarrow> u32 \<Rightarrow> u32 \<Rightarrow> packet" where
  "block_fetch h pad key bid b_size =
     build_packet (h\<lparr>ph_key := key\<rparr>) pad
       \<lparr>rq_type = type_val T_file, rq_operation = operation_val Op_read, rq_position = bid * 4096,
        rq_size = b_size\<rparr> []"

definition build_cache ::
  "('b, 't) file_map \<Rightarrow> 'b block_map \<Rightarrow> packet_header \<Rightarrow> bytes \<Rightarrow> bytes \<Rightarrow> 't cache \<Rightarrow>
     ('t cache \<times> (u32 \<times> packet) list) option" where
  "build_cache M B h pad table c = do {
     ((l, t), reqs) \<leftarrow> build_loop M B table (ca_lru c, ca_map c) [];
     Some (c\<lparr>ca_lru := l, ca_map := t\<rparr>, map (\<lambda>(k, b, n). (b, block_fetch h pad k b n)) reqs)
   }"

definition on_block :: "('b, 't) file_map \<Rightarrow> 'b block_map \<Rightarrow> bytes \<Rightarrow> u32 \<Rightarrow> bytes \<Rightarrow> 't cache \<Rightarrow> 't cache" where
  "on_block M B uuid bid data c =
     (case chm_find M (ca_map c) uuid of
        None \<Rightarrow> c
      | Some blocks \<Rightarrow> c\<lparr>ca_map := chm_write M (ca_map c) uuid (chm_emplace B blocks bid data),
          ca_block_counter := ca_block_counter c + of_nat (length data)\<rparr>)"

section \<open>The block numbers\<close>

definition block_count :: "jinput \<Rightarrow> nat" where
  "block_count inp = (unat (in_size inp) + 4095) div 4096"

definition block_id :: "jinput \<Rightarrow> nat \<Rightarrow> u32" where
  "block_id inp i = in_position inp div 4096 + of_nat i"

definition cache_range :: "jinput \<Rightarrow> bool" where
  "cache_range inp \<longleftrightarrow> unat (in_position inp) + unat (in_size inp) + 4096 \<le> 2 ^ 32"

lemma unat_add_small: "unat a + unat b < 2 ^ 32 \<Longrightarrow> unat (a + b :: u32) = unat a + unat b"
  by (simp add: unat_word_ariths)

lemma step_div:
  assumes "unat cur + 4096 < 2 ^ 32"
  shows "(cur + 4096 :: u32) div 4096 = cur div 4096 + 1"
proof -
  have "unat (cur + 4096) = unat cur + 4096" using unat_add_small [of cur 4096] assms by simp
  moreover have "unat (cur div 4096 + 1) = unat cur div 4096 + 1"
    using unat_add_small [of "cur div 4096" 1] assms by (simp add: unat_div)
  ultimately show ?thesis by (simp add: word_unat_eq_iff unat_div)
qed

lemma div_step: "a < b \<Longrightarrow> (b - a + 4095) div 4096 = Suc ((b - (a + 4096) + 4095) div (4096 :: nat))"
  by (cases "a + 4096 \<le> b") (auto simp: div_eq_0_iff Suc_le_eq le_div_geq)

lemma block_ids_loop_range:
  assumes "unat endpos + 4096 \<le> 2 ^ 32"
  shows "block_ids_loop cur endpos =
    Some (map (\<lambda>i. cur div 4096 + of_nat i) [0 ..< (unat endpos - unat cur + 4095) div 4096])"
proof (induction "unat endpos - unat cur" arbitrary: cur rule: less_induct)
  case less
  show ?case
  proof (cases "cur < endpos")
    case False
    then show ?thesis by (subst block_ids_loop.simps) (simp add: word_less_nat_alt)
  next
    case True
    then have lt: "unat cur < unat endpos" by (simp add: word_less_nat_alt)
    then have sum: "unat (cur + 4096) = unat cur + 4096" using unat_add_small [of cur 4096] assms by simp
    let ?n = "(unat endpos - unat (cur + 4096) + 4095) div 4096"
    have n: "(unat endpos - unat cur + 4095) div 4096 = Suc ?n"
      unfolding sum using lt by (rule div_step)
    have "block_ids_loop (cur + 4096) endpos = Some (map (\<lambda>i. (cur + 4096) div 4096 + of_nat i) [0 ..< ?n])"
      using less [of "cur + 4096"] lt sum by simp
    moreover have "unat cur + 4096 < 2 ^ 32" using lt assms by simp
    ultimately show ?thesis
      using True by (subst block_ids_loop.simps) (simp add: n step_div map_upt_Suc add.assoc del: upt_Suc)
  qed
qed

lemma get_block_ids_range:
  assumes "cache_range inp"
  shows "get_block_ids inp = Some (map (block_id inp) [0 ..< block_count inp])"
proof (cases "in_size inp = 0")
  case True
  then show ?thesis by (simp add: get_block_ids_def block_count_def)
next
  case False
  have "unat (in_position inp + in_size inp) = unat (in_position inp) + unat (in_size inp)"
    using assms unat_add_small [of "in_position inp" "in_size inp"] by (simp add: cache_range_def)
  with False assms show ?thesis
    by (simp add: get_block_ids_def block_ids_loop_range cache_range_def block_count_def block_id_def)
qed

lemma block_at_range:
  assumes "cache_range inp" "i < block_count inp"
  shows "unat (block_id inp i) = unat (in_position inp) div 4096 + i"
    and "unat (buffer_offset inp (block_id inp i)) = i * 4096"
    and "unat (copy_size inp (block_id inp i)) = min 4096 (unat (in_size inp) - i * 4096)"
proof -
  have i: "i * 4096 < unat (in_size inp)" using assms(2) by (simp add: block_count_def less_eq_div_iff_mult_less_eq Suc_le_eq [symmetric])
  have "i * 4096 < 4294967296" by (rule less_trans [OF i]) simp
  then have small: "i * 4096 < 2 ^ 32" "i < 2 ^ 32" by simp_all
  have ui: "unat (of_nat i :: u32) = i" using small by (simp add: unat_of_nat)
  show "unat (block_id inp i) = unat (in_position inp) div 4096 + i"
    using assms(1) i unat_add_small [of "in_position inp div 4096" "of_nat i"]
    by (simp add: block_id_def cache_range_def unat_div ui)
  have "buffer_offset inp (block_id inp i) = of_nat (i * 4096)"
    by (simp add: buffer_offset_def block_id_def)
  then show off: "unat (buffer_offset inp (block_id inp i)) = i * 4096"
    using small(1) by (simp add: unat_of_nat del: of_nat_mult)
  show "unat (copy_size inp (block_id inp i)) = min 4096 (unat (in_size inp) - i * 4096)"
    using i off by (simp add: copy_size_def unat_min unat_sub word_le_nat_alt)
qed

section \<open>The pieces of a buffer\<close>

definition piece :: "jinput \<Rightarrow> bytes \<Rightarrow> nat \<Rightarrow> bytes" where
  "piece inp data i = slice (i * 4096) (min 4096 (unat (in_size inp) - i * 4096)) data"

lemma block_count_le: "i < block_count inp \<Longrightarrow> i * 4096 < unat (in_size inp)"
  by (simp add: block_count_def less_eq_div_iff_mult_less_eq Suc_le_eq [symmetric])

lemma length_piece:
  assumes "cache_range inp" "i < block_count inp" "unat (in_size inp) \<le> length data"
  shows "length (piece inp data i) = esize (block_entry inp (block_id inp i))"
  using assms block_count_le [OF assms(2)] block_at_range(3) [OF assms(1,2)]
  by (auto simp: piece_def esize_def block_entry_def)

lemma to_emplace_range:
  assumes "cache_range inp" "i < block_count inp" "unat (in_size inp) \<le> length data"
  shows "to_emplace inp data (block_id inp i) = Some (piece inp data i)"
  using assms block_count_le [OF assms(2)] block_at_range(2,3) [OF assms(1,2)]
  by (simp add: to_emplace_def piece_def)

lemma concat_pieces_upto:
  "unat (in_size inp) \<le> length data \<Longrightarrow>
    concat (map (piece inp data) [0 ..< n]) = take (min (unat (in_size inp)) (n * 4096)) data"
proof (induction n)
  case (Suc n)
  have "min (unat (in_size inp)) (Suc n * 4096) =
      min (unat (in_size inp)) (n * 4096) + min 4096 (unat (in_size inp) - n * 4096)" by simp
  moreover have "take (min 4096 (unat (in_size inp) - n * 4096)) (drop (min (unat (in_size inp)) (n * 4096)) data) =
      piece inp data n"
    by (cases "n * 4096 \<le> unat (in_size inp)") (simp_all add: piece_def slice_def min_def)
  ultimately show ?case using Suc by (simp add: take_add)
qed simp

lemma concat_pieces:
  assumes "unat (in_size inp) \<le> length data"
  shows "concat (map (piece inp data) [0 ..< block_count inp]) = take (unat (in_size inp)) data"
proof -
  have "unat (in_size inp) \<le> block_count inp * 4096" unfolding block_count_def by linarith
  then show ?thesis by (simp add: concat_pieces_upto [OF assms])
qed

lemma block_id_inject:
  assumes "cache_range inp" "i < block_count inp" "j < block_count inp"
  shows "block_id inp i = block_id inp j \<longleftrightarrow> i = j"
  using block_at_range(1) [OF assms(1,2)] block_at_range(1) [OF assms(1,3)] by (metis add_left_cancel)

section \<open>Tracked blocks\<close>

text \<open>
  \<open>tracked\<close>: every cached block has an entry of its size in the LRU list. Then reading cached blocks
  changes the order of the list and nothing else.
\<close>

definition tracked :: "('b, 't) file_map \<Rightarrow> 'b block_map \<Rightarrow> 't \<Rightarrow> cache_entry list \<Rightarrow> bool" where
  "tracked M B t es \<longleftrightarrow>
     (\<forall>k buf. cached M B t k = Some buf \<longrightarrow> (\<exists>x \<in> set es. ce_key x = k \<and> esize x = length buf))"

lemma trackedD:
  "tracked M B t es \<Longrightarrow> cached M B t k = Some buf \<Longrightarrow> \<exists>x \<in> set es. ce_key x = k \<and> esize x = length buf"
  unfolding tracked_def by blast

lemma sizes_remove:
  assumes "x \<in> set es" "distinct (map ce_key es)"
  shows "esize x + sizes (others x es) = sizes es" "set (x # others x es) = set es"
proof -
  obtain xs ys where es: "es = xs @ x # ys" using assms(1) by (meson split_list)
  then have "others x es = xs @ ys" using assms(2) by (simp add: others_simps others_id)
  then show "esize x + sizes (others x es) = sizes es" "set (x # others x es) = set es" using es by auto
qed

lemma tracked_set:
  assumes "tracked M B t es" "cached M B t' = without (ce_key ` (set (others e es) - set (touch n e es))) (cached M B t)"
    and "cached M B t k = Some buf \<Longrightarrow> k = ce_key e \<Longrightarrow> esize e = length buf"
    and "cached M B t' k = Some buf"
  shows "\<exists>x \<in> set (touch n e es). ce_key x = k \<and> esize x = length buf"
proof (cases "k = ce_key e")
  case True
  moreover have "e \<in> set (touch n e es)" by (simp add: touch_def)
  ultimately show ?thesis using assms by (auto simp: without_def split: if_splits)
next
  case False
  from assms(2,4) have c: "cached M B t k = Some buf" and ev: "k \<notin> ce_key ` (set (others e es) - set (touch n e es))"
    by (auto simp: without_def split: if_splits)
  from trackedD [OF assms(1) c] obtain x where "x \<in> set es" "ce_key x = k" "esize x = length buf" by blast
  moreover from this have "x \<in> set (touch n e es)" using ev False by (auto simp: set_others)
  ultimately show ?thesis by blast
qed

lemma tracked_touch:
  assumes "tracked M B t es" "cached M B t' = without (ce_key ` (set (others e es) - set (touch n e es))) (cached M B t)"
    and "\<forall>buf. cached M B t (ce_key e) = Some buf \<longrightarrow> esize e = length buf"
  shows "tracked M B t' (touch n e es)"
  unfolding tracked_def
proof (intro allI impI)
  fix k buf assume "cached M B t' k = Some buf"
  then show "\<exists>x \<in> set (touch n e es). ce_key x = k \<and> esize x = length buf"
    by (rule tracked_set [OF assms(1,2), rotated]) (use assms(3) in simp)
qed

lemma lru_unknown: "lru_inv l es \<Longrightarrow> ce_key e \<notin> ce_key ` set es \<Longrightarrow> lr_m l (ce_key e) = None"
  by (auto simp: lru_inv_def lru_rep_def)

lemma lru_inv_distinct: "lru_inv l es \<Longrightarrow> distinct (map ce_key es)"
  by (auto simp: lru_inv_def lru_rep_def)

lemma lru_inv_sizes: "lru_inv l es \<Longrightarrow> sizes es \<le> unat (lr_cap l)"
  by (simp add: lru_inv_def)

text \<open>Moving a known entry to the front.\<close>

lemma lru_set_known:
  assumes "chmap_ok M" "chmap_ok B" "lru_inv l es" "2 * unat (lr_cap l) < 2 ^ 32" "x \<in> set es"
  shows "\<exists>l'. lru_set M B held x (l, t) = Some (l', t) \<and> lru_inv l' (x # others x es) \<and> lr_cap l' = lr_cap l"
proof -
  note s = sizes_remove [OF assms(5) lru_inv_distinct [OF assms(3)]]
  have fit: "esize x + sizes (others x es) \<le> unat (lr_cap l)" using s(1) lru_inv_sizes [OF assms(3)] by simp
  then have "touch (unat (lr_cap l)) x es = x # others x es" by (simp add: touch_def keep_fits)
  with lru_set_spec [OF assms(1-3), of x held t] fit assms(4) show ?thesis by auto
qed

lemma read_blocks_tracked:
  assumes "chmap_ok M" "chmap_ok B" "chm_find M t u = Some blocks" "tracked M B t es"
    and "lru_inv l es" "2 * unat (lr_cap l) < 2 ^ 32"
  shows "\<exists>l' es'. read_blocks M B policy u blocks ids acc (l, t) =
      Some (if \<forall>b \<in> set ids. chm_find B blocks b \<noteq> None
            then Some (acc @ concat (map (\<lambda>b. the (chm_find B blocks b)) ids)) else None, l', t) \<and>
    lru_inv l' es' \<and> set es' = set es \<and> lr_cap l' = lr_cap l"
  using assms(4-)
proof (induction ids arbitrary: acc l es)
  case Nil
  then show ?case by auto
next
  case (Cons b ids)
  show ?case
  proof (cases "chm_find B blocks b")
    case None
    then show ?thesis using Cons.prems by auto
  next
    case (Some buf)
    then have "cached M B t (u, b) = Some buf" using assms(3) by (simp add: cached_def)
    from trackedD [OF Cons.prems(1) this] obtain x where
      x: "x \<in> set es" "ce_key x = (u, b)" "esize x = length buf" by blast
    have e: "\<lparr>ce_file_key = u, ce_block_id = b, ce_data_size = of_nat (length buf)\<rparr> = x"
      using x(2) unfolding x(3) [symmetric] by (cases x) (auto simp: ce_key_def esize_def)
    obtain l1 es1 where l1: "(if policy \<noteq> ''FIFO'' then lru_set M B (Some u) x (l, t) else Some (l, t)) = Some (l1, t)"
      "lru_inv l1 es1" "set es1 = set es" "lr_cap l1 = lr_cap l"
      using lru_set_known [OF assms(1,2) Cons.prems(2,3) x(1), of "Some u" t]
        sizes_remove(2) [OF x(1) lru_inv_distinct [OF Cons.prems(2)]] Cons.prems(2)
      by (cases "policy = ''FIFO''") auto
    have "tracked M B t es1" using Cons.prems(1) l1(3) by (simp add: tracked_def)
    with Cons.IH [of es1 l1 "acc @ buf"] l1 Cons.prems(3) Some e show ?thesis by fastforce
  qed
qed

section \<open>Writing a file that is not cached\<close>

abbreviation range_entry :: "jinput \<Rightarrow> nat \<Rightarrow> cache_entry" where
  "range_entry inp i \<equiv> block_entry inp (block_id inp i)"

lemma ce_key_block_entry [simp]: "ce_key (block_entry inp b) = (in_uuid inp, b)"
  by (simp add: ce_key_def block_entry_def)

lemma keep_append: "sizes xs \<le> n \<Longrightarrow> keep n (xs @ ys) = xs @ keep (n - sizes xs) ys"
  by (induction n xs rule: keep.induct) auto

lemma touch_behind:
  assumes "ce_key e \<notin> ce_key ` set xs" "esize e + sizes xs \<le> n"
  shows "touch n e (xs @ ys) = e # xs @ keep (n - esize e - sizes xs) (others e ys)"
  using assms by (simp add: touch_def others_simps others_id keep_append)

definition emplace_all :: "('i \<Rightarrow> 'k) \<Rightarrow> ('i \<Rightarrow> 'v) \<Rightarrow> 'i list \<Rightarrow> ('k \<rightharpoonup> 'v) \<Rightarrow> 'k \<rightharpoonup> 'v" where
  "emplace_all f p is m = foldl (\<lambda>m i. if m (f i) = None then m(f i \<mapsto> p i) else m) m is"

lemma emplace_all_simps [simp]:
  "emplace_all f p [] m = m"
  "emplace_all f p (i # is) m = emplace_all f p is (if m (f i) = None then m(f i \<mapsto> p i) else m)"
  by (simp_all add: emplace_all_def)

lemma emplace_all_other: "b \<notin> f ` set is \<Longrightarrow> emplace_all f p is m b = m b"
  by (induction "is" arbitrary: m) auto

lemma emplace_all_member:
  "inj_on f (set is) \<Longrightarrow> distinct is \<Longrightarrow> \<forall>i \<in> set is. m (f i) = None \<Longrightarrow> i \<in> set is \<Longrightarrow>
    emplace_all f p is m (f i) = Some (p i)"
proof (induction "is" arbitrary: m)
  case (Cons j "is")
  then have "f j \<notin> f ` set is" by (auto simp: inj_on_def)
  moreover from this have "\<forall>i \<in> set is. (m(f j \<mapsto> p j)) (f i) = None" using Cons.prems(3) by (metis fun_upd_other image_eqI list.set_intros(2))
  ultimately show ?case using Cons by (cases "i = j") (auto simp: emplace_all_other)
qed simp

text \<open>
  While the blocks of the range fit into the cache, their entries stay at the front of the list, so that
  none of them is evicted by a later one.
\<close>

lemma write_unknown_ok:
  assumes ok: "chmap_ok M" "chmap_ok B" and range: "cache_range inp" "unat (in_size inp) \<le> length data"
    and "2 * unat (lr_cap l) < 2 ^ 32" "lru_inv l (map (range_entry inp) (rev done) @ rest)"
    and "sizes (map (range_entry inp) (done @ is)) \<le> unat (lr_cap l)"
    and "distinct (done @ is)" "set (done @ is) \<subseteq> {..< block_count inp}"
    and "chm_find M t (in_uuid inp) = None" "tracked M B t (map (range_entry inp) (rev done) @ rest)"
  shows "\<exists>blocks' ctr' l' t' rest'.
    write_unknown M B inp data (map (block_id inp) is) (blocks, ctr) (l, t) = Some ((blocks', ctr'), l', t') \<and>
    lru_inv l' (map (range_entry inp) (rev (done @ is)) @ rest') \<and> lr_cap l' = lr_cap l \<and>
    set rest' \<subseteq> set rest \<and>
    tracked M B t' (map (range_entry inp) (rev (done @ is)) @ rest') \<and> chm_find M t' (in_uuid inp) = None \<and>
    cached M B t' \<subseteq>\<^sub>m cached M B t \<and>
    chm_find B blocks' = emplace_all (block_id inp) (piece inp data) is (chm_find B blocks)"
  using assms(5-)
proof (induction "is" arbitrary: "done" rest l t blocks ctr)
  case Nil
  then show ?case by auto
next
  case (Cons i "is")
  let ?e = "range_entry inp i" and ?u = "in_uuid inp"
  let ?front = "map (range_entry inp) (rev done)" and ?cap = "unat (lr_cap l)"
  have i: "i < block_count inp" using Cons.prems by auto
  have new: "ce_key ?e \<notin> ce_key ` set ?front"
  proof
    assume "ce_key ?e \<in> ce_key ` set ?front"
    then obtain j where "j \<in> set done" "block_id inp i = block_id inp j" by auto
    moreover from this have "j < block_count inp" "i \<noteq> j" using Cons.prems(4,5) by auto
    ultimately show False using block_id_inject [OF range(1) i] by blast
  qed
  have sum: "esize ?e + sizes ?front \<le> ?cap"
    using Cons.prems(3) by (simp add: sizes_def rev_map [symmetric] sum_list_rev)
  let ?rest = "keep (?cap - esize ?e - sizes ?front) (others ?e rest)"
  have touch: "touch ?cap ?e (?front @ rest) = map (range_entry inp) (rev (done @ [i])) @ ?rest"
    using touch_behind [OF new sum] by simp
  obtain l1 t1 where l1: "lru_set M B None ?e (l, t) = Some (l1, t1)"
      "lru_inv l1 (map (range_entry inp) (rev (done @ [i])) @ ?rest)" "lr_cap l1 = lr_cap l"
      "cached M B t1 = without (ce_key ` (set (others ?e (?front @ rest)) - set (touch ?cap ?e (?front @ rest)))) (cached M B t)"
      "no_new_files M t t1"
    using lru_set_spec [OF ok Cons.prems(2), of ?e None t] sum Cons.prems(1) touch by auto
  have none: "chm_find M t1 ?u = None" using l1(5) Cons.prems(6) by (simp add: no_new_files_def)
  have "cached M B t (ce_key ?e) = None" using Cons.prems(6) by (simp add: cached_def)
  then have "tracked M B t1 (map (range_entry inp) (rev (done @ [i])) @ ?rest)"
    using tracked_touch [OF Cons.prems(7) l1(4)] unfolding touch by simp
  moreover have "cached M B t1 \<subseteq>\<^sub>m cached M B t" unfolding l1(4) by (auto simp: map_le_def without_def)
  moreover have "set ?rest \<subseteq> set rest" using set_keep set_others by fastforce
  moreover have "sizes (map (range_entry inp) ((done @ [i]) @ is)) \<le> unat (lr_cap l1)"
    "distinct ((done @ [i]) @ is)" "set ((done @ [i]) @ is) \<subseteq> {..< block_count inp}"
    using Cons.prems l1(3) by simp_all
  ultimately show ?case
    using Cons.IH [OF _ l1(2), of t1 "chm_emplace B blocks (block_id inp i) (piece inp data i)" "ctr + copy_size inp (block_id inp i)"]
      Cons.prems(1) l1(1,3) none to_emplace_range [OF range(1) i range(2)]
    by (fastforce simp: chmap_find_emplace [OF ok(2)] intro: map_le_trans)
qed

lemma sizes_range:
  assumes "cache_range inp"
  shows "sizes (map (range_entry inp) [0 ..< block_count inp]) = unat (in_size inp)"
proof -
  let ?d = "replicate (unat (in_size inp)) 0 :: bytes"
  have "sizes (map (range_entry inp) [0 ..< block_count inp]) =
      sum_list (map (length \<circ> piece inp ?d) [0 ..< block_count inp])"
    unfolding sizes_def map_map
    by (intro arg_cong [where f = sum_list] map_cong) (simp_all add: length_piece [OF assms])
  also have "\<dots> = length (concat (map (piece inp ?d) [0 ..< block_count inp]))"
    by (simp add: length_concat comp_def)
  finally show ?thesis by (simp add: concat_pieces)
qed

lemma write_uncached:
  assumes ok: "chmap_ok M" "chmap_ok B" and range: "cache_range inp" "unat (in_size inp) \<le> length data"
    and cap: "unat (in_size inp) \<le> unat (lr_cap (ca_lru c))" "2 * unat (lr_cap (ca_lru c)) < 2 ^ 32"
    and inv: "lru_inv (ca_lru c) es" "tracked M B (ca_map c) es" and none: "chm_find M (ca_map c) (in_uuid inp) = None"
  shows "\<exists>c' rest'. write_to_cache M B inp data c = Some c' \<and> set rest' \<subseteq> set es \<and>
    lru_inv (ca_lru c') (map (range_entry inp) (rev [0 ..< block_count inp]) @ rest') \<and>
    tracked M B (ca_map c') (map (range_entry inp) (rev [0 ..< block_count inp]) @ rest') \<and>
    (\<exists>blocks. chm_find M (ca_map c') (in_uuid inp) = Some blocks \<and>
       (\<forall>i < block_count inp. chm_find B blocks (block_id inp i) = Some (piece inp data i)) \<and>
       (\<forall>b. b \<notin> block_id inp ` {..< block_count inp} \<longrightarrow> chm_find B blocks b = None)) \<and>
    (\<forall>k. fst k \<noteq> in_uuid inp \<longrightarrow> cached M B (ca_map c') k \<in> {None, cached M B (ca_map c) k}) \<and>
    lr_cap (ca_lru c') = lr_cap (ca_lru c) \<and> ca_policy c' = ca_policy c"
proof -
  let ?n = "block_count inp" and ?u = "in_uuid inp" and ?l = "ca_lru c" and ?t = "ca_map c"
  let ?is = "[0 ..< block_count inp]"
  have "sizes (map (range_entry inp) ([] @ ?is)) \<le> unat (lr_cap ?l)" using cap(1) sizes_range [OF range(1)] by simp
  from write_unknown_ok [OF ok range cap(2) _ this, of es ?t "chm_empty B" "ca_block_counter c"]
  obtain blocks ctr l' t' rest' where w:
    "write_unknown M B inp data (map (block_id inp) ?is) (chm_empty B, ca_block_counter c) (?l, ?t) = Some ((blocks, ctr), l', t')"
    "lru_inv l' (map (range_entry inp) (rev ?is) @ rest')" "lr_cap l' = lr_cap ?l" "set rest' \<subseteq> set es"
    "tracked M B t' (map (range_entry inp) (rev ?is) @ rest')" "chm_find M t' ?u = None" "cached M B t' \<subseteq>\<^sub>m cached M B ?t"
    "chm_find B blocks = emplace_all (block_id inp) (piece inp data) ?is (chm_find B (chm_empty B))"
    using inv none by (auto simp: atLeast0LessThan)
  have inj: "inj_on (block_id inp) (set ?is)"
    using block_id_inject [OF range(1)] by (auto simp: inj_on_def)
  have find: "i < ?n \<Longrightarrow> chm_find B blocks (block_id inp i) = Some (piece inp data i)"
    "b \<notin> block_id inp ` {..< ?n} \<Longrightarrow> chm_find B blocks b = None" for i b
    unfolding w(8) using inj
    by (simp_all add: emplace_all_member emplace_all_other chmap_find_empty ok atLeast0LessThan)
  let ?c = "c\<lparr>ca_lru := l', ca_map := chm_emplace M t' ?u blocks, ca_block_counter := ctr\<rparr>"
  have M': "chm_find M (chm_emplace M t' ?u blocks) = (chm_find M t')(?u \<mapsto> blocks)"
    by (simp add: chmap_find_emplace [OF ok(1)] w(6))
  then have cch: "cached M B (chm_emplace M t' ?u blocks) (k, b) = (if k = ?u then chm_find B blocks b else cached M B t' (k, b))" for k b
    by (simp add: cached_def)
  have "tracked M B (ca_map ?c) (map (range_entry inp) (rev ?is) @ rest')"
    unfolding tracked_def
  proof (intro allI impI)
    fix k buf assume k: "cached M B (ca_map ?c) k = Some buf"
    obtain v b where vb: "k = (v, b)" by (cases k)
    show "\<exists>x \<in> set (map (range_entry inp) (rev ?is) @ rest'). ce_key x = k \<and> esize x = length buf"
    proof (cases "v = ?u")
      case True
      with k vb find(2) have "b \<in> block_id inp ` {..< ?n}" by (cases "b \<in> block_id inp ` {..< ?n}") (auto simp: cch)
      with True k vb find(1) obtain i where "i < ?n" "b = block_id inp i" "buf = piece inp data i" by (auto simp: cch)
      then show ?thesis using True vb length_piece [OF range(1) _ range(2)] by (intro bexI [of _ "range_entry inp i"]) auto
    next
      case False
      then show ?thesis using k vb trackedD [OF w(5)] by (simp add: cch)
    qed
  qed
  moreover have "write_to_cache M B inp data c = Some ?c"
    using w(1) none by (simp add: write_to_cache_def get_block_ids_range [OF range(1)])
  moreover have "cached M B (ca_map ?c) k \<in> {None, cached M B (ca_map c) k}" if "fst k \<noteq> ?u" for k
  proof -
    have "cached M B t' k \<in> {None, cached M B (ca_map c) k}"
      using w(7) unfolding map_le_def by (metis domIff insertCI)
    then show ?thesis using that by (cases k) (simp add: cch)
  qed
  ultimately show ?thesis using w find M' by (intro exI [of _ ?c] exI [of _ rest']) auto
qed

lemma read_tracked:
  assumes "chmap_ok M" "chmap_ok B" "chm_find M (ca_map c) (in_uuid inp) = Some blocks"
    and "tracked M B (ca_map c) es" "lru_inv (ca_lru c) es" "2 * unat (lr_cap (ca_lru c)) < 2 ^ 32"
    and "get_block_ids inp = Some ids"
  shows "\<exists>c' es'. read_from_cache M B inp c =
      Some (if \<forall>b \<in> set ids. chm_find B blocks b \<noteq> None
            then Some (concat (map (\<lambda>b. the (chm_find B blocks b)) ids)) else None, c') \<and>
    ca_map c' = ca_map c \<and> lru_inv (ca_lru c') es' \<and> set es' = set es \<and>
    lr_cap (ca_lru c') = lr_cap (ca_lru c) \<and> ca_policy c' = ca_policy c"
proof -
  from read_blocks_tracked [OF assms(1-6), of "ca_policy c" ids "[]"] obtain l' es' where
    "read_blocks M B (ca_policy c) (in_uuid inp) blocks ids [] (ca_lru c, ca_map c) =
      Some (if \<forall>b \<in> set ids. chm_find B blocks b \<noteq> None
            then Some ([] @ concat (map (\<lambda>b. the (chm_find B blocks b)) ids)) else None, l', ca_map c)"
    "lru_inv l' es'" "set es' = set es" "lr_cap l' = lr_cap (ca_lru c)" by blast
  then show ?thesis using assms(3,7) by (auto simp: read_from_cache_def Let_def)
qed

section \<open>Properties\<close>

text \<open>
  C20. A file that enters the cache. When no block of the file is cached and the written range fits into the
  cache, writing the range to the cache is defined, and a read that asks for the same block numbers is
  answered from the cache with the written bytes. Only the block numbers are compared, so a write
  that does not start at a block boundary is later returned for reads at other offsets of its first block.
\<close>

theorem cache_returns_written:
  assumes "chmap_ok M" "chmap_ok B" "cache_range inp" "unat (in_size inp) \<le> length data"
    and "unat (in_size inp) \<le> unat (lr_cap (ca_lru c))" "2 * unat (lr_cap (ca_lru c)) < 2 ^ 32"
    and "lru_inv (ca_lru c) es" "tracked M B (ca_map c) es" "chm_find M (ca_map c) (in_uuid inp) = None"
    and "in_uuid rinp = in_uuid inp" "get_block_ids rinp = get_block_ids inp"
  shows "\<exists>c' c''. write_to_cache M B inp data c = Some c' \<and>
    read_from_cache M B rinp c' = Some (Some (take (unat (in_size inp)) data), c'')"
proof -
  from write_uncached [OF assms(1-9)] obtain c' rest' blocks where c':
    "write_to_cache M B inp data c = Some c'"
    "lru_inv (ca_lru c') (map (range_entry inp) (rev [0 ..< block_count inp]) @ rest')"
    "tracked M B (ca_map c') (map (range_entry inp) (rev [0 ..< block_count inp]) @ rest')"
    "chm_find M (ca_map c') (in_uuid rinp) = Some blocks"
    "\<forall>i < block_count inp. chm_find B blocks (block_id inp i) = Some (piece inp data i)"
    "lr_cap (ca_lru c') = lr_cap (ca_lru c)"
    unfolding assms(10) by blast
  have ids: "get_block_ids rinp = Some (map (block_id inp) [0 ..< block_count inp])"
    using assms(11) get_block_ids_range [OF assms(3)] by simp
  have "map (\<lambda>b. the (chm_find B blocks b)) (map (block_id inp) [0 ..< block_count inp]) =
      map (piece inp data) [0 ..< block_count inp]" using c'(5) by auto
  with read_tracked [OF assms(1,2) c'(4,3,2) _ ids] c' assms(4,6) show ?thesis
    by (auto simp: concat_pieces simp del: map_map)
qed

definition sample_cache :: "(bytes \<times> (u32 \<times> bytes) list) list cache" where
  "sample_cache = cache_new al_chmap 8192 ''LRU''"

lemma sample_cache_ok:
  "lru_inv (ca_lru sample_cache) []" "tracked al_chmap al_chmap (ca_map sample_cache) []"
  "chm_find al_chmap (ca_map sample_cache) u = None" "lr_cap (ca_lru sample_cache) = 8192"
  using lru_new [of 8192]
  by (simp_all add: sample_cache_def cache_new_def tracked_def cached_def al_chmap_def LRUCache_def)

theorem cache_returns_written_witness:
  "\<exists>c' c''. write_to_cache al_chmap al_chmap (sample_input Op_write 4100 3 [7, 8, 9]) [7, 8, 9] sample_cache = Some c' \<and>
     read_from_cache al_chmap al_chmap (sample_input Op_read 4096 3 []) c' = Some (Some [7, 8, 9], c'')"
proof -
  have "get_block_ids (sample_input Op_read 4096 3 []) = get_block_ids (sample_input Op_write 4100 3 [7, 8, 9])"
    by (simp add: get_block_ids_range cache_range_def block_count_def block_id_def sample_input_def in_position_def in_size_def)
  from cache_returns_written [OF al_chmap_ok al_chmap_ok _ _ _ _ sample_cache_ok(1-3) _ this, of "[7, 8, 9]"]
  show ?thesis by (auto simp: sample_cache_ok(4) cache_range_def sample_input_def in_position_def in_size_def)
qed

text \<open>
  Rewriting a cached block. Writing a block that is cached already keeps the old content: \<^verbatim>\<open>emplace\<close>
  does not replace it, so the next read of the block is answered with the old bytes.
\<close>

theorem rewritten_block_is_stale:
  assumes ok: "chmap_ok M" "chmap_ok B" and range: "cache_range inp" "unat (in_size inp) \<le> length data"
    and size: "0 < in_size inp" "unat (in_size inp) \<le> 4096" "unat (in_size inp) \<le> unat (lr_cap (ca_lru c))"
    and cap: "2 * unat (lr_cap (ca_lru c)) < 2 ^ 32"
    and inv: "lru_inv (ca_lru c) es" "tracked M B (ca_map c) es"
    and old: "cached M B (ca_map c) (in_uuid inp, in_position inp div 4096) = Some old" "length old = unat (in_size inp)"
  shows "\<exists>c' c''. write_to_cache M B inp data c = Some c' \<and> read_from_cache M B inp c' = Some (Some old, c'')"
proof -
  let ?u = "in_uuid inp" and ?e = "range_entry inp 0" and ?cap = "unat (lr_cap (ca_lru c))"
  have n: "block_count inp = 1" unfolding block_count_def using size(1,2) by (intro div_nat_eqI) (simp_all add: word_less_nat_alt)
  have id: "block_id inp 0 = in_position inp div 4096" by (simp add: block_id_def)
  have ids: "get_block_ids inp = Some [in_position inp div 4096]" by (simp add: get_block_ids_range [OF range(1)] n id)
  have es: "esize ?e = unat (in_size inp)"
    using block_at_range(3) [OF range(1), of 0] n size by (simp add: esize_def block_entry_def)
  obtain l1 t1 where l1: "lru_set M B None ?e (ca_lru c, ca_map c) = Some (l1, t1)" "lru_inv l1 (touch ?cap ?e es)"
      "lr_cap l1 = lr_cap (ca_lru c)"
      "cached M B t1 = without (ce_key ` (set (others ?e es) - set (touch ?cap ?e es))) (cached M B (ca_map c))"
    using lru_set_spec [OF ok inv(1), of ?e None "ca_map c"] es size(3) cap by auto
  have key: "ce_key ?e = (?u, in_position inp div 4096)" by (simp add: id)
  then have "cached M B t1 (?u, in_position inp div 4096) = Some old"
    unfolding l1(4) using old(1) by (auto simp: without_def set_others)
  then obtain blocks where bl: "chm_find M t1 ?u = Some blocks" "chm_find B blocks (in_position inp div 4096) = Some old"
    by (auto simp: cached_def bind_eq_Some_conv)
  let ?blocks = "chm_emplace B blocks (in_position inp div 4096) (piece inp data 0)"
  let ?t = "chm_write M t1 ?u ?blocks"
  have same: "chm_find B ?blocks = chm_find B blocks" using bl by (simp add: chmap_find_emplace [OF ok(2)])
  have find: "chm_find M ?t = (chm_find M t1)(?u \<mapsto> ?blocks)" using bl by (simp add: chmap_find_write [OF ok(1)])
  then have "cached M B ?t = cached M B t1" using bl same by (auto simp: cached_def)
  moreover have "tracked M B t1 (touch ?cap ?e es)"
    using tracked_touch [OF inv(2) l1(4)] old key es by simp
  ultimately have tr: "tracked M B ?t (touch ?cap ?e es)" by (simp add: tracked_def)
  obtain z where "chm_find M (ca_map c) ?u = Some z" using old(1) by (auto simp: cached_def bind_eq_Some_conv)
  then have "write_to_cache M B inp data c = Some (c\<lparr>ca_lru := l1, ca_map := ?t\<rparr>)"
    using ids l1(1) bl to_emplace_range [OF range(1) _ range(2), of 0] n id
    by (simp add: write_to_cache_def)
  moreover have "\<exists>c''. read_from_cache M B inp (c\<lparr>ca_lru := l1, ca_map := ?t\<rparr>) = Some (Some old, c'')"
    using read_tracked [OF ok, of "c\<lparr>ca_lru := l1, ca_map := ?t\<rparr>" inp ?blocks "touch ?cap ?e es"]
      find tr l1(2,3) cap ids same bl by auto
  ultimately show ?thesis by blast
qed

section \<open>Files that are larger than the cache\<close>

lemma keep_keep: "m \<le> n \<Longrightarrow> keep m (keep n es) = keep m es"
  by (induction n es arbitrary: m rule: keep.induct) auto

lemma keep_strict:
  assumes "n < sizes es"
  shows "\<exists>xs x ys. es = xs @ x # ys \<and> keep n es = xs \<and> n < sizes xs + esize x"
  using assms
proof (induction n es rule: keep.induct)
  case (2 n e es)
  show ?case
  proof (cases "esize e \<le> n")
    case True
    then have "n - esize e < sizes es" using 2 by simp
    with 2(1) [OF True] obtain xs x ys where "es = xs @ x # ys" "keep (n - esize e) es = xs" "n - esize e < sizes xs + esize x"
      by auto
    with True show ?thesis by (intro exI [of _ "e # xs"] exI [of _ x] exI [of _ ys]) auto
  next
    case False
    then show ?thesis by (intro exI [of _ "[]"] exI [of _ e] exI [of _ es]) auto
  qed
qed simp

text \<open>Writing an uncached file into an empty cache: the list keeps the entries of the last blocks, the map gets all blocks.\<close>

lemma write_unknown_empty:
  assumes ok: "chmap_ok M" "chmap_ok B" and range: "cache_range inp" "unat (in_size inp) \<le> length data"
    and "2 * unat (lr_cap l) < 2 ^ 32" "4096 \<le> unat (lr_cap l)"
    and "lru_inv l (keep (unat (lr_cap l)) (map (range_entry inp) (rev done)))"
    and "distinct (done @ is)" "set (done @ is) \<subseteq> {..< block_count inp}" "chm_find M t = Map.empty"
  shows "\<exists>blocks' ctr' l' t'.
    write_unknown M B inp data (map (block_id inp) is) (blocks, ctr) (l, t) = Some ((blocks', ctr'), l', t') \<and>
    lru_inv l' (keep (unat (lr_cap l)) (map (range_entry inp) (rev (done @ is)))) \<and> lr_cap l' = lr_cap l \<and>
    chm_find M t' = Map.empty \<and> chm_find B blocks' = emplace_all (block_id inp) (piece inp data) is (chm_find B blocks)"
  using assms(5-)
proof (induction "is" arbitrary: "done" l t blocks ctr)
  case Nil
  then show ?case by auto
next
  case (Cons i "is")
  let ?e = "range_entry inp i" and ?cap = "unat (lr_cap l)" and ?es = "map (range_entry inp) (rev done)"
  have i: "i < block_count inp" using Cons.prems by auto
  have le: "esize ?e \<le> ?cap" using block_at_range(3) [OF range(1) i] Cons.prems(2) by (simp add: esize_def block_entry_def)
  have "ce_key ?e \<notin> ce_key ` set (keep ?cap ?es)"
  proof
    assume "ce_key ?e \<in> ce_key ` set (keep ?cap ?es)"
    then obtain j where "j \<in> set done" "block_id inp i = block_id inp j" using set_keep by fastforce
    moreover from this have "j < block_count inp" "i \<noteq> j" using Cons.prems(4,5) by auto
    ultimately show False using block_id_inject [OF range(1) i] by blast
  qed
  then have touch: "touch ?cap ?e (keep ?cap ?es) = keep ?cap (map (range_entry inp) (rev (done @ [i])))"
    using le by (simp add: touch_def others_id keep_keep)
  obtain l1 t1 where l1: "lru_set M B None ?e (l, t) = Some (l1, t1)"
      "lru_inv l1 (keep (unat (lr_cap l1)) (map (range_entry inp) (rev (done @ [i]))))" "lr_cap l1 = lr_cap l" "no_new_files M t t1"
    using lru_set_spec [OF ok Cons.prems(3), of ?e None t] le Cons.prems(1) touch by auto
  have none: "chm_find M t1 = Map.empty" using l1(4) Cons.prems(6) by (auto simp: no_new_files_def)
  have idx: "distinct ((done @ [i]) @ is)" "set ((done @ [i]) @ is) \<subseteq> {..< block_count inp}"
    using Cons.prems(4,5) by simp_all
  show ?case
    using Cons.IH [OF _ _ l1(2) idx none, of "chm_emplace B blocks (block_id inp i) (piece inp data i)" "ctr + copy_size inp (block_id inp i)"]
      Cons.prems(1,2) l1(1,3) to_emplace_range [OF range(1) i range(2)]
    by (auto simp: chmap_find_emplace [OF ok(2)])
qed

text \<open>
  An eviction that meets an entry of the file the reader has locked does not return.
\<close>

lemma lru_set_self_lock:
  assumes "lru_inv l (xs @ [x])" "ce_key e \<notin> ce_key ` set (xs @ [x])" "ce_file_key x = u"
    and "unat (lr_cap l) < sizes (xs @ [x]) + esize e" "sizes (xs @ [x]) + esize e < 2 ^ 32" "chm_find M t u \<noteq> None"
  shows "lru_set M B (Some u) e (l, t) = None"
proof -
  have rep: "lru_rep l (xs @ [x])" using assms(1) by (simp add: lru_inv_def)
  then have cur: "lr_cur_size l = of_nat (sizes (xs @ [x]))" by (auto simp: lru_rep_def)
  note un = lru_unknown [OF assms(1,2)]
  have "lr_cap l < lr_cur_size l + ce_data_size e"
    unfolding cur using unat_room [of "sizes (xs @ [x])" "ce_data_size e" "lr_cap l"] assms(4,5) unfolding esize_def by blast
  moreover from remove_entry [OF rep] obtain p nd where "get_prev (lr_tail l) l = Some p" "lr_heap l p = Some nd" "nd_key nd = x"
    by auto
  moreover from this have "delete_entry_from_cache M B (Some u) (nd_key nd) (l, t) = None"
    using assms(3,6) by (auto simp: delete_entry_from_cache_def split: option.splits)
  ultimately have "evict_loop M B (Some u) e (l, t) = None" by (subst evict_loop.simps) simp
  then show ?thesis using un by (simp add: lru_set_def)
qed

text \<open>When the range is larger than the cache, the entry of the first block is not kept.\<close>

lemma oversized_order:
  assumes range: "cache_range inp" and cap: "4096 \<le> cap" "cap < unat (in_size inp)"
  shows "\<exists>xs z. keep cap (map (range_entry inp) (rev [0 ..< block_count inp])) = xs @ [z] \<and> ce_file_key z = in_uuid inp \<and>
    ce_key (range_entry inp 0) \<notin> ce_key ` set (xs @ [z]) \<and> cap < sizes (xs @ [z]) + esize (range_entry inp 0) \<and>
    esize (range_entry inp 0) = 4096"
proof -
  let ?L = "map (range_entry inp) (rev [0 ..< block_count inp])"
  have n0: "0 < block_count inp" using cap by (simp add: block_count_def div_greater_zero_iff)
  have e0: "esize (range_entry inp 0) = 4096"
    using block_at_range(3) [OF range n0] cap by (simp add: esize_def block_entry_def)
  have small: "esize y \<le> 4096" "ce_file_key y = in_uuid inp" if "y \<in> set ?L" for y
    using that block_at_range(3) [OF range] by (auto simp: esize_def block_entry_def)
  have "cap < sizes ?L" using sizes_range [OF range] cap(2) by (simp add: sizes_def rev_map [symmetric] sum_list_rev)
  then obtain xs x ys where sp: "?L = xs @ x # ys" "keep cap ?L = xs" "cap < sizes xs + esize x"
    using keep_strict by blast
  have "xs \<noteq> []"
  proof
    assume "xs = []"
    with sp have "keep cap (x # ys) = []" by simp
    then show False using small(1) [of x] sp(1) cap(1) by (auto split: if_splits)
  qed
  then obtain xs' z where xs: "xs = xs' @ [z]" by (metis rev_exhaust)
  have "last ?L = range_entry inp 0" using n0 by (simp add: last_map last_rev hd_map)
  then have "range_entry inp 0 \<in> set (x # ys)" unfolding sp(1) by (metis last_appendR last_in_set list.distinct(1))
  moreover have "inj_on (block_id inp) (set [0 ..< block_count inp])"
    using block_id_inject [OF range] by (auto simp: inj_on_def)
  then have "distinct (map ce_key ?L)" by (simp add: distinct_map comp_def inj_on_def rev_map [symmetric])
  then have "ce_key ` set xs \<inter> ce_key ` set (x # ys) = {}" unfolding sp(1) map_append distinct_append by simp
  ultimately have "ce_key (range_entry inp 0) \<notin> ce_key ` set (xs' @ [z])" unfolding xs by blast
  then show ?thesis using sp small(1) [of x] small(2) [of z] xs e0 by auto
qed

text \<open>
  Files larger than the cache. Writing a range that is larger than the cache into an empty cache stores
  all its blocks, although the list keeps only the entries that fit. A later read of the same
  blocks finds the first block without an entry, has to evict an entry of the file it reads, and waits for
  the lock it holds itself: the read does not return.
\<close>

theorem oversized_file_blocks_reader:
  assumes ok: "chmap_ok M" "chmap_ok B" and range: "cache_range inp" "unat (in_size inp) \<le> length data"
    and cap: "4096 \<le> unat cap" "unat cap < unat (in_size inp)" "2 * unat cap + 4096 < 2 ^ 32" and policy: "policy \<noteq> ''FIFO''"
    and same: "in_uuid rinp = in_uuid inp" "get_block_ids rinp = get_block_ids inp"
  shows "\<exists>c. write_to_cache M B inp data (cache_new M cap policy) = Some c \<and>
    (\<forall>i < block_count inp. cached M B (ca_map c) (in_uuid inp, block_id inp i) = Some (piece inp data i)) \<and>
    read_from_cache M B rinp c = None"
proof -
  let ?u = "in_uuid inp" and ?is = "[0 ..< block_count inp]" and ?L = "map (range_entry inp) (rev [0 ..< block_count inp])"
  let ?c = "cache_new M cap policy"
  have new: "ca_lru ?c = LRUCache cap" "ca_map ?c = chm_empty M" "lr_cap (LRUCache cap) = cap" "ca_policy ?c = policy"
    by (simp_all add: cache_new_def LRUCache_def)
  have "2 * unat (lr_cap (LRUCache cap)) < 2 ^ 32" using cap(3) new(3) by simp
  then obtain blocks ctr l t where w:
    "write_unknown M B inp data (map (block_id inp) ?is) (chm_empty B, ca_block_counter ?c) (LRUCache cap, chm_empty M) =
      Some ((blocks, ctr), l, t)" "lru_inv l (keep (unat cap) ?L)" "lr_cap l = cap" "chm_find M t = Map.empty"
    "chm_find B blocks = emplace_all (block_id inp) (piece inp data) ?is (chm_find B (chm_empty B))"
    using write_unknown_empty [OF ok range, of "LRUCache cap" "[]" ?is "chm_empty M" "chm_empty B" "ca_block_counter ?c"]
      cap(1) new(3) lru_new [of cap] chmap_find_empty [OF ok(1)] by (auto simp: fun_eq_iff atLeast0LessThan)
  let ?t = "chm_emplace M t ?u blocks"
  have tu: "chm_find M ?t ?u = Some blocks" using w(4) by (simp add: chmap_find_emplace [OF ok(1)])
  have inj: "inj_on (block_id inp) (set ?is)" using block_id_inject [OF range(1)] by (auto simp: inj_on_def)
  have find: "chm_find B blocks (block_id inp i) = Some (piece inp data i)" if "i < block_count inp" for i
    unfolding w(5) using inj that by (simp add: emplace_all_member chmap_find_empty ok)
  have wr: "write_to_cache M B inp data ?c = Some (?c\<lparr>ca_lru := l, ca_map := ?t, ca_block_counter := ctr\<rparr>)"
    using w(1) new by (simp add: write_to_cache_def get_block_ids_range [OF range(1)] chmap_find_empty [OF ok(1)])
  have n0: "0 < block_count inp" using cap by (simp add: block_count_def div_greater_zero_iff)
  obtain xs z where xs: "keep (unat cap) ?L = xs @ [z]" "ce_file_key z = ?u"
      "ce_key (range_entry inp 0) \<notin> ce_key ` set (xs @ [z])" "unat cap < sizes (xs @ [z]) + esize (range_entry inp 0)"
      "esize (range_entry inp 0) = 4096"
    using oversized_order [OF range(1) cap(1,2)] by blast
  have "lru_set M B (Some ?u) (range_entry inp 0) (l, ?t) = None"
  proof (rule lru_set_self_lock)
    show "lru_inv l (xs @ [z])" using w(2) xs(1) by simp
    show "sizes (xs @ [z]) + esize (range_entry inp 0) < 2 ^ 32"
      using lru_inv_sizes [OF w(2)] w(3) xs(1,5) cap(3) by simp
  qed (use xs w(3) tu in simp_all)
  moreover have "\<lparr>ce_file_key = ?u, ce_block_id = block_id inp 0, ce_data_size = of_nat (length (piece inp data 0))\<rparr> = range_entry inp 0"
    unfolding length_piece [OF range(1) n0 range(2)] by (simp add: esize_def block_entry_def)
  moreover have "get_block_ids rinp = Some (block_id inp 0 # map (block_id inp) [1 ..< block_count inp])"
    using same(2) n0 by (simp add: get_block_ids_range [OF range(1)] upt_rec [of 0])
  ultimately have "read_from_cache M B rinp (?c\<lparr>ca_lru := l, ca_map := ?t, ca_block_counter := ctr\<rparr>) = None"
    using tu find [OF n0] policy new(4) same(1) by (simp add: read_from_cache_def)
  then show ?thesis using wr find tu by (auto simp: cached_def)
qed

theorem oversized_file_blocks_reader_witness:
  "\<exists>c. write_to_cache al_chmap al_chmap (sample_input Op_write 0 5000 []) (replicate 5000 7)
       (cache_new al_chmap 4096 ''LRU'' :: (bytes \<times> (u32 \<times> bytes) list) list cache) = Some c \<and>
     read_from_cache al_chmap al_chmap (sample_input Op_read 0 5000 []) c = None"
proof -
  have "get_block_ids (sample_input Op_read 0 5000 []) = get_block_ids (sample_input Op_write 0 5000 [])"
    by (simp add: get_block_ids_def sample_input_def in_position_def in_size_def)
  from oversized_file_blocks_reader [OF al_chmap_ok al_chmap_ok _ _ _ _ _ _ _ this, of "replicate 5000 7" 4096 "''LRU''"]
  show ?thesis by (auto simp: cache_range_def sample_input_def in_position_def in_size_def)
qed

theorem rewritten_block_is_stale_witness:
  "\<exists>c c' c''. write_to_cache al_chmap al_chmap (sample_input Op_write 0 3 []) [1, 2, 3] sample_cache = Some c \<and>
     write_to_cache al_chmap al_chmap (sample_input Op_write 0 3 []) [7, 8, 9] c = Some c' \<and>
     read_from_cache al_chmap al_chmap (sample_input Op_write 0 3 []) c' = Some (Some [1, 2, 3], c'')"
proof -
  let ?i = "sample_input Op_write 0 3 []"
  have i: "in_size ?i = 3" "in_position ?i = 0" "cache_range ?i" "block_count ?i = 1" "block_id ?i 0 = 0"
    by (simp_all add: sample_input_def in_position_def in_size_def cache_range_def block_count_def block_id_def)
  from write_uncached [OF al_chmap_ok al_chmap_ok i(3) _ _ _ sample_cache_ok(1-3), of "[1, 2, 3]"]
  obtain c rest blocks where c: "write_to_cache al_chmap al_chmap ?i [1, 2, 3] sample_cache = Some c"
    "lru_inv (ca_lru c) (map (range_entry ?i) (rev [0 ..< block_count ?i]) @ rest)"
    "tracked al_chmap al_chmap (ca_map c) (map (range_entry ?i) (rev [0 ..< block_count ?i]) @ rest)"
    "chm_find al_chmap (ca_map c) (in_uuid ?i) = Some blocks"
    "chm_find al_chmap blocks 0 = Some (piece ?i [1, 2, 3] 0)" "lr_cap (ca_lru c) = 8192"
    using i by (auto simp: sample_cache_ok(4))
  have "cached al_chmap al_chmap (ca_map c) (in_uuid ?i, in_position ?i div 4096) = Some [1, 2, 3]"
    using c(4,5) i by (simp add: cached_def piece_def slice_def)
  from rewritten_block_is_stale [OF al_chmap_ok al_chmap_ok i(3) _ _ _ _ _ c(2,3) this, of "[7, 8, 9]"] c(1,6) i
  show ?thesis by auto
qed

section \<open>The transfer table\<close>

lemma table_lru_list:
  assumes "linked l (lr_head l # xs)" "distinct (lr_head l # xs)" "set xs \<subseteq> dom (lr_heap l)"
  shows "table_lru l (last (lr_head l # xs)) = Some (concat (map table_entry (entries l (rev xs))))"
  using assms
proof (induction xs rule: rev_induct)
  case Nil
  then show ?case by (simp add: table_lru.simps)
next
  case (snoc p xs)
  obtain n where n: "lr_heap l p = Some n" using snoc.prems(3) by auto
  have lk: "linked l (butlast (lr_head l # xs) @ [last (lr_head l # xs), p])"
    using snoc.prems(1) by (metis append.assoc append_Cons append_Nil append_butlast_last_id list.distinct(1))
  then have "get_prev p l = Some (last (lr_head l # xs))" and "linked l (lr_head l # xs)"
    unfolding linked_last by (auto simp: append_butlast_last_id simp del: butlast.simps last.simps)
  moreover have "lr_head l \<noteq> p" "distinct (lr_head l # xs)" "set xs \<subseteq> dom (lr_heap l)" using snoc.prems(2,3) by auto
  moreover have "entry_at l p = nd_key n" by (simp add: entry_at_def n)
  ultimately show ?case using n snoc.IH by (subst table_lru.simps) (simp add: get_prev_def)
qed

lemma get_tables_ok:
  assumes "lru_inv (ca_lru c) es"
  shows "get_tables M B c = Some (table_files M B (ca_map c) @ concat (map table_entry (rev es)) @
    mem32 (ucast (ca_hits c)) @ mem32 (ucast (lr_evictions (ca_lru c))))"
proof -
  let ?l = "ca_lru c"
  obtain ps where ps: "list_ok ?l ps" "entries ?l ps = es" using assms by (auto simp: lru_inv_def lru_rep_def)
  let ?h = "lr_head ?l"
  have "linked ?l (butlast (?h # ps) @ [last (?h # ps), lr_tail ?l])"
    using ps(1) unfolding list_ok_def by (metis append.assoc append_Cons append_Nil append_butlast_last_id list.distinct(1))
  then have "get_prev (lr_tail ?l) ?l = Some (last (?h # ps))" "linked ?l (?h # ps)"
    unfolding linked_last by (auto simp: append_butlast_last_id simp del: butlast.simps last.simps)
  moreover have "set ps \<subseteq> dom (lr_heap ?l)" "distinct (?h # ps)" using ps(1) by (auto simp: list_ok_def)
  ultimately have "get_prev (lr_tail ?l) ?l = Some (last (?h # ps))"
    "table_lru ?l (last (?h # ps)) = Some (concat (map table_entry (rev es)))"
    using table_lru_list [of ?l ps] ps(2) by (auto simp: rev_map)
  then show ?thesis by (simp add: get_tables_def)
qed

text \<open>Parsing the blocks of one file; the separator before an item is skipped whatever it is.\<close>

lemma build_items_blocks:
  assumes "bs \<noteq> []" "x = 58 \<or> x = 44"
  shows "build_items M B held key (x # table_blocks bs @ 32 # rest) lt reqs =
    Some (32 # rest, lt, reqs @ map (\<lambda>(b, buf). (b, of_nat (length buf))) bs)"
  using assms
proof (induction bs arbitrary: x reqs)
  case (Cons b bs)
  obtain i buf where b: "b = (i, buf)" by (cases b)
  show ?case
  proof (cases "bs = []")
    case True
    then show ?thesis using Cons.prems(2) b by (auto simp: Let_def)
  next
    case False
    then show ?thesis using Cons.IH [OF False, of 44] Cons.prems(2) b by (auto simp: Let_def)
  qed
qed simp

definition table_reqs :: "'b block_map \<Rightarrow> (bytes \<times> 'b) list \<Rightarrow> (bytes \<times> u32 \<times> u32) list" where
  "table_reqs B fs = concat (map (\<lambda>(k, blocks). map (\<lambda>(b, buf). (k, b, of_nat (length buf))) (chm_range B blocks)) fs)"

definition add_files :: "('b, 't) file_map \<Rightarrow> 'b block_map \<Rightarrow> bytes list \<Rightarrow> 't \<Rightarrow> 't" where
  "add_files M B ks t = foldl (\<lambda>t k. if chm_find M t k \<noteq> None then t else chm_emplace M t k (chm_empty B)) t ks"

lemma build_loop_files:
  assumes "\<forall>(k, blocks) \<in> set fs. length k = 32 \<and> chm_range B blocks \<noteq> []"
  shows "build_loop M B (concat (map (\<lambda>(k, blocks). k @ [58] @ table_blocks (chm_range B blocks) @ [32]) fs) @ T) (l, t) reqs =
    build_loop M B T (l, add_files M B (map fst fs) t) (reqs @ table_reqs B fs)"
  using assms
proof (induction fs arbitrary: t reqs)
  case Nil
  then show ?case by (simp add: table_reqs_def add_files_def)
next
  case (Cons f fs)
  obtain k blocks where f: "f = (k, blocks)" by (cases f)
  have k: "length k = 32" "chm_range B blocks \<noteq> []" using Cons.prems f by auto
  show ?case
    using k Cons.IH Cons.prems
    by (subst build_loop.simps)
      (simp add: f Let_def build_items_blocks table_reqs_def add_files_def comp_def case_prod_unfold del: build_items.simps)
qed

lemma lru_set_new_fits:
  assumes "chmap_ok M" "chmap_ok B" "lru_inv l es" "2 * unat (lr_cap l) < 2 ^ 32"
    and "ce_key e \<notin> ce_key ` set es" "esize e + sizes es \<le> unat (lr_cap l)"
  shows "\<exists>l'. lru_set M B held e (l, t) = Some (l', t) \<and> lru_inv l' (e # es) \<and> lr_cap l' = lr_cap l"
proof -
  have "touch (unat (lr_cap l)) e es = e # es" using assms(5,6) by (simp add: touch_def others_id keep_fits)
  with lru_set_spec [OF assms(1-3), of e held t] assms(4-6) show ?thesis by (auto simp: others_id)
qed

lemma build_loop_entries:
  assumes "chmap_ok M" "chmap_ok B" "\<forall>e \<in> set es. length (ce_file_key e) = 32"
    and "lru_inv l fs" "2 * unat (lr_cap l) < 2 ^ 32" "distinct (map ce_key (rev es @ fs))" "sizes (rev es @ fs) \<le> unat (lr_cap l)"
  shows "\<exists>l'. build_loop M B (concat (map table_entry es)) (l, t) reqs = Some ((l', add_files M B (map ce_file_key es) t), reqs) \<and>
    lru_inv l' (rev es @ fs) \<and> lr_cap l' = lr_cap l"
  using assms(3-)
proof (induction es arbitrary: l fs t)
  case Nil
  then show ?case by (simp add: build_loop.simps add_files_def)
next
  case (Cons e es)
  let ?k = "ce_file_key e" and ?t = "add_files M B [ce_file_key e] t"
  let ?held = "if chm_find M t ?k \<noteq> None then Some ?k else None"
  have "ce_key e \<notin> ce_key ` set fs" using Cons.prems(4) by auto
  moreover have "esize e + sizes fs \<le> unat (lr_cap l)" using Cons.prems(5) by simp
  ultimately obtain l1 where l1: "lru_set M B ?held e (l, ?t) = Some (l1, ?t)" "lru_inv l1 (e # fs)" "lr_cap l1 = lr_cap l"
    using lru_set_new_fits [OF assms(1,2) Cons.prems(2,3)] by blast
  have eta: "\<lparr>ce_file_key = ce_file_key e, ce_block_id = ce_block_id e, ce_data_size = ce_data_size e\<rparr> = e" by simp
  have "build_loop M B (concat (map table_entry (e # es))) (l, t) reqs =
      build_loop M B (concat (map table_entry es)) (l1, ?t) reqs"
    using l1(1) Cons.prems(1)
    by (subst build_loop.simps) (auto simp: table_entry_def add_files_def Let_def eta split: if_splits)
  with Cons.IH [of l1 "e # fs" ?t] Cons.prems l1 show ?case by (auto simp: add_files_def)
qed

lemma add_files_find:
  assumes "chmap_ok M"
  shows "chm_find M (add_files M B ks t) k =
    (if chm_find M t k = None \<and> k \<in> set ks then Some (chm_empty B) else chm_find M t k)"
proof (induction ks arbitrary: t)
  case (Cons x ks)
  show ?case using Cons [of "if chm_find M t x \<noteq> None then t else chm_emplace M t x (chm_empty B)"]
    by (auto simp: add_files_def chmap_find_emplace [OF assms])
qed (simp add: add_files_def)



end
