(* ===== verification/Proxy_Command.thy ===== *)
theory Proxy_Command
  imports File_Cache
begin

text \<open>
  \<^verbatim>\<open>functions/datafunction/proxy-command.hpp\<close> and \<^verbatim>\<open>tcp-server.hpp\<close>: a data function as seen from the proxy
  and from directly connected clients. A handler is a function from the state and a packet to the new
  state and what it starts: packets to write, jobs to post on the strand of a file,
  connections to open. The storage behind \<^verbatim>\<open>datastorage_conf_\<close> is a parameter; a call of
  \<^verbatim>\<open>start_perform\<close> is an action, and its callback a definition of its own.
\<close>

section \<open>Serving a request through the cache\<close>

datatype storage_action = Reply bytes | Perform_write | Perform_read | Perform_metadata | No_action

definition is_write :: "jinput \<Rightarrow> bool" where
  "is_write inp \<longleftrightarrow> rq_operation (in_request inp) = operation_val Op_write"

definition start_storage_perform ::
  "('b, 't) file_map \<Rightarrow> 'b block_map \<Rightarrow> jinput \<Rightarrow> 't cache \<Rightarrow> (storage_action \<times> 't cache) option" where
  "start_storage_perform M B inp c =
     (case type_of_byte (rq_type (in_request inp)) of
        Some T_file \<Rightarrow>
          if is_write inp then Some (Perform_write, c)
          else do {
            (cached_file, c) \<leftarrow> read_from_cache M B inp c;
            Some (case cached_file of Some buf \<Rightarrow> (Reply buf, c) | None \<Rightarrow> (Perform_read, c))
          }
      | Some T_metadata \<Rightarrow> Some (Perform_metadata, c)
      | _ \<Rightarrow> Some (No_action, c))"

text \<open>
  The callbacks of the storage call the continuation with the answer and then write to the cache: for a write
  the data of the request, whatever the answer was, for a read the answer.
\<close>

definition on_write_done ::
  "('b, 't) file_map \<Rightarrow> 'b block_map \<Rightarrow> bool \<Rightarrow> jinput \<Rightarrow> bytes \<Rightarrow> 't cache \<Rightarrow> (bytes \<times> 't cache) option" where
  "on_write_done M B enable_cache inp buf c =
     map_option (\<lambda>c'. (buf, c')) (if enable_cache then write_to_cache M B inp (in_data inp) c else Some c)"

definition on_read_done ::
  "('b, 't) file_map \<Rightarrow> 'b block_map \<Rightarrow> bool \<Rightarrow> jinput \<Rightarrow> bytes \<Rightarrow> 't cache \<Rightarrow> (bytes \<times> 't cache) option" where
  "on_read_done M B enable_cache inp buf c =
     map_option (\<lambda>c'. (buf, c')) (if enable_cache then write_to_cache M B inp buf c else Some c)"

text \<open>
  \<open>perform_request\<close> puts the parts together for a storage that answers each call before the next
  request is taken. \<open>storage\<close> and \<open>metadata\<close> are \<^verbatim>\<open>start_perform\<close> and \<^verbatim>\<open>start_perform_metadata\<close> with the
  answer they pass to the callback; \<open>None\<close> in the reply is a request that is never answered.
\<close>

definition perform_request ::
  "('b, 't) file_map \<Rightarrow> 'b block_map \<Rightarrow> ('s \<Rightarrow> jinput \<Rightarrow> 's \<times> bytes) \<Rightarrow> ('s \<Rightarrow> jinput \<Rightarrow> 's \<times> bytes) \<Rightarrow>
     bool \<Rightarrow> jinput \<Rightarrow> 's \<times> 't cache \<Rightarrow> (bytes option \<times> 's \<times> 't cache) option" where
  "perform_request M B storage metadata enable_cache inp = (\<lambda>(s, c). do {
     (act, c) \<leftarrow> start_storage_perform M B inp c;
     case act of
       Reply buf \<Rightarrow> Some (Some buf, s, c)
     | Perform_write \<Rightarrow> let (s', buf) = storage s inp in
         map_option (\<lambda>(r, c'). (Some r, s', c')) (on_write_done M B enable_cache inp buf c)
     | Perform_read \<Rightarrow> let (s', buf) = storage s inp in
         map_option (\<lambda>(r, c'). (Some r, s', c')) (on_read_done M B enable_cache inp buf c)
     | Perform_metadata \<Rightarrow> let (s', buf) = metadata s inp in Some (Some buf, s', c)
     | No_action \<Rightarrow> Some (None, s, c)
   })"

fun perform_all ::
  "('b, 't) file_map \<Rightarrow> 'b block_map \<Rightarrow> ('s \<Rightarrow> jinput \<Rightarrow> 's \<times> bytes) \<Rightarrow> ('s \<Rightarrow> jinput \<Rightarrow> 's \<times> bytes) \<Rightarrow>
     bool \<Rightarrow> jinput list \<Rightarrow> 's \<times> 't cache \<Rightarrow> (bytes option list \<times> 's \<times> 't cache) option" where
  "perform_all M B storage metadata enable_cache [] sc = Some ([], sc)"
| "perform_all M B storage metadata enable_cache (inp # inps) sc = do {
     (r, sc) \<leftarrow> perform_request M B storage metadata enable_cache inp sc;
     (rs, sc) \<leftarrow> perform_all M B storage metadata enable_cache inps sc;
     Some (r # rs, sc)
   }"

text \<open>The synchronous variant writes to the cache before the storage is asked, and always.\<close>

definition storage_perform ::
  "('b, 't) file_map \<Rightarrow> 'b block_map \<Rightarrow> ('s \<Rightarrow> jinput \<Rightarrow> 's \<times> bytes) \<Rightarrow>
     jinput \<Rightarrow> 's \<times> 't cache \<Rightarrow> (bytes \<times> 's \<times> 't cache) option" where
  "storage_perform M B perform inp = (\<lambda>(s, c).
     case type_of_byte (rq_type (in_request inp)) of
       Some T_file \<Rightarrow>
         if is_write inp then
           if length (in_data inp) < unat (in_size inp) then None
           else do {
             c \<leftarrow> write_to_cache M B inp (take (unat (in_size inp)) (in_data inp)) c;
             let (s', buf) = perform s inp;
             Some (buf, s', c)
           }
         else do {
           (cached_file, c) \<leftarrow> read_from_cache M B inp c;
           case cached_file of
             Some buf \<Rightarrow> Some (buf, s, c)
           | None \<Rightarrow> do {
               let (s', data) = perform s inp;
               c \<leftarrow> write_to_cache M B inp data c;
               Some (data, s', c)
             }
         }
     | Some T_metadata \<Rightarrow> let (s', buf) = perform s inp in Some (buf, s', c)
     | _ \<Rightarrow> Some ([], s, c))"

section \<open>A cache that agrees with the storage\<close>

text \<open>
  \<open>F\<close> gives the bytes of every file in the storage. While the storage does not change and requests are
  aligned to blocks, the cache holds whole blocks that agree with \<open>F\<close>.
\<close>

definition file_block :: "(bytes \<Rightarrow> nat \<Rightarrow> u8) \<Rightarrow> bytes \<Rightarrow> u32 \<Rightarrow> bytes" where
  "file_block F u b = map (F u) [unat b * 4096 ..< unat b * 4096 + 4096]"

definition file_range :: "(bytes \<Rightarrow> nat \<Rightarrow> u8) \<Rightarrow> jinput \<Rightarrow> bytes" where
  "file_range F inp = map (F (in_uuid inp)) [unat (in_position inp) ..< unat (in_position inp) + unat (in_size inp)]"

definition aligned :: "u32 \<Rightarrow> jinput \<Rightarrow> bool" where
  "aligned cap inp \<longleftrightarrow> cache_range inp \<and> in_position inp mod 4096 = 0 \<and> in_size inp mod 4096 = 0 \<and> in_size inp \<le> cap"

definition coherent ::
  "(bytes \<Rightarrow> nat \<Rightarrow> u8) \<Rightarrow> ('b, 't) file_map \<Rightarrow> 'b block_map \<Rightarrow> u32 \<Rightarrow> lru \<Rightarrow> 't \<Rightarrow> cache_entry list \<Rightarrow> bool" where
  "coherent F M B cap l t es \<longleftrightarrow> lru_inv l es \<and> lr_cap l = cap \<and> tracked M B t es \<and> (\<forall>x \<in> set es. esize x = 4096) \<and>
     (\<forall>u b buf. cached M B t (u, b) = Some buf \<longrightarrow> buf = file_block F u b)"

lemma length_file_block [simp]: "length (file_block F u b) = 4096"
  by (simp add: file_block_def)

lemma aligned_block:
  assumes "aligned cap inp" "i < block_count inp"
  shows "esize (range_entry inp i) = 4096" "piece inp (file_range F inp) i = file_block F (in_uuid inp) (block_id inp i)"
proof -
  have al: "cache_range inp" "unat (in_position inp) mod 4096 = 0" "unat (in_size inp) mod 4096 = 0"
    using assms(1) by (auto simp: aligned_def word_unat_eq_iff unat_mod)
  note b = block_at_range [OF al(1) assms(2)]
  have "i * 4096 < unat (in_size inp)" using assms(2) by (rule block_count_le)
  then have fit: "(i + 1) * 4096 \<le> unat (in_size inp)" using al(3) by (metis add.commute dvd_imp_mod_0 mod_0_imp_dvd
        dvd_def mult.commute mult_less_cancel2 mult_le_mono1 Suc_eq_plus1 Suc_leI)
  then show "esize (range_entry inp i) = 4096" using b(3) by (simp add: esize_def block_entry_def)
  have "unat (in_position inp) div 4096 * 4096 = unat (in_position inp)" using al(2) by (simp add: mod_0_imp_dvd)
  then show "piece inp (file_range F inp) i = file_block F (in_uuid inp) (block_id inp i)"
    using fit b(1) by (simp add: piece_def file_range_def file_block_def slice_def drop_map take_map add_mult_distrib)
qed

lemma coherent_set:
  assumes ok: "chmap_ok M" "chmap_ok B" and coh: "coherent F M B cap l t es" and cap: "4096 \<le> unat cap" "2 * unat cap < 2 ^ 32"
    and e: "esize e = 4096"
  shows "\<exists>l' t' es'. lru_set M B None e (l, t) = Some (l', t') \<and> coherent F M B cap l' t' es' \<and> e \<in> set es'"
proof -
  have c: "lru_inv l es" "lr_cap l = cap" "tracked M B t es" "\<forall>x \<in> set es. esize x = 4096"
    "\<And>u b buf. cached M B t (u, b) = Some buf \<Longrightarrow> buf = file_block F u b" using coh by (auto simp: coherent_def)
  obtain l' t' where l': "lru_set M B None e (l, t) = Some (l', t')" "lru_inv l' (touch (unat cap) e es)" "lr_cap l' = cap"
      "cached M B t' = without (ce_key ` (set (others e es) - set (touch (unat cap) e es))) (cached M B t)"
    using lru_set_spec [OF ok c(1), of e None t] c(2) cap e by auto
  have "length buf = 4096" if "cached M B t k = Some buf" for k buf
    using c(5) [of "fst k" "snd k" buf] that by simp
  then have "tracked M B t' (touch (unat cap) e es)" using tracked_touch [OF c(3) l'(4)] e by simp
  moreover have "\<forall>x \<in> set (touch (unat cap) e es). esize x = 4096"
    using c(4) e set_keep [of "unat cap - esize e" "others e es"] by (auto simp: touch_def set_others)
  moreover have "cached M B t' (u, b) = Some buf \<Longrightarrow> buf = file_block F u b" for u b buf
    unfolding l'(4) using c(5) by (auto simp: without_def split: if_splits)
  ultimately have "coherent F M B cap l' t' (touch (unat cap) e es)" using l'(2,3) unfolding coherent_def by blast
  then show ?thesis using l'(1) by (intro exI [of _ l'] exI [of _ t'] exI [of _ "touch (unat cap) e es"]) (simp add: touch_def)
qed

lemma coherent_emplace:
  assumes ok: "chmap_ok M" "chmap_ok B" and coh: "coherent F M B cap l t es" and e: "e \<in> set es" "ce_key e = (u, b)"
    and "chm_find M t u = Some blocks"
  shows "coherent F M B cap l (chm_write M t u (chm_emplace B blocks b (file_block F u b))) es"
proof -
  let ?t = "chm_write M t u (chm_emplace B blocks b (file_block F u b))"
  have vd: "cached M B ?t (v, d) = (if (v, d) = (u, b) \<and> cached M B t (v, d) = None then Some (file_block F u b) else cached M B t (v, d))" for v d
    using assms(6) by (auto simp: cached_def chmap_find_write [OF ok(1)] chmap_find_emplace [OF ok(2)])
  have c: "cached M B ?t k = (if k = (u, b) \<and> cached M B t k = None then Some (file_block F u b) else cached M B t k)" for k
    using vd [of "fst k" "snd k"] by (simp only: prod.collapse)
  have len: "length (file_block F u b) = esize e" using coh e by (simp add: coherent_def file_block_def)
  then show ?thesis using coh e unfolding coherent_def tracked_def c by (auto split: if_splits)
qed

lemma write_known_coherent:
  assumes ok: "chmap_ok M" "chmap_ok B" and al: "aligned cap inp" and cap: "4096 \<le> unat cap" "2 * unat cap < 2 ^ 32"
    and "coherent F M B cap l t es" "set is \<subseteq> {..< block_count inp}"
  shows "\<exists>l' t' es'. write_known M B inp (file_range F inp) (map (block_id inp) is) (l, t) = Some (l', t') \<and> coherent F M B cap l' t' es'"
  using assms(6-)
proof (induction "is" arbitrary: l t es)
  case (Cons i "is")
  let ?u = "in_uuid inp"
  have i: "i < block_count inp" using Cons.prems by simp
  have range: "cache_range inp" "unat (in_size inp) \<le> length (file_range F inp)" using al by (simp_all add: aligned_def file_range_def)
  obtain l1 t1 es1 where s: "lru_set M B None (range_entry inp i) (l, t) = Some (l1, t1)" "coherent F M B cap l1 t1 es1"
      "range_entry inp i \<in> set es1"
    using coherent_set [OF ok Cons.prems(1) cap aligned_block(1) [OF al i]] by blast
  let ?t = "case chm_find M t1 ?u of None \<Rightarrow> t1
    | Some blocks \<Rightarrow> chm_write M t1 ?u (chm_emplace B blocks (block_id inp i) (file_block F ?u (block_id inp i)))"
  have "coherent F M B cap l1 ?t es1"
    using s coherent_emplace [OF ok s(2,3)] by (simp split: option.splits)
  with Cons.IH [of l1 ?t es1] Cons.prems(2) s(1) to_emplace_range [OF range(1) i range(2)] aligned_block(2) [OF al i]
  show ?case by (auto simp: Let_def)
qed auto

lemma write_coherent:
  assumes ok: "chmap_ok M" "chmap_ok B" and al: "aligned cap inp" and cap: "4096 \<le> unat cap" "2 * unat cap < 2 ^ 32"
    and coh: "coherent F M B cap (ca_lru c) (ca_map c) es"
  shows "\<exists>c' es'. write_to_cache M B inp (file_range F inp) c = Some c' \<and> coherent F M B cap (ca_lru c') (ca_map c') es'"
proof (cases "chm_find M (ca_map c) (in_uuid inp)")
  case (Some blocks)
  have "cache_range inp" using al by (simp add: aligned_def)
  moreover obtain l t es' where "write_known M B inp (file_range F inp) (map (block_id inp) [0 ..< block_count inp])
      (ca_lru c, ca_map c) = Some (l, t)" "coherent F M B cap l t es'"
    using write_known_coherent [OF ok al cap coh, of "[0 ..< block_count inp]"] by (auto simp: atLeast0LessThan)
  ultimately show ?thesis using Some by (auto simp: write_to_cache_def get_block_ids_range)
next
  case None
  have range: "cache_range inp" "unat (in_size inp) \<le> length (file_range F inp)"
    and le: "unat (in_size inp) \<le> unat (lr_cap (ca_lru c))"
    using al coh by (simp_all add: aligned_def file_range_def coherent_def word_le_nat_alt)
  have c: "lru_inv (ca_lru c) es" "lr_cap (ca_lru c) = cap" "tracked M B (ca_map c) es" "\<forall>x \<in> set es. esize x = 4096"
    "\<And>u b buf. cached M B (ca_map c) (u, b) = Some buf \<Longrightarrow> buf = file_block F u b" using coh by (auto simp: coherent_def)
  let ?front = "map (range_entry inp) (rev [0 ..< block_count inp])"
  from write_uncached [OF ok range le _ c(1,3) None] cap c(2) obtain c' rest blocks where c':
    "write_to_cache M B inp (file_range F inp) c = Some c'" "set rest \<subseteq> set es" "lru_inv (ca_lru c') (?front @ rest)"
    "tracked M B (ca_map c') (?front @ rest)" "chm_find M (ca_map c') (in_uuid inp) = Some blocks"
    "\<And>i. i < block_count inp \<Longrightarrow> chm_find B blocks (block_id inp i) = Some (piece inp (file_range F inp) i)"
    "\<And>b. b \<notin> block_id inp ` {..< block_count inp} \<Longrightarrow> chm_find B blocks b = None"
    "\<And>k. fst k \<noteq> in_uuid inp \<Longrightarrow> cached M B (ca_map c') k \<in> {None, cached M B (ca_map c) k}"
    "lr_cap (ca_lru c') = cap" by auto
  have "buf = file_block F u b" if "cached M B (ca_map c') (u, b) = Some buf" for u b buf
  proof (cases "u = in_uuid inp")
    case True
    then have f: "chm_find B blocks b = Some buf" using that c'(5) by (simp add: cached_def)
    then obtain i where "i < block_count inp" "b = block_id inp i" using c'(7) [of b] by (cases "b \<in> block_id inp ` {..< block_count inp}") auto
    then show ?thesis using f c'(6) aligned_block(2) [OF al] True by simp
  next
    case False
    then show ?thesis using c'(8) [of "(u, b)"] that c(5) by auto
  qed
  moreover have "\<forall>x \<in> set (?front @ rest). esize x = 4096" using aligned_block(1) [OF al] c'(2) c(4) by auto
  ultimately show ?thesis using c' by (auto simp: coherent_def)
qed

lemma concat_file_blocks:
  assumes "aligned cap inp"
  shows "concat (map (file_block F (in_uuid inp)) (map (block_id inp) [0 ..< block_count inp])) = file_range F inp"
proof -
  have "map (file_block F (in_uuid inp)) (map (block_id inp) [0 ..< block_count inp]) =
      map (piece inp (file_range F inp)) [0 ..< block_count inp]"
    using aligned_block(2) [OF assms, of _ F] by simp
  moreover have len: "length (file_range F inp) = unat (in_size inp)" by (simp add: file_range_def)
  ultimately show ?thesis using concat_pieces [of inp "file_range F inp"] by (simp del: map_map)
qed

lemma read_coherent:
  assumes ok: "chmap_ok M" "chmap_ok B" and al: "aligned cap inp" and cap: "2 * unat cap < 2 ^ 32"
    and coh: "coherent F M B cap (ca_lru c) (ca_map c) es"
  shows "\<exists>r c' es'. read_from_cache M B inp c = Some (r, c') \<and> r \<in> {None, Some (file_range F inp)} \<and>
    coherent F M B cap (ca_lru c') (ca_map c') es'"
proof (cases "chm_find M (ca_map c) (in_uuid inp)")
  case None
  then show ?thesis using coh by (auto simp: read_from_cache_def)
next
  case (Some blocks)
  let ?ids = "map (block_id inp) [0 ..< block_count inp]"
  have c: "tracked M B (ca_map c) es" "lru_inv (ca_lru c) es" "lr_cap (ca_lru c) = cap" using coh by (auto simp: coherent_def)
  have ids: "get_block_ids inp = Some ?ids" using al by (simp add: get_block_ids_range aligned_def)
  have "2 * unat (lr_cap (ca_lru c)) < 2 ^ 32" using cap c(3) by simp
  from read_tracked [OF ok Some c(1,2) this ids] obtain c' es' where r:
    "read_from_cache M B inp c = Some (if \<forall>b \<in> set ?ids. chm_find B blocks b \<noteq> None
       then Some (concat (map (\<lambda>b. the (chm_find B blocks b)) ?ids)) else None, c')"
    "ca_map c' = ca_map c" "lru_inv (ca_lru c') es'" "set es' = set es" "lr_cap (ca_lru c') = cap" using c(3) by auto
  have "the (chm_find B blocks b) = file_block F (in_uuid inp) b" if "chm_find B blocks b \<noteq> None" for b
    using that coh Some by (auto simp: coherent_def cached_def)
  then have "\<forall>b \<in> set ?ids. chm_find B blocks b \<noteq> None \<Longrightarrow>
      concat (map (\<lambda>b. the (chm_find B blocks b)) ?ids) = concat (map (file_block F (in_uuid inp)) ?ids)"
    by (intro arg_cong [where f = concat] map_cong) blast+
  then have "(if \<forall>b \<in> set ?ids. chm_find B blocks b \<noteq> None
      then Some (concat (map (\<lambda>b. the (chm_find B blocks b)) ?ids)) else None) \<in> {None, Some (file_range F inp)}"
    unfolding concat_file_blocks [OF al, of F] by (metis insert_iff)
  moreover have "coherent F M B cap (ca_lru c') (ca_map c') es'"
    using r coh by (auto simp: coherent_def tracked_def)
  ultimately show ?thesis using r(1) by blast
qed

definition is_read :: "jinput \<Rightarrow> bool" where
  "is_read inp \<longleftrightarrow> rq_type (in_request inp) = type_val T_file \<and> rq_operation (in_request inp) = operation_val Op_read"

lemma perform_read_coherent:
  assumes ok: "chmap_ok M" "chmap_ok B" and al: "aligned cap inp" "is_read inp" and cap: "4096 \<le> unat cap" "2 * unat cap < 2 ^ 32"
    and coh: "coherent F M B cap (ca_lru c) (ca_map c) es" and st: "storage s inp = (s, file_range F inp)"
  shows "\<exists>c' es'. perform_request M B storage metadata enable_cache inp (s, c) = Some (Some (file_range F inp), s, c') \<and>
    coherent F M B cap (ca_lru c') (ca_map c') es'"
proof -
  have op: "type_of_byte (rq_type (in_request inp)) = Some T_file" "\<not> is_write inp"
    using al(2) by (simp_all add: is_read_def is_write_def type_of_byte_def)
  obtain r c1 es1 where r: "read_from_cache M B inp c = Some (r, c1)" "r \<in> {None, Some (file_range F inp)}"
      "coherent F M B cap (ca_lru c1) (ca_map c1) es1"
    using read_coherent [OF ok al(1) cap(2) coh] by blast
  show ?thesis
  proof (cases r)
    case None
    obtain c2 es2 where "write_to_cache M B inp (file_range F inp) c1 = Some c2" "coherent F M B cap (ca_lru c2) (ca_map c2) es2"
      using write_coherent [OF ok al(1) cap r(3)] by blast
    then show ?thesis using None r op st
      by (cases enable_cache) (auto simp: perform_request_def start_storage_perform_def on_read_done_def)
  next
    case (Some buf)
    then show ?thesis using r op by (auto simp: perform_request_def start_storage_perform_def)
  qed
qed

section \<open>Properties of the cached storage\<close>

text \<open>
  C9. Reads through the cache. A data function starts with an empty cache; while the storage does not
  change, every sequence of block-aligned reads, each at most as large as the cache, is answered
  completely and with the bytes the storage holds, whatever is read from the cache and whatever is
  evicted in between.
\<close>

theorem cached_reads_transparent:
  assumes "chmap_ok M" "chmap_ok B" "4096 \<le> unat cap" "2 * unat cap < 2 ^ 32"
    and "\<forall>inp \<in> set inps. aligned cap inp \<and> is_read inp \<and> storage s inp = (s, file_range F inp)"
  shows "\<exists>c. perform_all M B storage metadata enable_cache inps (s, cache_new M cap policy) =
    Some (map (\<lambda>inp. Some (file_range F inp)) inps, s, c)"
proof -
  have "\<exists>c'. perform_all M B storage metadata enable_cache inps (s, c) = Some (map (\<lambda>inp. Some (file_range F inp)) inps, s, c')"
    if "coherent F M B cap (ca_lru c) (ca_map c) es" for c es
    using assms(5) that
  proof (induction inps arbitrary: c es)
    case (Cons inp inps)
    have "aligned cap inp" "is_read inp" "storage s inp = (s, file_range F inp)" using Cons.prems(1) by simp_all
    from perform_read_coherent [where storage = storage and metadata = metadata and enable_cache = enable_cache,
        OF assms(1,2) this(1,2) assms(3,4) Cons.prems(2) this(3)]
    obtain c1 es1 where "perform_request M B storage metadata enable_cache inp (s, c) = Some (Some (file_range F inp), s, c1)"
      "coherent F M B cap (ca_lru c1) (ca_map c1) es1" by blast
    with Cons.IH [of c1 es1] Cons.prems(1) show ?case by auto
  qed simp
  moreover have "coherent F M B cap (ca_lru (cache_new M cap policy)) (ca_map (cache_new M cap policy)) []"
    using lru_new [of cap] by (simp add: coherent_def cache_new_def tracked_def cached_def chmap_find_empty [OF assms(1)] LRUCache_def)
  ultimately show ?thesis by blast
qed

theorem cached_reads_transparent_witness:
  "\<exists>c. perform_all al_chmap al_chmap (\<lambda>s inp. (s, file_range (\<lambda>u a. 5) inp)) (\<lambda>s inp. (s, [])) True
     [sample_input Op_read 0 4096 [], sample_input Op_read 0 4096 []] ((), cache_new al_chmap 8192 ''LRU'') =
     Some ([Some (replicate 4096 5), Some (replicate 4096 5)], (), c :: (bytes \<times> (u32 \<times> bytes) list) list cache)"
proof -
  let ?i = "sample_input Op_read 0 4096 []"
  have i: "in_size ?i = 4096" "in_position ?i = 0" "is_read ?i"
    by (simp_all add: sample_input_def in_position_def in_size_def is_read_def)
  then have "aligned 8192 ?i" "file_range (\<lambda>u a. 5) ?i = replicate 4096 5"
    by (simp_all add: aligned_def cache_range_def file_range_def map_replicate_const)
  with cached_reads_transparent [OF al_chmap_ok al_chmap_ok, of 8192 "[?i, ?i]" "\<lambda>s inp. (s, file_range (\<lambda>u a. 5) inp)" "()"
      "\<lambda>u a. 5" "\<lambda>s inp. (s, [])" True "''LRU''"] i
  show ?thesis by simp
qed

text \<open>
  Short answers overrun the buffer. When the cache is enabled and the storage answers a read with fewer bytes than
  were asked for, as it does for blocks that do not exist, the callback copies behind the end of
  the answer: the model is undefined, in the place the source marks with a comment that it crashes.
\<close>

theorem short_answer_overruns:
  assumes "cache_range inp" "length buf < unat (in_size inp)"
  shows "on_read_done M B True inp buf c = None"
proof -
  let ?n = "block_count inp"
  have n: "0 < ?n" using assms(2) by (auto simp: block_count_def div_greater_zero_iff)
  let ?i = "?n - 1"
  have i: "?i < ?n" "?i * 4096 < unat (in_size inp)" using n block_count_le [of ?i inp] by auto
  have "unat (in_size inp) \<le> ?n * 4096" unfolding block_count_def by linarith
  then have "?i * 4096 + min 4096 (unat (in_size inp) - ?i * 4096) = unat (in_size inp)"
    using i(2) n by (cases ?n) (auto simp: min_def)
  then have bad: "to_emplace inp buf (block_id inp ?i) = None"
    using block_at_range(2,3) [OF assms(1) i(1)] assms(2) by (simp add: to_emplace_def)
  have known: "write_known M B inp buf ids lt = None" if "block_id inp ?i \<in> set ids" for ids lt
    using that bad by (induction ids arbitrary: lt) (auto split: bind_splits)
  have unknown: "write_unknown M B inp buf ids bc lt = None" if "block_id inp ?i \<in> set ids" for ids bc lt
    using that bad by (induction ids arbitrary: bc lt) (auto split: bind_splits simp: split_paired_all)
  have "block_id inp ?i \<in> set (map (block_id inp) [0 ..< ?n])" using i(1) by simp
  then show ?thesis
    by (simp add: on_read_done_def write_to_cache_def get_block_ids_range [OF assms(1)] known unknown split: option.splits)
qed

theorem short_answer_overruns_witness:
  "on_read_done al_chmap al_chmap True (sample_input Op_read 0 4096 []) []
     (cache_new al_chmap 8192 ''LRU'' :: (bytes \<times> (u32 \<times> bytes) list) list cache) = None"
  by (rule short_answer_overruns) (simp_all add: cache_range_def sample_input_def in_position_def in_size_def)

end
