(* ===== verification/Data_Function.thy ===== *)
theory Data_Function
  imports Proxy_Command
begin

text \<open>
  The handlers of a data function (\<^verbatim>\<open>functions/datafunction/proxy-command.hpp\<close> and \<^verbatim>\<open>tcp-server.hpp\<close>):
  registration at the proxy, the commands of the proxy, jobs on the strand of their file, the idle
  timer, closing, and the connections of direct clients. Time is in milliseconds. A handler gives the new state
  and the list of what it starts. The answer of a command is written before its job runs.
\<close>

section \<open>State\<close>

type_synonym endpoint = "u32 \<times> u16"

datatype df_out =
    Write packet
  | Post nat packet
  | Connect endpoint u16
  | Fetch u32 packet

record ('q, 'p, 't) df =
  df_cache :: "'t cache"
  df_last_update :: nat
  df_waittime :: nat
  df_deadline :: "nat option"
  df_queue_map :: 'q
  df_strands :: nat
  df_proxies :: 'p
  df_port :: u16

type_synonym 'q queue_map = "(bytes, nat, 'q) chmap"
type_synonym 'p proxy_set = "(endpoint, unit, 'p) chmap"

definition timer_reset :: "('q, 'p, 't) df \<Rightarrow> ('q, 'p, 't) df" where
  "timer_reset s = s\<lparr>df_deadline := Some (df_last_update s + df_waittime s)\<rparr>"

section \<open>Packets of the data function\<close>

definition registration :: "packet_header \<Rightarrow> bytes \<Rightarrow> u16 \<Rightarrow> packet" where
  "registration h ip_bytes port =
     \<lparr>pk_header = h\<lparr>ph_type := msg_val Worker_reg\<rparr>, pk_buf = ip_bytes @ mem16 (hton16 port)\<rparr>"

definition ack_packet :: "packet \<Rightarrow> packet" where
  "ack_packet pack = \<lparr>pk_header = (pk_header pack)\<lparr>ph_type := msg_val Ack\<rparr>, pk_buf = []\<rparr>"

definition job_response :: "packet \<Rightarrow> bytes \<Rightarrow> packet" where
  "job_response pack buf = \<lparr>pk_header = (pk_header pack)\<lparr>ph_type := msg_val Worker_response\<rparr>, pk_buf = buf\<rparr>"

definition start_connect ::
  "packet_header \<Rightarrow> bytes \<Rightarrow> ('q, 'p, 't) df \<Rightarrow> ('q, 'p, 't) df \<times> df_out list" where
  "start_connect h ip_bytes s = (timer_reset s, [Write (registration h ip_bytes (df_port s))])"

definition df_close ::
  "('b, 't) file_map \<Rightarrow> 'b block_map \<Rightarrow> packet_header \<Rightarrow> ('q, 'p, 't) df \<Rightarrow> df_out list option" where
  "df_close M B h s = map_option (\<lambda>tables.
     [Write \<lparr>pk_header = h\<lparr>ph_type := msg_val Worker_dereg\<rparr>, pk_buf = tables\<rparr>]) (get_tables M B (df_cache s))"

text \<open>The timer fires when its deadline has passed; a canceled timer does nothing.\<close>

definition on_timer ::
  "('b, 't) file_map \<Rightarrow> 'b block_map \<Rightarrow> packet_header \<Rightarrow> nat \<Rightarrow> ('q, 'p, 't) df \<Rightarrow> df_out list option" where
  "on_timer M B h now s = (case df_deadline s of
     Some d \<Rightarrow> if d \<le> now then df_close M B h s else Some []
   | None \<Rightarrow> Some [])"

section \<open>Jobs\<close>

definition start_job :: "'q queue_map \<Rightarrow> packet \<Rightarrow> ('q, 'p, 't) df \<Rightarrow> ('q, 'p, 't) df \<times> df_out list" where
  "start_job Q pack s =
     (case chm_find Q (df_queue_map s) (ph_key (pk_header pack)) of
        None \<Rightarrow> (s\<lparr>df_queue_map := chm_emplace Q (df_queue_map s) (ph_key (pk_header pack)) (df_strands s),
                   df_strands := df_strands s + 1\<rparr>, [Post (df_strands s) pack])
      | Some strand \<Rightarrow> (s, [Post strand pack]))"

text \<open>A posted job when its strand runs it; a request that has no answer writes nothing.\<close>

definition run_job ::
  "('b, 't) file_map \<Rightarrow> 'b block_map \<Rightarrow> ('s \<Rightarrow> jinput \<Rightarrow> 's \<times> bytes) \<Rightarrow> ('s \<Rightarrow> jinput \<Rightarrow> 's \<times> bytes) \<Rightarrow>
     bool \<Rightarrow> bool \<Rightarrow> packet \<Rightarrow> 's \<times> 't cache \<Rightarrow> (packet list \<times> 's \<times> 't cache) option" where
  "run_job M B storage metadata use_async enable_cache pack sc = do {
     inp \<leftarrow> parse_input pack;
     if use_async then do {
       (r, sc) \<leftarrow> perform_request M B storage metadata enable_cache inp sc;
       Some (case r of None \<Rightarrow> [] | Some buf \<Rightarrow> [job_response pack buf], sc)
     }
     else do {
       (v, sc) \<leftarrow> storage_perform M B storage inp sc;
       Some ([job_response pack v], sc)
     }
   }"

section \<open>Commands of the proxy\<close>

definition command_endpoint :: "bytes \<Rightarrow> endpoint option" where
  "command_endpoint buf =
     (if length buf < 6 then None
      else Some (ntoh32 (of_mem32 (take 4 buf)), ntoh16 (of_mem16 (take 2 (drop 4 buf)))))"

definition on_proxyjoin ::
  "'p proxy_set \<Rightarrow> packet \<Rightarrow> ('q, 'p, 't) df \<Rightarrow> (('q, 'p, 't) df \<times> df_out list) option" where
  "on_proxyjoin P pack s = map_option (\<lambda>ep.
     if chm_find P (df_proxies s) ep = None
     then (s\<lparr>df_proxies := chm_emplace P (df_proxies s) ep ()\<rparr>, [Connect ep (df_port s + 1)])
     else (s, [])) (command_endpoint (pk_buf pack))"

definition on_set_timer :: "packet \<Rightarrow> ('q, 'p, 't) df \<Rightarrow> (('q, 'p, 't) df \<times> df_out list) option" where
  "on_set_timer pack s =
     (if length (pk_buf pack) < 4 then None
      else Some (s\<lparr>df_waittime := unat (ntoh32 (of_mem32 (take 4 (pk_buf pack))))\<rparr>, []))"

definition on_cache_transfer ::
  "('b, 't) file_map \<Rightarrow> 'b block_map \<Rightarrow> packet_header \<Rightarrow> bytes \<Rightarrow> packet \<Rightarrow> ('q, 'p, 't) df \<Rightarrow>
     (('q, 'p, 't) df \<times> df_out list) option" where
  "on_cache_transfer M B h pad pack s =
     (if ca_policy (df_cache s) = ''LRU'' \<or> ca_policy (df_cache s) = ''FIFO''
      then map_option (\<lambda>(c, fs). (s\<lparr>df_cache := c\<rparr>, map (\<lambda>(b, p). Fetch b p) fs))
             (build_cache M B h pad (pk_buf pack) (df_cache s))
      else Some (s, []))"

definition start_listen_commands :: "packet_header \<Rightarrow> ('q, 'p, 't) df \<Rightarrow> ('q, 'p, 't) df" where
  "start_listen_commands h s = (if ph_type h \<noteq> msg_val Set_timer then s\<lparr>df_deadline := None\<rparr> else s)"

definition dispatch ::
  "('b, 't) file_map \<Rightarrow> 'b block_map \<Rightarrow> 'q queue_map \<Rightarrow> 'p proxy_set \<Rightarrow> packet_header \<Rightarrow> bytes \<Rightarrow> packet \<Rightarrow>
     ('q, 'p, 't) df \<Rightarrow> (('q, 'p, 't) df \<times> df_out list) option" where
  "dispatch M B Q P h pad pack s =
     (case msg_of (ph_type (pk_header pack)) of
        Some Proxyjoin \<Rightarrow> on_proxyjoin P pack s
      | Some Set_timer \<Rightarrow> on_set_timer pack s
      | Some Cache_transfer \<Rightarrow> on_cache_transfer M B h pad pack s
      | _ \<Rightarrow> Some (start_job Q pack s))"

definition on_command ::
  "('b, 't) file_map \<Rightarrow> 'b block_map \<Rightarrow> 'q queue_map \<Rightarrow> 'p proxy_set \<Rightarrow> packet_header \<Rightarrow> bytes \<Rightarrow> nat \<Rightarrow> packet \<Rightarrow>
     ('q, 'p, 't) df \<Rightarrow> (('q, 'p, 't) df \<times> df_out list) option" where
  "on_command M B Q P h pad now pack s = do {
     (s, outs) \<leftarrow> dispatch M B Q P h pad pack (start_listen_commands (pk_header pack) s);
     let s = (if ph_type (pk_header pack) \<noteq> msg_val Set_timer then s\<lparr>df_last_update := now\<rparr> else s);
     Some (timer_reset s, outs @ [Write (ack_packet pack)])
   }"

fun on_commands ::
  "('b, 't) file_map \<Rightarrow> 'b block_map \<Rightarrow> 'q queue_map \<Rightarrow> 'p proxy_set \<Rightarrow> packet_header \<Rightarrow> bytes \<Rightarrow> (nat \<times> packet) list \<Rightarrow>
     ('q, 'p, 't) df \<Rightarrow> (('q, 'p, 't) df \<times> df_out list) option" where
  "on_commands M B Q P h pad [] s = Some (s, [])"
| "on_commands M B Q P h pad ((now, pack) # cs) s = do {
     (s, outs) \<leftarrow> on_command M B Q P h pad now pack s;
     (s, outs') \<leftarrow> on_commands M B Q P h pad cs s;
     Some (s, outs @ outs')
   }"

section \<open>Direct clients\<close>

text \<open>
  A direct connection reads headers. A trigger is read with its body and becomes a job; any other known type is
  answered with an error and its body, if it has one, is read as the next header; after a type the
  enumeration does not have, the connection reads no more.
\<close>

datatype direct_event = Job packet | Error_reply packet

definition error_packet :: "packet_header \<Rightarrow> packet" where
  "error_packet h = \<lparr>pk_header = h\<lparr>ph_type := msg_val Err\<rparr>, pk_buf = []\<rparr>"

function direct_connection :: "bytes \<Rightarrow> direct_event list" where
  "direct_connection s =
     (if length s < bytesize then []
      else let h = parse (take bytesize s); r = drop bytesize s; n = unat (ph_datasize h) in
        case msg_of (ph_type h) of
          None \<Rightarrow> []
        | Some Trigger \<Rightarrow>
            if length r < n then []
            else Job \<lparr>pk_header = h, pk_buf = data_parse n r\<rparr> # direct_connection (drop n r)
        | Some _ \<Rightarrow> Error_reply (error_packet h) # direct_connection r)"
  by pat_completeness auto
termination
  by (relation "measure length") (auto simp: bytesize_def)

declare direct_connection.simps [simp del]

section \<open>Strands\<close>

text \<open>\<open>strands_ok\<close>: every known file has its own strand, and the next strand is a new one.\<close>

definition strands_ok :: "'q queue_map \<Rightarrow> ('q, 'p, 't) df \<Rightarrow> bool" where
  "strands_ok Q s \<longleftrightarrow>
     (\<forall>k i. chm_find Q (df_queue_map s) k = Some i \<longrightarrow> i < df_strands s) \<and>
     (\<forall>k k' i. chm_find Q (df_queue_map s) k = Some i \<longrightarrow> chm_find Q (df_queue_map s) k' = Some i \<longrightarrow> k = k')"

definition posts_ok :: "'q queue_map \<Rightarrow> ('q, 'p, 't) df \<Rightarrow> df_out list \<Rightarrow> bool" where
  "posts_ok Q s outs \<longleftrightarrow>
     (\<forall>i p. Post i p \<in> set outs \<longrightarrow> chm_find Q (df_queue_map s) (ph_key (pk_header p)) = Some i)"

lemma start_job_strands:
  assumes "chmap_ok Q" "strands_ok Q s" "start_job Q pack s = (s', outs)"
  shows "strands_ok Q s' \<and> posts_ok Q s' outs \<and> chm_find Q (df_queue_map s) \<subseteq>\<^sub>m chm_find Q (df_queue_map s')"
proof (cases "chm_find Q (df_queue_map s) (ph_key (pk_header pack))")
  case None
  have "chm_find Q (df_queue_map s) k \<noteq> Some (df_strands s)" for k using assms(2) by (fastforce simp: strands_ok_def)
  then have "strands_ok Q s'" using None assms(2,3)
    by (auto simp: start_job_def strands_ok_def chmap_find_emplace [OF assms(1)] less_Suc_eq split: if_splits)
  then show ?thesis using None assms(3)
    by (auto simp: start_job_def posts_ok_def map_le_def chmap_find_emplace [OF assms(1)])
next
  case (Some i)
  then show ?thesis using assms(2,3) by (auto simp: start_job_def posts_ok_def)
qed

lemma post_not_fetch [simp]: "Post i p \<notin> (\<lambda>(b, q). Fetch b q) ` A"
  by auto

lemma dispatch_cases:
  assumes "dispatch M B Q P h pad pack s = Some (s', outs)"
  obtains "start_job Q pack s = (s', outs)"
  | "df_queue_map s' = df_queue_map s" "df_strands s' = df_strands s" "\<forall>i p. Post i p \<notin> set outs"
  using assms
  by (auto simp: dispatch_def on_proxyjoin_def on_set_timer_def on_cache_transfer_def
      split: option.splits msg_t.splits if_splits)

lemma on_command_strands:
  assumes "chmap_ok Q" "strands_ok Q s" "on_command M B Q P h pad now pack s = Some (s', outs)"
  shows "strands_ok Q s' \<and> posts_ok Q s' outs \<and> chm_find Q (df_queue_map s) \<subseteq>\<^sub>m chm_find Q (df_queue_map s')"
proof -
  let ?s = "start_listen_commands (pk_header pack) s"
  have s: "df_queue_map ?s = df_queue_map s" "strands_ok Q ?s"
    using assms(2) by (simp_all add: start_listen_commands_def strands_ok_def)
  obtain s1 outs1 where d: "dispatch M B Q P h pad pack ?s = Some (s1, outs1)" "outs = outs1 @ [Write (ack_packet pack)]"
      "df_queue_map s' = df_queue_map s1" "df_strands s' = df_strands s1"
    using assms(3) by (auto simp: on_command_def timer_reset_def split: bind_splits if_splits)
  have "strands_ok Q s1 \<and> posts_ok Q s1 outs1 \<and> chm_find Q (df_queue_map s) \<subseteq>\<^sub>m chm_find Q (df_queue_map s1)"
    using d(1)
  proof (rule dispatch_cases)
    assume "start_job Q pack ?s = (s1, outs1)"
    then show ?thesis using start_job_strands [OF assms(1) s(2)] s(1) by metis
  next
    assume "df_queue_map s1 = df_queue_map ?s" "df_strands s1 = df_strands ?s" "\<forall>i p. Post i p \<notin> set outs1"
    then show ?thesis using s by (simp add: strands_ok_def posts_ok_def)
  qed
  then show ?thesis using d by (auto simp: strands_ok_def posts_ok_def)
qed

lemma on_commands_strands:
  assumes "chmap_ok Q" "strands_ok Q s" "on_commands M B Q P h pad cs s = Some (s', outs)"
  shows "strands_ok Q s' \<and> posts_ok Q s' outs \<and> chm_find Q (df_queue_map s) \<subseteq>\<^sub>m chm_find Q (df_queue_map s')"
  using assms(2,3)
proof (induction cs arbitrary: s outs)
  case (Cons c cs)
  obtain now pack where c: "c = (now, pack)" by (cases c)
  from Cons.prems(2) obtain s1 o1 o2 where
    1: "on_command M B Q P h pad now pack s = Some (s1, o1)" and
    2: "on_commands M B Q P h pad cs s1 = Some (s', o2)" and outs: "outs = o1 @ o2"
    by (auto simp: c split: bind_splits)
  note a = on_command_strands [OF assms(1) Cons.prems(1) 1]
  then have b: "strands_ok Q s' \<and> posts_ok Q s' o2 \<and> chm_find Q (df_queue_map s1) \<subseteq>\<^sub>m chm_find Q (df_queue_map s')"
    using Cons.IH [OF _ 2] by blast
  have "posts_ok Q s' o1" using a b unfolding posts_ok_def map_le_def by (metis domI)
  then show ?case using a b outs by (auto simp: posts_ok_def intro: map_le_trans)
qed (simp add: posts_ok_def)

definition df_new :: "('b, 't) file_map \<Rightarrow> 'q queue_map \<Rightarrow> 'p proxy_set \<Rightarrow> u32 \<Rightarrow> string \<Rightarrow> u16 \<Rightarrow> nat \<Rightarrow> ('q, 'p, 't) df" where
  "df_new M Q P cache_size policy port now = \<lparr>df_cache = cache_new M cache_size policy, df_last_update = now,
     df_waittime = 10000, df_deadline = None, df_queue_map = chm_empty Q, df_strands = 0, df_proxies = chm_empty P, df_port = port\<rparr>"

section \<open>Properties\<close>

text \<open>
  C35. One strand per file. In every sequence of commands the proxy sends to a new data function, two
  jobs are posted on the same strand exactly when they are for the same file: jobs of one file run in the order of
  their arrival and never at the same time, jobs of different files are not serialized.
\<close>

theorem jobs_serialized_per_file:
  assumes "chmap_ok Q" "on_commands M B Q P h pad cs (df_new M Q P cache_size policy port now) = Some (s, outs)"
    and "Post i p \<in> set outs" "Post j q \<in> set outs"
  shows "i = j \<longleftrightarrow> ph_key (pk_header p) = ph_key (pk_header q)"
proof -
  have "strands_ok Q (df_new M Q P cache_size policy port now)"
    by (simp add: strands_ok_def df_new_def chmap_find_empty [OF assms(1)])
  from on_commands_strands [OF assms(1) this assms(2)] assms(3,4) show ?thesis
    unfolding posts_ok_def strands_ok_def by (metis option.inject)
qed

definition sample_job :: "u8 \<Rightarrow> packet" where
  "sample_job k = \<lparr>pk_header = sample_header\<lparr>ph_type := msg_val Worker_push_request, ph_key := replicate 32 k\<rparr>, pk_buf = []\<rparr>"

abbreviation sample_df :: "((bytes \<times> nat) list, (endpoint \<times> unit) list, (bytes \<times> (u32 \<times> bytes) list) list) df" where
  "sample_df \<equiv> df_new al_chmap al_chmap al_chmap 8192 ''LRU'' 2000 0"

lemma sample_commands:
  "on_commands al_chmap (al_chmap :: (u32 \<times> bytes) list block_map) al_chmap al_chmap sample_header [0, 0]
      [(1, sample_job 1), (2, sample_job 2)] sample_df =
      Some (sample_df\<lparr>df_last_update := 2, df_deadline := Some 10002, df_strands := 2,
          df_queue_map := [(replicate 32 2, 1), (replicate 32 1, 0)]\<rparr>,
        [Post 0 (sample_job 1), Write (ack_packet (sample_job 1)), Post 1 (sample_job 2), Write (ack_packet (sample_job 2))])"
  by (simp add: on_command_def dispatch_def start_job_def start_listen_commands_def sample_job_def df_new_def timer_reset_def
        al_chmap_def msg_of_def msg_list_def Let_def)

theorem jobs_serialized_per_file_witness:
  "\<exists>s outs i j. on_commands al_chmap (al_chmap :: (u32 \<times> bytes) list block_map) al_chmap al_chmap sample_header [0, 0]
       [(1, sample_job 1), (2, sample_job 2)] sample_df = Some (s, outs) \<and>
     Post i (sample_job 1) \<in> set outs \<and> Post j (sample_job 2) \<in> set outs \<and> i \<noteq> j"
proof -
  from jobs_serialized_per_file [OF al_chmap_ok sample_commands, of 0 "sample_job 1" 1 "sample_job 2"] show ?thesis
    unfolding sample_commands by auto
qed

text \<open>
  Commands and the idle timer. Every command that is handled is acknowledged, last of all, with its own header
  and an empty body, and leaves the timer armed at the last update plus the waiting time. A timer
  command changes the waiting time and nothing else, in particular not the last update; every other
  command counts as activity. The timer closes the data function exactly when that deadline has passed.
\<close>

theorem commands_rearm_idle_timer:
  assumes "on_command M B Q P h pad now pack s = Some (s', outs)"
  shows "(\<exists>outs'. outs = outs' @ [Write (ack_packet pack)]) \<and>
    df_deadline s' = Some (df_last_update s' + df_waittime s') \<and>
    (if ph_type (pk_header pack) = msg_val Set_timer
     then s' = s\<lparr>df_waittime := unat (ntoh32 (of_mem32 (take 4 (pk_buf pack)))), df_deadline := df_deadline s'\<rparr>
     else df_last_update s' = now \<and> df_waittime s' = df_waittime s) \<and>
    on_timer M B h' t s' = (if df_last_update s' + df_waittime s' \<le> t then df_close M B h' s' else Some [])"
proof -
  obtain s1 outs1 where d: "dispatch M B Q P h pad pack (start_listen_commands (pk_header pack) s) = Some (s1, outs1)"
      "outs = outs1 @ [Write (ack_packet pack)]"
      "s' = timer_reset (if ph_type (pk_header pack) \<noteq> msg_val Set_timer then s1\<lparr>df_last_update := now\<rparr> else s1)"
    using assms by (auto simp: on_command_def split: bind_splits)
  have dl: "df_deadline s' = Some (df_last_update s' + df_waittime s')" by (simp add: d(3) timer_reset_def)
  show ?thesis
  proof (cases "ph_type (pk_header pack) = msg_val Set_timer")
    case True
    then have "msg_of (ph_type (pk_header pack)) = Some Set_timer" by (simp add: msg_of_def msg_list_def)
    with d(1) True have "s1 = s\<lparr>df_waittime := unat (ntoh32 (of_mem32 (take 4 (pk_buf pack))))\<rparr>"
      by (auto simp: dispatch_def on_set_timer_def start_listen_commands_def split: if_splits)
    then show ?thesis using True d(2,3) dl by (simp add: timer_reset_def on_timer_def)
  next
    case False
    then have "msg_of (ph_type (pk_header pack)) \<noteq> Some Set_timer"
      by (auto simp: msg_of_def msg_list_def split: if_splits)
    with d(1) have "df_waittime s1 = df_waittime s"
      by (auto simp: dispatch_def on_proxyjoin_def on_cache_transfer_def start_job_def start_listen_commands_def
          split: option.splits msg_t.splits if_splits)
    then show ?thesis using False d(2,3) dl by (simp add: timer_reset_def on_timer_def)
  qed
qed

theorem commands_rearm_idle_timer_witness:
  "\<exists>s' outs. on_command al_chmap (al_chmap :: (u32 \<times> bytes) list block_map) al_chmap al_chmap sample_header [0, 0] 7
       \<lparr>pk_header = sample_header\<lparr>ph_type := msg_val Set_timer\<rparr>, pk_buf = mem32 (hton32 300)\<rparr> sample_df = Some (s', outs) \<and>
     df_deadline s' = Some 300"
proof -
  let ?p = "\<lparr>pk_header = sample_header\<lparr>ph_type := msg_val Set_timer\<rparr>, pk_buf = mem32 (hton32 300)\<rparr>"
  let ?s = "sample_df\<lparr>df_waittime := 300, df_deadline := Some 300\<rparr>"
  have r: "on_command al_chmap (al_chmap :: (u32 \<times> bytes) list block_map) al_chmap al_chmap sample_header [0, 0] 7
      ?p sample_df = Some (?s, [Write (ack_packet ?p)])"
    by (simp add: on_command_def dispatch_def on_set_timer_def msg_of_def msg_list_def start_listen_commands_def
        timer_reset_def df_new_def)
  from commands_rearm_idle_timer [OF r, of sample_header 0] have "df_deadline ?s = Some 300" by simp
  with r show ?thesis by blast
qed

text \<open>
  Direct clients. A client that sends triggers with their bodies, and other packets without body, gets exactly one job or
  one error reply per packet, in order; the jobs carry the packets that were sent.
\<close>

theorem direct_connection_serves:
  assumes "\<forall>p \<in> set ps. wf_header (pk_header p) \<and> bytesize + length (pk_buf p) < 2 ^ 32 \<and>
    (\<exists>m. msg_of (ph_type (pk_header p)) = Some m \<and> (m \<noteq> Trigger \<longrightarrow> pk_buf p = []))"
  shows "direct_connection (concat (map (\<lambda>p. snd (the (serialize p))) ps)) =
    map (\<lambda>p. if msg_of (ph_type (pk_header p)) = Some Trigger then Job (p\<lparr>pk_header := sized p\<rparr>)
             else Error_reply (error_packet (sized p))) ps"
  using assms
proof (induction ps)
  case Nil
  then show ?case by (simp add: direct_connection.simps bytesize_def)
next
  case (Cons p ps)
  then have wf: "wf_header (sized p)" and len: "bytesize + length (pk_buf p) < 2 ^ 32" by simp_all
  note ser = serialize_Some [OF len]
  obtain m where m: "msg_of (ph_type (sized p)) = Some m" "m \<noteq> Trigger \<longrightarrow> pk_buf p = []"
    using Cons.prems by (auto simp: sized_def)
  have ty: "ph_type (sized p) = ph_type (pk_header p)" by (simp add: sized_def)
  let ?rest = "concat (map (\<lambda>p. snd (the (serialize p))) ps)"
  have IH: "direct_connection ?rest = map (\<lambda>p. if msg_of (ph_type (pk_header p)) = Some Trigger then Job (p\<lparr>pk_header := sized p\<rparr>)
      else Error_reply (error_packet (sized p))) ps" using Cons by simp
  have "direct_connection (dump (sized p) @ pk_buf p @ ?rest) =
      (if m = Trigger then Job (p\<lparr>pk_header := sized p\<rparr>) else Error_reply (error_packet (sized p))) # direct_connection ?rest"
    using m ser length_dump_header [OF wf] parse_dump_header [OF wf]
    by (subst direct_connection.simps) (cases m, auto simp: Let_def data_parse_def)
  then show ?case using IH m(1) ser ty by simp
qed

theorem direct_connection_serves_witness:
  "direct_connection (concat (map (\<lambda>p. snd (the (serialize p)))
     [\<lparr>pk_header = sample_header\<lparr>ph_type := msg_val Trigger\<rparr>, pk_buf = [1, 2, 3]\<rparr>, \<lparr>pk_header = sample_header, pk_buf = []\<rparr>])) =
   [Job \<lparr>pk_header = sample_header\<lparr>ph_type := msg_val Trigger, ph_datasize := 3\<rparr>, pk_buf = [1, 2, 3]\<rparr>,
    Error_reply (error_packet (sample_header\<lparr>ph_datasize := 0\<rparr>))]"
  using direct_connection_serves [of "[\<lparr>pk_header = sample_header\<lparr>ph_type := msg_val Trigger\<rparr>, pk_buf = [1, 2, 3]\<rparr>,
    \<lparr>pk_header = sample_header, pk_buf = []\<rparr>]"] wf_sample_header
  by (simp add: wf_header_def bytesize_def msg_of_def msg_list_def sample_header_def sized_def)

section \<open>Well-formed answers\<close>

definition writes :: "df_out list \<Rightarrow> packet list" where
  "writes outs = concat (map (\<lambda>out. case out of Write p \<Rightarrow> [p] | _ \<Rightarrow> []) outs)"

lemma writes_append [simp]: "writes (xs @ ys) = writes xs @ writes ys"
  by (simp add: writes_def)

lemma dispatch_outs:
  assumes "dispatch M B Q P h pad pack s = Some (s', outs)"
  shows "writes outs = []" "Post i p \<in> set outs \<Longrightarrow> p = pack"
  using assms
  by (auto simp: dispatch_def on_proxyjoin_def on_set_timer_def on_cache_transfer_def start_job_def writes_def comp_def split_def
      split: option.splits msg_t.splits if_splits)

lemma on_commands_outs:
  assumes "on_commands M B Q P h pad cs s = Some (s', outs)"
  shows "writes outs = map (ack_packet \<circ> snd) cs \<and> (\<forall>i p. Post i p \<in> set outs \<longrightarrow> p \<in> snd ` set cs)"
  using assms
proof (induction cs arbitrary: s outs)
  case (Cons c cs)
  obtain now pack where c: "c = (now, pack)" by (cases c)
  from Cons.prems obtain s0 s1 o1 o2 where
    d: "dispatch M B Q P h pad pack (start_listen_commands (pk_header pack) s) = Some (s0, o1)"
    and 2: "on_commands M B Q P h pad cs s1 = Some (s', o2)" and outs: "outs = (o1 @ [Write (ack_packet pack)]) @ o2"
    by (auto simp: c on_command_def Let_def split: bind_splits)
  have w: "writes (Write (ack_packet pack) # o2) = ack_packet pack # writes o2" by (simp add: writes_def)
  show ?case using dispatch_outs [OF d] Cons.IH [OF 2] by (auto simp: outs w c)
qed (simp add: writes_def)

lemma run_job_answers:
  assumes "run_job M B storage metadata use_async enable_cache p sc = Some (rs, sc')"
  shows "length rs \<le> 1 \<and> (\<forall>r \<in> set rs. \<exists>buf. r = job_response p buf)"
  using assms by (auto simp: run_job_def split: bind_splits if_splits option.splits)



end
