(* ===== verification/Handover.thy ===== *)
theory Handover
  imports Launcher_Runs Proxy_Server Socket_Writer Data_Function
begin

text \<open>
  Where the proxy and the data functions meet: addresses of workers, timers, moved files and the tables of a closing
  cache, each produced by one program and read by the other.
\<close>

section \<open>The table of a closing cache\<close>

lemma fileids_entry:
  assumes "length k = 32" "32 \<notin> set xs"
  shows "get_fileids_from_transfer (k @ xs @ 32 # rest) = map_option ((#) (binding_header k)) (get_fileids_from_transfer rest)"
proof -
  have "dropWhile (\<lambda>c. c \<noteq> 32) (xs @ 32 # rest) = 32 # rest"
    using assms(2) by (induction xs) auto
  then show ?thesis using assms(1) by (subst get_fileids_from_transfer.simps) auto
qed

lemma fileids_entries:
  assumes "\<forall>(k, xs) \<in> set es. length k = 32 \<and> 32 \<notin> set xs"
  shows "get_fileids_from_transfer (concat (map (\<lambda>(k, xs). k @ xs @ [32]) es) @ rest) =
    map_option ((@) (map (binding_header \<circ> fst) es)) (get_fileids_from_transfer rest)"
  using assms
proof (induction es)
  case (Cons e es)
  obtain k xs where e: "e = (k, xs)" by (cases e)
  with Cons have "length k = 32" "32 \<notin> set xs" by auto
  from fileids_entry [OF this] Cons show ?case by (simp add: e option.map_comp comp_def)
next
  case Nil
  then show ?case by (cases "get_fileids_from_transfer rest") simp_all
qed

text \<open>No byte of the entry of a block is a space.\<close>

definition no_space_file :: "'b block_map \<Rightarrow> 'b \<Rightarrow> bool" where
  "no_space_file B blocks \<longleftrightarrow> 32 \<notin> set (table_blocks (chm_range B blocks))"

definition no_space_entry :: "cache_entry \<Rightarrow> bool" where
  "no_space_entry e \<longleftrightarrow> 32 \<notin> set (mem32 (ce_block_id e) @ mem32 (ce_data_size e))"

lemma fileids_table:
  assumes files: "\<forall>(k, blocks) \<in> set (chm_range M t). length k = 32 \<and> no_space_file B blocks"
    and es: "\<forall>e \<in> set es. length (ce_file_key e) = 32 \<and> no_space_entry e"
  shows "get_fileids_from_transfer (table_files M B t @ concat (map table_entry es)) =
    Some (map (binding_header \<circ> fst) (chm_range M t) @ map (binding_header \<circ> ce_file_key) es)"
proof -
  let ?fs = "map (\<lambda>(k, blocks). (k, 58 # table_blocks (chm_range B blocks))) (chm_range M t)"
  let ?es = "map (\<lambda>e. (ce_file_key e, 46 # mem32 (ce_block_id e) @ mem32 (ce_data_size e))) es"
  have 1: "table_files M B t = concat (map (\<lambda>(k, xs). k @ xs @ [32]) ?fs)"
    by (simp add: table_files_def comp_def case_prod_unfold)
  have 2: "concat (map table_entry es) = concat (map (\<lambda>(k, xs). k @ xs @ [32]) ?es) @ []"
    by (simp add: table_entry_def [abs_def] comp_def)
  have fs: "\<forall>(k, xs) \<in> set ?fs. length k = 32 \<and> 32 \<notin> set xs" using files by (auto simp: no_space_file_def)
  have es': "\<forall>(k, xs) \<in> set ?es. length k = 32 \<and> 32 \<notin> set xs" using es by (auto simp: no_space_entry_def)
  have "get_fileids_from_transfer [] = Some []" by (simp add: get_fileids_from_transfer.simps)
  then show ?thesis unfolding 1 2 fileids_entries [OF fs] fileids_entries [OF es']
    by (simp add: comp_def case_prod_unfold)
qed

text \<open>
  C22. A closing data function hands its files over. When no block number and no block size contains the byte of a space, the proxy
  accepts the packet a data function sends when it closes, removes the worker from its set and queues a transfer: its tables
  are the table without the eight bytes of counters, its bindings are the files of the cache followed by the files of the
  list entries, and the counters reach the policies.
\<close>

theorem closing_cache_hands_over:
  assumes inv: "lru_inv (ca_lru (df_cache s)) es" and df: "df_close M B h s = Some [Write pack]"
    and files: "\<forall>(k, blocks) \<in> set (chm_range M (ca_map (df_cache s))). length k = 32 \<and> no_space_file B blocks"
    and entries: "\<forall>e \<in> set es. length (ce_file_key e) = 32 \<and> no_space_entry e"
  shows "\<exists>table. get_tables M B (df_cache s) = Some (table @ mem32 (ucast (ca_hits (df_cache s))) @ mem32 (ucast (lr_evictions (ca_lru (df_cache s))))) \<and>
    on_worker_close L w pack l = Some (post [Notify (N_deregistered w (ucast (ca_hits (df_cache s))) (ucast (lr_evictions (ca_lru (df_cache s)))))]
      (l\<lparr>lc_transfers := cq_push (li_queue L) (lc_transfers l)
           \<lparr>tr_file_bindings = map (binding_header \<circ> fst) (chm_range M (ca_map (df_cache s))) @ map (binding_header \<circ> ce_file_key) (rev es),
            tr_cache_tables = pack\<lparr>pk_buf := table\<rparr>\<rparr>,
         lc_worker_set := chm_erase (li_set L) (lc_worker_set l) w\<rparr>))"
proof -
  let ?c = "df_cache s"
  define table where "table = table_files M B (ca_map ?c) @ concat (map table_entry (rev es))"
  define hits where "hits = (ucast (ca_hits ?c) :: u32)"
  define evs where "evs = (ucast (lr_evictions (ca_lru ?c)) :: u32)"
  have t: "get_tables M B ?c = Some (table @ mem32 hits @ mem32 evs)"
    using get_tables_ok [OF inv, of M B] by (simp add: table_def hits_def evs_def)
  then have buf: "pk_buf pack = table @ mem32 hits @ mem32 evs" using df by (auto simp: df_close_def)
  have ids: "get_fileids_from_transfer table =
      Some (map (binding_header \<circ> fst) (chm_range M (ca_map ?c)) @ map (binding_header \<circ> ce_file_key) (rev es))"
    unfolding table_def by (rule fileids_table) (use files entries in auto)
  have "slice (length table) 4 (pk_buf pack) = mem32 hits" "slice (length table + 4) 4 (pk_buf pack) = mem32 evs"
    by (simp_all add: buf slice_def)
  then have "on_worker_close L w pack l = Some (post [Notify (N_deregistered w hits evs)]
      (l\<lparr>lc_transfers := cq_push (li_queue L) (lc_transfers l)
           \<lparr>tr_file_bindings = map (binding_header \<circ> fst) (chm_range M (ca_map ?c)) @ map (binding_header \<circ> ce_file_key) (rev es),
            tr_cache_tables = pack\<lparr>pk_buf := table\<rparr>\<rparr>,
         lc_worker_set := chm_erase (li_set L) (lc_worker_set l) w\<rparr>))"
    using ids buf by (simp add: on_worker_close_def Let_def)
  with t show ?thesis unfolding hits_def evs_def by blast
qed

lemma df_close_packet:
  assumes "lru_inv (ca_lru (df_cache s)) es"
  shows "df_close M B h s = Some [Write \<lparr>pk_header = h\<lparr>ph_type := msg_val Worker_dereg\<rparr>,
    pk_buf = table_files M B (ca_map (df_cache s)) @ concat (map table_entry (rev es)) @
      mem32 (ucast (ca_hits (df_cache s))) @ mem32 (ucast (lr_evictions (ca_lru (df_cache s))))\<rparr>]"
  using get_tables_ok [OF assms, of M B] by (simp add: df_close_def)

lemma mem32_sample: "mem32 3 = [3, 0, 0, 0]" "mem32 32 = [32, 0, 0, 0]" "mem32 4096 = [0, 16, 0, 0]"
proof -
  have 4: "(4 :: nat) = Suc (Suc (Suc (Suc 0)))" by simp
  show "mem32 3 = [3, 0, 0, 0]" "mem32 32 = [32, 0, 0, 0]" "mem32 4096 = [0, 16, 0, 0]"
    unfolding mem32_def 4 le_bytes.simps by simp_all
qed

text \<open>A data function that has cached one block of a file, and what its cache looks like.\<close>

lemma sample_closing:
  obtains s :: "((bytes \<times> nat) list, (endpoint \<times> unit) list, (bytes \<times> (u32 \<times> bytes) list) list) df"
  where "lru_inv (ca_lru (df_cache s)) [sample_entry b]" "ca_hits (df_cache s) = 0"
    "chm_range al_chmap (ca_map (df_cache s)) = [(replicate 32 1, [(b, replicate 4096 7)])]"
    "chm_range al_chmap [(b, replicate 4096 7)] = [(b, replicate 4096 7)]"
proof -
  obtain l where l: "lru_inv l [sample_entry b]"
    using lru_set_new_fits [OF al_chmap_ok al_chmap_ok lru_new [of 8192], of "sample_entry b"]
    by (auto simp: LRUCache_def esize_def sample_entry_def)
  let ?s = "sample_df\<lparr>df_cache := (df_cache sample_df)\<lparr>ca_lru := l, ca_map := [(replicate 32 1, [(b, replicate 4096 7)])]\<rparr>\<rparr>"
  show ?thesis by (rule that [of ?s]) (simp_all add: l df_new_def cache_new_def al_chmap_def)
qed

theorem closing_cache_hands_over_witness:
  "\<exists>s pack table. df_close al_chmap al_chmap sample_header (s :: ((bytes \<times> nat) list, (endpoint \<times> unit) list, (bytes \<times> (u32 \<times> bytes) list) list) df) =
       Some [Write pack] \<and>
     on_worker_close sample_libs 0 pack (launcher_new sample_libs (new_fix_pool 1 1) K_base Lowest_load) =
       Some (post [Notify (N_deregistered 0 0 (ucast (lr_evictions (ca_lru (df_cache s)))))] ((launcher_new sample_libs (new_fix_pool 1 1) K_base Lowest_load)
          \<lparr>lc_transfers := [\<lparr>tr_file_bindings = [binding_header (replicate 32 1), binding_header (replicate 32 1)],
             tr_cache_tables = pack\<lparr>pk_buf := table\<rparr>\<rparr>], lc_worker_set := []\<rparr>))"
proof -
  obtain s :: "((bytes \<times> nat) list, (endpoint \<times> unit) list, (bytes \<times> (u32 \<times> bytes) list) list) df"
    where s: "lru_inv (ca_lru (df_cache s)) [sample_entry 3]" "ca_hits (df_cache s) = 0"
      "chm_range al_chmap (ca_map (df_cache s)) = [(replicate 32 1, [(3, replicate 4096 7)])]"
      "chm_range al_chmap [(3 :: u32, replicate 4096 7 :: bytes)] = [(3, replicate 4096 7)]"
    by (rule sample_closing [of 3])
  obtain pack where p: "df_close al_chmap al_chmap sample_header s = Some [Write pack]"
    using df_close_packet [OF s(1)] by blast
  have "\<forall>(k, blocks) \<in> set (chm_range al_chmap (ca_map (df_cache s))). length k = 32 \<and> no_space_file al_chmap blocks"
    "\<forall>e \<in> set [sample_entry 3]. length (ce_file_key e) = 32 \<and> no_space_entry e"
    by (simp_all add: s(3,4) no_space_file_def no_space_entry_def sample_entry_def mem32_sample)
  note h = closing_cache_hands_over [OF s(1) p this, of sample_libs 0 "launcher_new sample_libs (new_fix_pool 1 1) K_base Lowest_load"]
  have "cq_push (li_queue sample_libs) (lc_transfers (launcher_new sample_libs (new_fix_pool 1 1) K_base Lowest_load)) tr = [tr]"
    "chm_erase (li_set sample_libs) (lc_worker_set (launcher_new sample_libs (new_fix_pool 1 1) K_base Lowest_load)) 0 = []" for tr
    by (simp_all add: sample_libs_def launcher_new_def al_chmap_def list_cqueue_def)
  with h p show ?thesis by (auto simp: s(2,3) sample_entry_def)
qed

text \<open>
  A cached block number 32 breaks the hand-over. The table of a cache that holds just block 32 of a file, whose number contains the byte
  of a space, makes the proxy take a wrong place for the next entry; it then copies 32 bytes behind
  the end of the table.
\<close>

theorem block_32_overreads:
  assumes inv: "lru_inv (ca_lru (df_cache s)) [\<lparr>ce_file_key = k, ce_block_id = 32, ce_data_size = 4096\<rparr>]"
    and one: "chm_range M (ca_map (df_cache s)) = [(k, blocks)]" "chm_range B blocks = [(32, buf)]" "length buf = 4096"
    and k: "length k = 32" "32 \<notin> set k"
  shows "\<exists>pack. df_close M B h s = Some [Write pack] \<and> on_worker_close L w pack l = None"
proof -
  let ?e = "\<lparr>ce_file_key = k, ce_block_id = 32, ce_data_size = 4096\<rparr>"
  let ?table = "table_files M B (ca_map (df_cache s)) @ concat (map table_entry [?e])"
  define k1 where "k1 = take 24 k"
  define k2 where "k2 = drop 24 k"
  have k12: "k = k1 @ k2" "length k1 = 24" "32 \<notin> set k2" using k by (auto simp: k1_def k2_def dest: in_set_dropD)
  have tab: "?table = k @ [58] @ 32 # ([0, 0, 0, 0, 16, 0, 0, 32] @ k1) @ (k2 @ [46]) @ 32 # [0, 0, 0, 0, 16, 0, 0, 32]"
    by (simp add: table_files_def table_entry_def one mem32_sample k12(1))
  have "get_fileids_from_transfer [0, 0, 0, 0, 16, 0, 0, 32] = None" by (simp add: get_fileids_from_transfer.simps)
  then have "get_fileids_from_transfer (([0, 0, 0, 0, 16, 0, 0, 32] @ k1) @ (k2 @ [46]) @ 32 # [0, 0, 0, 0, 16, 0, 0, 32]) = None"
    using fileids_entry [of "[0, 0, 0, 0, 16, 0, 0, 32] @ k1" "k2 @ [46]"] k12(2,3) by simp
  then have none: "get_fileids_from_transfer ?table = None"
    using fileids_entry [OF k(1), of "[58]" "([0, 0, 0, 0, 16, 0, 0, 32] @ k1) @ (k2 @ [46]) @ 32 # [0, 0, 0, 0, 16, 0, 0, 32]"] tab by simp
  show ?thesis using df_close_packet [OF inv, of M B h] none by (auto simp: on_worker_close_def Let_def)
qed

theorem block_32_overreads_witness:
  "\<exists>s pack. df_close al_chmap al_chmap sample_header (s :: ((bytes \<times> nat) list, (endpoint \<times> unit) list, (bytes \<times> (u32 \<times> bytes) list) list) df) =
       Some [Write pack] \<and>
     on_worker_close sample_libs 0 pack (launcher_new sample_libs (new_fix_pool 1 1) K_base Lowest_load) = None"
proof -
  obtain s :: "((bytes \<times> nat) list, (endpoint \<times> unit) list, (bytes \<times> (u32 \<times> bytes) list) list) df"
    where s: "lru_inv (ca_lru (df_cache s)) [sample_entry 32]"
      "chm_range al_chmap (ca_map (df_cache s)) = [(replicate 32 1, [(32, replicate 4096 7)])]"
      "chm_range al_chmap [(32 :: u32, replicate 4096 7 :: bytes)] = [(32, replicate 4096 7)]"
    by (rule sample_closing [of 32])
  from block_32_overreads [OF s(1) [unfolded sample_entry_def] s(2,3), of sample_header sample_libs 0]
  show ?thesis by (intro exI [of _ s]) auto
qed

section \<open>Addresses\<close>

text \<open>
  The address of a data function reaches the client. When a data function registers at a reachable launcher in direct mode, the answer
  the proxy gives for a job on this worker carries exactly the address bytes and the port the data function announced.
\<close>

theorem registered_address_reaches_client:
  assumes ok: "libs_ok L" and run: "launcher_run L es (launcher_new L la ka fk) = Some l" and ip: "length ip_bytes = 4"
  shows "\<exists>l'. add_worker L wid (registration h ip_bytes port) l = Some l' \<and> is_valid l' (length (lc_workers l)) \<and>
    pk_buf (direct_answer L pack (length (lc_workers l)) l') = pk_buf (registration h ip_bytes port) \<and>
    parse_endpoint (pk_buf (direct_answer L pack (length (lc_workers l)) l')) = Some (ip_bytes, port)"
proof -
  let ?w = "length (lc_workers l)"
  have r: "refs L l" using run_keeps(1) [OF ok new_refs [OF ok] run] by blast
  have ep: "parse_endpoint (pk_buf (registration h ip_bytes port)) = Some (ip_bytes, port)"
    using ip by (simp add: parse_endpoint_def registration_def slice_def)
  have fresh: "chm_find (li_set L) (lc_worker_set l) ?w = None" using refs_set [OF r] by force
  obtain l' where l': "add_worker L wid (registration h ip_bytes port) l = Some l'" using ep by (auto simp: add_worker_def Let_def)
  have bind: "lc_worker_set (foldl (add_binding L w) a hs) = lc_worker_set a \<and> lc_workers (foldl (add_binding L w) a hs) = lc_workers a" for w a hs
    by (induction hs arbitrary: a) (auto simp: add_binding_def split: option.splits)
  have "lc_worker_set l' = chm_emplace (li_set L) (lc_worker_set l) ?w (ip_bytes, port)" "is_valid l' ?w"
    using l' ep bind by (auto simp: add_worker_def Let_def worker_write_def is_valid_def split: option.splits prod.splits)
  then have "chm_find (li_set L) (lc_worker_set l') ?w = Some (ip_bytes, port)" "is_valid l' ?w"
    using fresh by (simp_all add: chmap_find_emplace [OF libs_okD(2) [OF ok]])
  then have "pk_buf (direct_answer L pack ?w l') = pk_buf (registration h ip_bytes port)" "is_valid l' ?w"
    by (simp_all add: direct_answer_def registration_def)
  with l' ep show ?thesis by auto
qed

theorem registered_address_reaches_client_witness:
  "\<exists>l'. add_worker sample_libs 9 (registration sample_header [10, 0, 0, 1] 2000)
       (launcher_new sample_libs (new_fix_pool 1 1) K_base Lowest_load) = Some l' \<and>
     parse_endpoint (pk_buf (direct_answer sample_libs sample_trigger 0 l')) = Some ([10, 0, 0, 1], 2000)"
  using registered_address_reaches_client [OF sample_libs_ok, of "[]" "new_fix_pool 1 1" K_base Lowest_load _ "[10, 0, 0, 1]" 9 sample_header 2000 sample_trigger]
  by (auto simp: launcher_new_def)

section \<open>Timers\<close>

text \<open>
  A keep-alive duration reaches the timer. Whatever duration a policy sends, the data function that receives the packet acknowledges it,
  starts no job, leaves its last activity unchanged, and its idle timer then expires that many milliseconds
  after the last activity.
\<close>

theorem keepalive_reaches_timer:
  "\<exists>s'. on_command M B Q P h pad now (send_worker_keepalive h0 salt sequ ms) s =
      Some (s', [Write (ack_packet (send_worker_keepalive h0 salt sequ ms))]) \<and>
    df_waittime s' = unat ms \<and> df_last_update s' = df_last_update s \<and> df_deadline s' = Some (df_last_update s + unat ms) \<and>
    df_cache s' = df_cache s \<and> df_queue_map s' = df_queue_map s"
proof -
  let ?p = "send_worker_keepalive h0 salt sequ ms"
  have t: "ph_type (pk_header ?p) = msg_val Set_timer" by (simp add: send_worker_keepalive_def set_type_def)
  have d: "dispatch M B Q P h pad ?p (start_listen_commands (pk_header ?p) s) = Some (s\<lparr>df_waittime := unat ms\<rparr>, [])"
    unfolding dispatch_def t msg_of_val option.case msg_t.case
    by (simp add: on_set_timer_def start_listen_commands_def set_type_def send_worker_keepalive_def)
  show ?thesis using d t by (simp add: on_command_def timer_reset_def)
qed

section \<open>Reconfiguration\<close>

text \<open>The packet that tells a data function about the proxy that now owns one of its files.\<close>

definition join_packet :: "packet_header \<Rightarrow> worker_endpoint \<Rightarrow> packet" where
  "join_packet h e = \<lparr>pk_header = set_type Proxyjoin h, pk_buf = fst e @ mem16 (hton16 (snd e))\<rparr>"

lemma reconfigure_loop_outs:
  assumes "proxies \<noteq> []"
  shows "reconfigure_loop proxies resolve me bs l = Some (l\<lparr>lc_outs := lc_outs l @
    map (\<lambda>(k, h, w). Send w (join_packet h (resolve (the (proxy_of proxies k)))))
      (filter (\<lambda>(k, h, w). proxy_of proxies k \<noteq> Some me) bs)\<rparr>)"
proof (induction bs arbitrary: l)
  case (Cons b bs)
  obtain k h w where b: "b = (k, h, w)" by (cases b) auto
  have "proxy_of proxies k \<noteq> None" using assms by (cases proxies) (auto simp: proxy_of_def split: option.splits)
  then obtain p where p: "proxy_of proxies k = Some p" by blast
  show ?case using Cons by (simp add: b p start_send_reconfigure_message_def worker_write_def join_packet_def emit_def)
qed simp

text \<open>
  C23. Files move to the proxy that owns them. After a change of the proxies, the launcher writes one join packet for exactly those bound
  files whose key belongs to another proxy, to the worker of the file, in the order of the table; the owner is the first proxy whose id is greater
  than the key, or the first proxy. A data function that receives such a packet connects to
  the address of that proxy unless it already knows it.
\<close>

theorem reconfigure_moves_files:
  assumes "proxies \<noteq> []"
  shows "reconfigure L proxies resolve me l = Some (l\<lparr>lc_outs := lc_outs l @
      map (\<lambda>(k, h, w). Send w (join_packet h (resolve (the (proxy_of proxies k)))))
        (filter (\<lambda>(k, h, w). proxy_of proxies k \<noteq> Some me) (chm_range (fl_files (li_ftw L)) (fw_fileid (lc_ftw l))))\<rparr>) \<and>
    (length (fst e) = 4 \<longrightarrow> on_proxyjoin P (join_packet h e) s = Some
      (let ep = (ntoh32 (of_mem32 (fst e)), snd e) in
       if chm_find P (df_proxies s) ep = None
       then (s\<lparr>df_proxies := chm_emplace P (df_proxies s) ep ()\<rparr>, [Connect ep (df_port s + 1)]) else (s, [])))"
proof (intro conjI impI)
  show "reconfigure L proxies resolve me l = Some (l\<lparr>lc_outs := lc_outs l @
      map (\<lambda>(k, h, w). Send w (join_packet h (resolve (the (proxy_of proxies k)))))
        (filter (\<lambda>(k, h, w). proxy_of proxies k \<noteq> Some me) (chm_range (fl_files (li_ftw L)) (fw_fileid (lc_ftw l))))\<rparr>)"
    unfolding reconfigure_def by (rule reconfigure_loop_outs [OF assms])
  assume "length (fst e) = 4"
  then have "command_endpoint (pk_buf (join_packet h e)) = Some (ntoh32 (of_mem32 (fst e)), snd e)"
    by (simp add: command_endpoint_def join_packet_def)
  then show "on_proxyjoin P (join_packet h e) s = Some
      (let ep = (ntoh32 (of_mem32 (fst e)), snd e) in
       if chm_find P (df_proxies s) ep = None
       then (s\<lparr>df_proxies := chm_emplace P (df_proxies s) ep ()\<rparr>, [Connect ep (df_port s + 1)]) else (s, []))"
    by (simp add: on_proxyjoin_def Let_def)
qed

theorem reconfigure_moves_files_witness:
  "\<exists>l l'. launcher_run sample_libs sample_events (launcher_new sample_libs (new_fix_pool 1 1) K_base Lowest_load) = Some l \<and>
     reconfigure sample_libs [replicate 32 3, replicate 32 9] (\<lambda>p. ([10, 0, 0, 2], 2000)) (replicate 32 3) l = Some l' \<and>
     lc_outs l' = lc_outs l @ [Send 0 (join_packet (job_header l 0) ([10, 0, 0, 2], 2000))] \<and>
     on_proxyjoin al_chmap (join_packet (job_header l 0) ([10, 0, 0, 2], 2000)) sample_df =
       Some (sample_df\<lparr>df_proxies := [((ntoh32 (of_mem32 [10, 0, 0, 2]), 2000), ())]\<rparr>, [Connect (ntoh32 (of_mem32 [10, 0, 0, 2]), 2000) (df_port sample_df + 1)])"
proof -
  let ?ps = "[replicate 32 3, replicate 32 9] :: bytes list"
  define l where "l = the (launcher_run sample_libs sample_events (launcher_new sample_libs (new_fix_pool 1 1) K_base Lowest_load))"
  have l: "launcher_run sample_libs sample_events (launcher_new sample_libs (new_fix_pool 1 1) K_base Lowest_load) = Some l"
    "chm_range (fl_files (li_ftw sample_libs)) (fw_fileid (lc_ftw l)) = [(replicate 32 7, job_header l 0, 0)]"
    unfolding l_def sample_events_def by (simp_all add: launcher_eval set_type_def sample_header_def)
  have "array_less (replicate 32 7) (replicate 32 9)" "\<not> array_less (replicate 32 7) (replicate 32 3)" "replicate 32 9 \<noteq> (replicate 32 3 :: bytes)"
    by (simp_all add: array_less_replicate)
  then have p: "proxy_of ?ps (replicate 32 7) = Some (replicate 32 9)" "replicate 32 9 \<noteq> (replicate 32 3 :: bytes)"
    by (simp_all add: proxy_of_def)
  have "length (fst ([10, 0, 0, 2 :: u8], 2000 :: u16)) = 4" by simp
  note j = reconfigure_moves_files [where proxies = ?ps and L = sample_libs and resolve = "\<lambda>p. ([10, 0, 0, 2], 2000)" and me = "replicate 32 3" and l = l
    and e = "([10, 0, 0, 2], 2000)" and P = al_chmap and h = "job_header l 0" and s = sample_df, unfolded l(2)]
  show ?thesis using l(1) j p by (auto simp: df_new_def al_chmap_def Let_def)
qed

end
