(* ===== verification/Storage_Runs.thy ===== *)
theory Storage_Runs
  imports Storage_Conf
begin

text \<open>
  Complete runs of the storage operations against the block servers: the requests of a job are
  delivered to the backends in order and the responses are handed to its callbacks. \<open>run_write\<close> is a
  write up to the end of its commit phase, \<open>run_read\<close> a read. The lemmas are proved once for every
  server that satisfies \<open>block_server\<close>; the properties state them for the handlers of
  \<open>Ssbd_Server\<close>. A file is seen as a flat array of bytes through \<open>file_byte\<close>.
\<close>

section \<open>Runs\<close>

fun deliver ::
  "(lpacket \<Rightarrow> 's \<Rightarrow> ('s \<times> lpacket) option) \<Rightarrow> (nat \<Rightarrow> 's) \<Rightarrow> (nat \<times> lpacket) list \<Rightarrow>
   ((nat \<Rightarrow> 's) \<times> lpacket list) option" where
  "deliver request srvs [] = Some (srvs, [])"
| "deliver request srvs ((i, p) # ss) =
     (case request (sent p) (srvs i) of
        None \<Rightarrow> None
      | Some (s', r) \<Rightarrow>
          map_option (\<lambda>(srvs', rs). (srvs', r # rs)) (deliver request (srvs(i := s')) ss))"

definition response_type :: "lpacket \<Rightarrow> u16" where
  "response_type r = lh_type (lp_header r)"

definition run_write ::
  "(lpacket \<Rightarrow> 's \<Rightarrow> ('s \<times> lpacket) option) \<Rightarrow> 't filecheckmap \<Rightarrow> (bytes \<Rightarrow> nat \<Rightarrow> nat \<Rightarrow> nat) \<Rightarrow> conf \<Rightarrow>
   (nat \<Rightarrow> 's) \<Rightarrow> 't \<Rightarrow> jinput \<Rightarrow> u32 \<Rightarrow> (u32 \<Rightarrow> bytes) \<Rightarrow> ((nat \<Rightarrow> 's) \<times> 't wjob) option" where
  "run_write request M draw cf srvs checked inp ver salt =
     (case start_2pc_prepare M draw cf checked inp ver salt of
        None \<Rightarrow> None
      | Some (job, ss) \<Rightarrow>
          (case deliver request srvs ss of
             None \<Rightarrow> None
           | Some (srvs1, rs) \<Rightarrow>
               (let job' = foldl (\<lambda>j r. prepare_response M (in_uuid inp) (response_type r) j) job rs
                in case wj_commits job' of
                     [] \<Rightarrow> Some (srvs1, job')
                   | all_agree # _ \<Rightarrow>
                       (case start_2pc_commit draw cf inp all_agree ver salt of
                          None \<Rightarrow> None
                        | Some cs \<Rightarrow> map_option (\<lambda>(srvs2, _). (srvs2, job')) (deliver request srvs1 cs)))))"

definition run_read ::
  "(lpacket \<Rightarrow> 's \<Rightarrow> ('s \<times> lpacket) option) \<Rightarrow> (bytes \<Rightarrow> nat \<Rightarrow> nat \<Rightarrow> nat) \<Rightarrow> conf \<Rightarrow>
   (nat \<Rightarrow> 's) \<Rightarrow> 't \<Rightarrow> jinput \<Rightarrow> (u32 \<Rightarrow> bytes) \<Rightarrow> ((nat \<Rightarrow> 's) \<times> 't rdjob) option" where
  "run_read request draw cf srvs checked inp salt =
     (case start_read draw cf checked inp salt of
        None \<Rightarrow> None
      | Some (job, ss) \<Rightarrow>
          map_option (\<lambda>(srvs', rs).
              (srvs', foldl (\<lambda>j i. read_response i (lp_buf (rs ! i)) j) job [0 ..< length rs]))
            (deliver request srvs ss))"

section \<open>The requests as the server sees them\<close>

definition input_ok :: "conf \<Rightarrow> jinput \<Rightarrow> (u32 \<Rightarrow> bytes) \<Rightarrow> bool" where
  "input_ok cf inp salt \<longleftrightarrow>
     conf_ok cf \<and> length (in_uuid inp) = 32 \<and> (\<forall>b. length (salt b) = 4) \<and>
     in_size inp \<noteq> 0 \<and> unat (in_position inp) + unat (in_size inp) < 2 ^ 32"

abbreviation bkey :: "bytes \<Rightarrow> chunk \<Rightarrow> bytes" where
  "bkey uuid c \<equiv> block_key uuid (ck_block c)"

lemma take_bit_64_u32 [simp]: "take_bit 64 (w :: u32) = w"
  by (simp add: take_bit_word_eq_self)

lemma ucast_32_64_32 [simp]: "ucast (ucast (w :: u32) :: u64) = w"
  by (rule word_unat_eq_iff [THEN iffD2]) (simp add: unsigned_ucast_eq take_bit_nat_eq_self_iff)

lemma ucast_32_64_16: "unat (w :: u32) < 65536 \<Longrightarrow> unat (ucast (ucast w :: u64) :: u16) = unat w"
  by (simp add: unsigned_ucast_eq take_bit_nat_eq_self_iff take_bit_word_eq_self)

text \<open>The header fields of a block request whose offset fits the 16-bit position.\<close>

lemma block_request_fields:
  "kind (block_request s u ty ver c n) = Some ty"
  "as_string (lp_header (block_request s u ty ver c n)) = bkey u c"
  "lh_version (lp_header (block_request s u ty ver c n)) = ver"
  "lh_datasize (lp_header (block_request s u ty ver c n)) = n"
  "lp_buf (block_request s u ty ver c n) = []"
  "length u = 32 \<Longrightarrow> length s = 4 \<Longrightarrow> wf_lheader (lp_header (block_request s u ty ver c n))"
  "unat (ck_offset c) < 65536 \<Longrightarrow>
     unat (lh_position (lp_header (block_request s u ty ver c n))) = unat (ck_offset c)"
  by (simp_all add: block_request_def create_request_def kind_def as_string_def wf_lheader_def
      ucast_32_64_16 lmsg_of_val del: lmsg_val.simps)

lemma sent_fields:
  "as_string (lp_header (sent p)) = as_string (lp_header p)"
  "lh_position (lp_header (sent p)) = lh_position (lp_header p)"
  "lh_version (lp_header (sent p)) = lh_version (lp_header p)"
  "wf_lheader (lp_header (sent p)) = wf_lheader (lp_header p)"
  by (simp_all add: sent_def as_string_def lsized_def wf_lheader_def)

text \<open>One request of each kind, as an abstract step.\<close>

definition chunk_data :: "jinput \<Rightarrow> chunk \<Rightarrow> bytes" where
  "chunk_data inp c = slice (unat (ck_bufoff c)) (unat (ck_size c)) (in_data inp)"

definition chunk_ok :: "conf \<Rightarrow> jinput \<Rightarrow> chunk \<Rightarrow> bool" where
  "chunk_ok cf inp c \<longleftrightarrow> unat (ck_offset c) + unat (ck_size c) \<le> unat (cf_blocksize cf) \<and> 0 < unat (ck_size c)"

lemma chunk_ok_bounds:
  assumes "input_ok cf inp salt" "chunk_ok cf inp c"
  shows "unat (ck_offset c) < 65536" "unat (ck_size c) \<le> 65536" "length (chunk_data inp c) \<le> 65536"
  using assms by (auto simp: input_ok_def conf_ok_def chunk_ok_def chunk_data_def)

lemma request_okI:
  assumes "kind p = Some m" "wf_lheader (lp_header p)" "length (lp_buf p) \<le> 65536"
    and "length (lp_buf p) = (if has_body m then unat (lh_datasize (lp_header p)) else 0)"
  shows "request_ok p"
proof -
  have "unat (lh_position (lp_header p)) < 65536" by simp
  then have "unat (lh_position (lp_header p)) + length (lp_buf p) < 2 ^ 32"
    using assms(3) by (simp del: unat_u16_less)
  then show ?thesis
    using assms(1,2,4) by (simp add: request_ok_def kind_def body_len_eq)
qed

definition staged :: "jinput \<Rightarrow> u32 \<Rightarrow> chunk \<Rightarrow> ablock \<Rightarrow> ablock" where
  "staged inp ver c b = a_stage (unat (ck_offset c)) (chunk_data inp c) ver (a_open b)"

definition refuses :: "bool \<Rightarrow> ablock \<Rightarrow> bool" where
  "refuses quick b \<longleftrightarrow> \<not> quick \<and> pending (ab_log (a_open b))"

definition prepared :: "bool \<Rightarrow> jinput \<Rightarrow> u32 \<Rightarrow> chunk \<Rightarrow> ablock \<Rightarrow> ablock" where
  "prepared quick inp ver c b = (if refuses quick b then a_open b else staged inp ver c b)"

definition finished :: "bool \<Rightarrow> ablock \<Rightarrow> ablock" where
  "finished all_agree b = (if all_agree then a_commit b else a_rollback b)"

lemma prepare_step:
  fixes M checked inp ver salt
  defines "q \<equiv> is_checked M (in_uuid inp) checked"
  assumes "input_ok cf inp salt" "chunk_ok cf inp c"
  defines "p \<equiv> sent (prepare_packet M checked inp ver salt c)"
  shows "request_ok p" and "kind p = Some (if q then Two_pc_prepare_quick else Two_pc_prepare)"
    and "fst (a_step p v) = v(bkey (in_uuid inp) c := prepared q inp ver c (v (bkey (in_uuid inp) c)))"
    and "agrees (response_type (snd (a_step p v))) \<longleftrightarrow> \<not> refuses q (v (bkey (in_uuid inp) c))"
proof -
  let ?m = "if q then Two_pc_prepare_quick else Two_pc_prepare"
  let ?r = "block_request (salt (ck_block c)) (in_uuid inp) ?m ver c (ck_size c)"
  note bounds = chunk_ok_bounds [OF assms(2,3)]
  have pk: "prepare_packet M checked inp ver salt c = ?r\<lparr>lp_buf := chunk_data inp c\<rparr>"
    by (simp add: prepare_packet_def chunk_data_def q_def)
  have k: "kind (?r\<lparr>lp_buf := chunk_data inp c\<rparr>) = Some ?m"
    using block_request_fields(1) by (simp add: kind_def)
  show kind: "kind p = Some ?m" using k by (simp add: p_def pk)
  have hdr: "wf_lheader (lp_header p)" "lp_buf p = chunk_data inp c"
    "unat (lh_datasize (lp_header p)) = length (chunk_data inp c)"
    using assms(2) bounds k
    by (auto simp: p_def pk sent_def lsized_def wf_lheader_def block_request_def create_request_def input_ok_def
        unat_of_nat)
  then show "request_ok p" using kind bounds by (intro request_okI) (auto simp: has_body_def split: if_splits)
  have "as_string (lp_header p) = bkey (in_uuid inp) c"
    "unat (lh_position (lp_header p)) = unat (ck_offset c)" "lh_version (lp_header p) = ver"
    using bounds by (simp_all add: p_def sent_fields pk block_request_fields)
  note st = this hdr kind
  have step: "a_step p v = (v(bkey (in_uuid inp) c := prepared q inp ver c (v (bkey (in_uuid inp) c))),
      \<lparr>lp_header = set_ltype (if refuses q (v (bkey (in_uuid inp) c)) then Two_pc_prepare_abort else Two_pc_prepare_agree)
         (lp_header p), lp_buf = []\<rparr>)"
    by (simp add: a_step_def a_request_def st prepared_def staged_def refuses_def Let_def)
  show "fst (a_step p v) = v(bkey (in_uuid inp) c := prepared q inp ver c (v (bkey (in_uuid inp) c)))"
    by (simp add: step)
  show "agrees (response_type (snd (a_step p v))) \<longleftrightarrow> \<not> refuses q (v (bkey (in_uuid inp) c))"
    by (simp add: step response_type_def set_ltype_def agrees_def lmsg_of_val del: lmsg_val.simps)
qed

lemma commit_step:
  fixes ver flag
  assumes "input_ok cf inp salt" "chunk_ok cf inp c"
  defines "p \<equiv> sent (commit_request inp ver flag (salt (ck_block c)) c)"
  shows "request_ok p" and "kind p = Some (if flag then Two_pc_commit_execute else Two_pc_commit_rollback)"
    and "fst (a_step p v) = v(bkey (in_uuid inp) c := finished flag (v (bkey (in_uuid inp) c)))"
proof -
  let ?m = "if flag then Two_pc_commit_execute else Two_pc_commit_rollback"
  have pk: "commit_request inp ver flag (salt (ck_block c)) c = block_request (salt (ck_block c)) (in_uuid inp) ?m ver c 0"
    by (simp add: commit_request_def)
  show kind: "kind p = Some ?m" by (simp add: p_def pk block_request_fields)
  have hdr: "wf_lheader (lp_header p)" "lp_buf p = []" "lh_datasize (lp_header p) = 0"
    using assms(1)
    by (auto simp: p_def pk sent_def lsized_def wf_lheader_def block_request_def create_request_def input_ok_def
        kind_def lmsg_of_val simp del: lmsg_val.simps)
  then show "request_ok p" using kind by (intro request_okI) auto
  show "fst (a_step p v) = v(bkey (in_uuid inp) c := finished flag (v (bkey (in_uuid inp) c)))"
    using kind hdr
    by (simp add: a_step_def a_request_def p_def sent_fields pk block_request_fields finished_def Let_def)
qed

section \<open>Sequences of requests to distinct blocks\<close>

definition update_all :: "(chunk \<Rightarrow> bytes) \<Rightarrow> (chunk \<Rightarrow> 'b \<Rightarrow> 'b) \<Rightarrow> chunk list \<Rightarrow> (bytes \<Rightarrow> 'b) \<Rightarrow> bytes \<Rightarrow> 'b" where
  "update_all key g cs v = foldl (\<lambda>v c. v(key c := g c (v (key c)))) v cs"

lemma update_all_Cons [simp]:
  "update_all key g (c # cs) v = update_all key g cs (v(key c := g c (v (key c))))"
  "update_all key g [] v = v"
  by (simp_all add: update_all_def)

lemma update_all_other: "k \<notin> key ` set cs \<Longrightarrow> update_all key g cs v k = v k"
  by (induction cs arbitrary: v) auto

lemma update_all_at:
  "distinct (map key cs) \<Longrightarrow> c \<in> set cs \<Longrightarrow> update_all key g cs v (key c) = g c (v (key c))"
proof (induction cs arbitrary: v)
  case (Cons d cs)
  show ?case
  proof (cases "c = d")
    case True
    then show ?thesis using Cons.prems by (simp add: update_all_other)
  next
    case False
    moreover have "key c \<noteq> key d" using Cons.prems False by (auto simp: image_iff)
    ultimately show ?thesis using Cons by simp
  qed
qed simp

lemma session_updates:
  assumes "\<And>c. c \<in> set cs \<Longrightarrow> request_ok (req c) \<and> kind (req c) \<noteq> None \<and> kind (req c) \<noteq> Some L_get"
    and "\<And>c v. c \<in> set cs \<Longrightarrow> fst (a_step (req c) v) = v(key c := g c (v (key c)))"
  shows "session_ok v (map req cs)" and "fst (a_serve v (map req cs)) = update_all key g cs v"
proof -
  have "session_ok v (map req cs) \<and> fst (a_serve v (map req cs)) = update_all key g cs v"
    using assms
  proof (induction cs arbitrary: v)
    case (Cons c cs)
    have upd: "fst (a_step (req c) v) = v(key c := g c (v (key c)))" by (rule Cons.prems(2)) simp
    have "session_ok (fst (a_step (req c) v)) (map req cs) \<and>
        fst (a_serve (fst (a_step (req c) v)) (map req cs)) = update_all key g cs (fst (a_step (req c) v))"
      by (rule Cons.IH) (use Cons.prems in auto)
    with Cons.prems(1) [of c] upd show ?case by (simp add: Let_def case_prod_unfold)
  qed simp
  then show "session_ok v (map req cs)" "fst (a_serve v (map req cs)) = update_all key g cs v" by auto
qed

lemma session_agrees:
  assumes "distinct (map key cs)"
    and "\<And>c v. c \<in> set cs \<Longrightarrow> fst (a_step (req c) v) = v(key c := g c (v (key c)))"
    and "\<And>c v. c \<in> set cs \<Longrightarrow> agrees (response_type (snd (a_step (req c) v))) \<longleftrightarrow> \<not> R (v (key c))"
  shows "list_all agrees (map response_type (snd (a_serve v (map req cs)))) \<longleftrightarrow> (\<forall>c \<in> set cs. \<not> R (v (key c)))"
  using assms
proof (induction cs arbitrary: v)
  case (Cons c cs)
  have "key d \<noteq> key c" if "d \<in> set cs" for d
    using Cons.prems(1) that by (auto simp: image_iff)
  then have same: "(\<forall>d \<in> set cs. \<not> R ((v(key c := g c (v (key c)))) (key d))) \<longleftrightarrow> (\<forall>d \<in> set cs. \<not> R (v (key d)))"
    by simp
  have upd: "fst (a_step (req c) v) = v(key c := g c (v (key c)))"
    by (rule Cons.prems(2)) simp
  have rest: "list_all agrees (map response_type (snd (a_serve (fst (a_step (req c) v)) (map req cs)))) \<longleftrightarrow>
      (\<forall>d \<in> set cs. \<not> R (v (key d)))"
    unfolding upd same [symmetric] by (rule Cons.IH) (use Cons.prems in auto)
  have "agrees (response_type (snd (a_step (req c) v))) \<longleftrightarrow> \<not> R (v (key c))"
    by (rule Cons.prems(3)) simp
  with rest show ?case by (simp add: Let_def case_prod_unfold)
qed simp

lemma length_a_serve: "length (snd (a_serve v ps)) = length ps"
proof (induction ps arbitrary: v)
  case (Cons p ps)
  from Cons [of "fst (a_step p v)"] show ?case by (simp add: Let_def case_prod_unfold)
qed simp

lemma deliver_same_host:
  "requests request (srvs h) (map sent ps) = Some (s', rs) \<Longrightarrow>
   deliver request srvs (map (\<lambda>p. (h, p)) ps) = Some (srvs(h := s'), rs)"
proof (induction ps arbitrary: srvs rs)
  case (Cons p ps)
  then obtain s1 r rs' where r: "request (sent p) (srvs h) = Some (s1, r)"
    "requests request s1 (map sent ps) = Some (s', rs')" "rs = r # rs'"
    by (auto split: option.splits)
  from r(2) have "requests request ((srvs(h := s1)) h) (map sent ps) = Some (s', rs')" by simp
  from Cons.IH [where srvs = "srvs(h := s1)", OF this]
  have "deliver request (srvs(h := s1)) (map (\<lambda>p. (h, p)) ps) = Some (srvs(h := s'), rs')"
    by (simp only: fun_upd_upd)
  with r(1,3) show ?case by (simp add: fun_upd_def)
qed auto

lemma bkey_inject: "block_key u b = block_key u b' \<longleftrightarrow> b = b'"
  using block_key_suffix_inject [of u u "[]" "[]" b b'] by auto

lemma bkey_distinct: "distinct (map ck_block cs) \<Longrightarrow> distinct (map (bkey u) cs)"
  by (auto simp: distinct_map inj_on_def bkey_inject)

section \<open>Runs against a block server\<close>

definition plan :: "conf \<Rightarrow> jinput \<Rightarrow> chunk list \<Rightarrow> bool" where
  "plan cf inp cs \<longleftrightarrow>
     in_chunks cf inp = Some cs \<and> cs \<noteq> [] \<and> distinct (map ck_block cs) \<and>
     tiles (unat (cf_blocksize cf)) (unat (in_position inp)) (unat (in_position inp) + unat (in_size inp)) 0 cs \<and>
     (\<forall>c \<in> set cs. chunk_ok cf inp c \<and> unat (ck_bufoff c) + unat (ck_size c) \<le> unat (in_size inp))"

lemma input_plan:
  assumes "input_ok cf inp salt"
  obtains cs where "plan cf inp cs"
proof -
  from assms have bs: "cf_blocksize cf \<noteq> 0" "0 < unat (cf_blocksize cf)"
    and range: "unat (in_position inp) + unat (in_size inp) < 2 ^ 32" and n: "0 < unat (in_size inp)"
    by (auto simp: input_ok_def conf_ok_def unat_gt_0)
  from chunks_tile [OF bs(1) range] obtain cs where cs: "in_chunks cf inp = Some cs"
    "tiles (unat (cf_blocksize cf)) (unat (in_position inp)) (unat (in_position inp) + unat (in_size inp)) 0 cs"
    by (metis in_chunks_def)
  have "plan cf inp cs"
    using cs tiles_empty [OF cs(2)] n tiles_distinct [OF cs(2) bs(2)] tiles_member [OF cs(2)]
    by (auto simp: plan_def chunk_ok_def)
  then show thesis by (rule that)
qed

definition all_agree :: "bool \<Rightarrow> (bytes \<Rightarrow> ablock) \<Rightarrow> bytes \<Rightarrow> chunk list \<Rightarrow> bool" where
  "all_agree q v u cs \<longleftrightarrow> (\<forall>c \<in> set cs. \<not> refuses q (v (bkey u c)))"

context block_server
begin

lemma prepare_run:
  fixes checked ver
  assumes "chmap_ok M" "draw_ok draw" "input_ok cf inp salt" "unat (in_size inp) \<le> length (in_data inp)"
    and plan: "plan cf inp cs"
  defines "h \<equiv> primary draw cf (in_uuid inp)" and "u \<equiv> in_uuid inp"
    and "q \<equiv> is_checked M (in_uuid inp) checked"
  assumes inv: "inv (srvs h)"
  defines "ok \<equiv> all_agree q (view (srvs h)) u cs"
  shows "\<exists>job ss s1 rs. start_2pc_prepare M draw cf checked inp ver salt = Some (job, ss) \<and>
    deliver request srvs ss = Some (srvs(h := s1), rs) \<and> inv s1 \<and>
    agree (view s1) (update_all (bkey u) (prepared q inp ver) cs (view (srvs h))) \<and>
    (let job' = foldl (\<lambda>j r. prepare_response M u (response_type r) j) job rs
     in wj_replies job' = [if ok then str ''OK'' else str ''Error: Found Pending 2PC Log''] \<and> wj_commits job' = [ok])"
proof -
  let ?v = "view (srvs h)" and ?pq = "prepare_packet M checked inp ver salt"
  have cs: "in_chunks cf inp = Some cs" "cs \<noteq> []" "distinct (map ck_block cs)"
    "\<And>c. c \<in> set cs \<Longrightarrow> chunk_ok cf inp c" "\<And>c. c \<in> set cs \<Longrightarrow> unat (ck_bufoff c) + unat (ck_size c) \<le> unat (in_size inp)"
    using plan by (auto simp: plan_def)
  have conf: "conf_ok cf" using assms(3) by (simp add: input_ok_def)
  note step = prepare_step [OF assms(3) cs(4), where M = M and checked = checked and ver = ver, folded q_def u_def]
  have sess: "session_ok ?v (map (\<lambda>c. sent (?pq c)) cs)"
    "fst (a_serve ?v (map (\<lambda>c. sent (?pq c)) cs)) = update_all (bkey u) (prepared q inp ver) cs ?v"
    by (rule session_updates; use step(1-3) in simp)+
  have agr: "list_all agrees (map response_type (snd (a_serve ?v (map (\<lambda>c. sent (?pq c)) cs)))) \<longleftrightarrow> ok"
    unfolding ok_def all_agree_def by (rule session_agrees [OF bkey_distinct [OF cs(3)] step(3,4)])
  from requests_simulate [OF inv agree_refl sess(1)] sess(2) obtain s1 rs where
    d1: "requests request (srvs h) (map sent (map ?pq cs)) = Some (s1, rs)" "inv s1"
      "agree (view s1) (update_all (bkey u) (prepared q inp ver) cs ?v)"
      "list_all agrees (map response_type rs) \<longleftrightarrow> ok" "length rs = length cs"
    using agr by (auto simp: comp_def length_a_serve)
  define job where "job = \<lparr>wj_todo = [], wj_outstanding = int (length cs), wj_agree = True, wj_timer = True,
      wj_checked = checked, wj_replies = [], wj_commits = []\<rparr>"
  have "\<forall>c \<in> set cs. unat (ck_bufoff c) + unat (ck_size c) \<le> length (in_data inp)"
    using cs(5) assms(4) by fastforce
  then have start: "start_2pc_prepare M draw cf checked inp ver salt = Some (job, map (\<lambda>p. (h, p)) (map ?pq cs))"
    using prepare_loop_sends [OF assms(2) conf, of "job\<lparr>wj_todo := cs, wj_outstanding := 0\<rparr>" inp M ver salt]
    by (simp add: start_2pc_prepare_def prepare_start_def cs(1) job_def h_def comp_def)
  have "foldl (\<lambda>j r. prepare_response M u (response_type r) j) job rs =
      foldl (\<lambda>j ty. prepare_response M u ty j) job (map response_type rs)"
    by (simp add: foldl_map)
  moreover have "map response_type rs \<noteq> []" "wj_outstanding job = int (length (map response_type rs))"
    using d1(5) cs(2) by (auto simp: job_def)
  note prepare_responses [OF this, of M u]
  ultimately have "let job' = foldl (\<lambda>j r. prepare_response M u (response_type r) j) job rs
     in wj_replies job' = [if ok then str ''OK'' else str ''Error: Found Pending 2PC Log''] \<and> wj_commits job' = [ok]"
    using d1(4) by (simp add: job_def Let_def)
  with start d1(2,3) deliver_same_host [where request = request and h = h and srvs = srvs, OF d1(1)]
  show ?thesis by blast
qed

lemma commit_run:
  fixes ver flag
  assumes "draw_ok draw" "input_ok cf inp salt" and plan: "plan cf inp cs"
  defines "h \<equiv> primary draw cf (in_uuid inp)" and "u \<equiv> in_uuid inp"
  assumes inv: "inv (srvs h)" and agr: "agree (view (srvs h)) v"
  shows "\<exists>ss s2 rs. start_2pc_commit draw cf inp flag ver salt = Some ss \<and>
    deliver request srvs ss = Some (srvs(h := s2), rs) \<and> inv s2 \<and>
    agree (view s2) (update_all (bkey u) (\<lambda>_. finished flag) cs v)"
proof -
  let ?cq = "\<lambda>c. commit_request inp ver flag (salt (ck_block c)) c"
  have cs: "in_chunks cf inp = Some cs" "\<And>c. c \<in> set cs \<Longrightarrow> chunk_ok cf inp c"
    using plan by (auto simp: plan_def)
  have conf: "conf_ok cf" using assms(2) by (simp add: input_ok_def)
  note step = commit_step [OF assms(2) cs(2), where ver = ver and flag = flag, folded u_def]
  have sess: "session_ok v (map (\<lambda>c. sent (?cq c)) cs)"
    "fst (a_serve v (map (\<lambda>c. sent (?cq c)) cs)) = update_all (bkey u) (\<lambda>_. finished flag) cs v"
    by (rule session_updates; use step in simp)+
  from requests_simulate [OF inv agr sess(1)] sess(2) obtain s2 rs where
    d2: "requests request (srvs h) (map sent (map ?cq cs)) = Some (s2, rs)" "inv s2"
      "agree (view s2) (update_all (bkey u) (\<lambda>_. finished flag) cs v)"
    by (auto simp: comp_def)
  have "start_2pc_commit draw cf inp flag ver salt = Some (map (\<lambda>p. (h, p)) (map ?cq cs))"
    using at_backends_const [OF primary_host(1) [OF assms(1) conf]] by (simp add: start_2pc_commit_def cs(1) h_def comp_def)
  with d2(2,3) deliver_same_host [where request = request and h = h and srvs = srvs, OF d2(1)]
  show ?thesis by blast
qed

lemma write_run:
  fixes checked ver
  assumes "chmap_ok M" "draw_ok draw" "input_ok cf inp salt" "unat (in_size inp) \<le> length (in_data inp)"
    and plan: "plan cf inp cs"
  defines "h \<equiv> primary draw cf (in_uuid inp)" and "u \<equiv> in_uuid inp"
    and "q \<equiv> is_checked M (in_uuid inp) checked"
  assumes inv: "inv (srvs h)"
  defines "ok \<equiv> all_agree q (view (srvs h)) u cs"
  obtains s' job where "run_write request M draw cf srvs checked inp ver salt = Some (srvs(h := s'), job)" "inv s'"
    "wj_replies job = [if ok then str ''OK'' else str ''Error: Found Pending 2PC Log'']"
    "\<And>c. c \<in> set cs \<Longrightarrow> view s' (bkey u c) = finished ok (prepared q inp ver c (view (srvs h) (bkey u c)))"
    "\<And>k. is_block_key k \<Longrightarrow> k \<notin> bkey u ` set cs \<Longrightarrow> view s' k = view (srvs h) k"
proof -
  let ?v1 = "update_all (bkey u) (prepared q inp ver) cs (view (srvs h))"
  from prepare_run [where srvs = srvs and checked = checked and ver = ver, OF assms(1-4) plan inv [unfolded h_def]]
  obtain job ss s1 rs where p: "start_2pc_prepare M draw cf checked inp ver salt = Some (job, ss)"
    "deliver request srvs ss = Some (srvs(h := s1), rs)" "inv s1" "agree (view s1) ?v1"
    "wj_replies (foldl (\<lambda>j r. prepare_response M u (response_type r) j) job rs) =
       [if ok then str ''OK'' else str ''Error: Found Pending 2PC Log'']"
    "wj_commits (foldl (\<lambda>j r. prepare_response M u (response_type r) j) job rs) = [ok]"
    unfolding h_def u_def q_def ok_def Let_def by blast
  from commit_run [where srvs = "srvs(h := s1)" and v = ?v1 and flag = ok and ver = ver, OF assms(2,3) plan] p(3,4)
  obtain cc s2 rs2 where c: "start_2pc_commit draw cf inp ok ver salt = Some cc"
    "deliver request (srvs(h := s1)) cc = Some (srvs(h := s2), rs2)" "inv s2"
    "agree (view s2) (update_all (bkey u) (\<lambda>_. finished ok) cs ?v1)"
    by (auto simp: h_def u_def)
  have "distinct (map (bkey u) cs)" using plan by (auto simp: plan_def intro: bkey_distinct)
  note at = update_all_at [OF this]
  have key: "is_block_key (bkey u c)" for c using assms(3) by (simp add: input_ok_def u_def)
  show thesis
  proof
    show "run_write request M draw cf srvs checked inp ver salt =
        Some (srvs(h := s2), foldl (\<lambda>j r. prepare_response M u (response_type r) j) job rs)"
      using p(1,2,6) c(1,2) by (simp add: run_write_def u_def Let_def)
    show "view s2 (bkey u c) = finished ok (prepared q inp ver c (view (srvs h) (bkey u c)))" if "c \<in> set cs" for c
      using c(4) key [of c]
      by (simp add: agree_def at [OF that, of "\<lambda>_. finished ok"] at [OF that, of "prepared q inp ver"])
    show "view s2 k = view (srvs h) k" if "is_block_key k" "k \<notin> bkey u ` set cs" for k
      using c(4) that by (simp add: agree_def update_all_other)
  qed (use c(3) p(5) in auto)
qed

end

section \<open>Files of the cluster\<close>

text \<open>The content of block \<open>b\<close> of a file, as its primary server stores it.\<close>

definition stored ::
  "('s \<Rightarrow> bytes \<Rightarrow> ablock) \<Rightarrow> (bytes \<Rightarrow> nat \<Rightarrow> nat \<Rightarrow> nat) \<Rightarrow> conf \<Rightarrow> (nat \<Rightarrow> 's) \<Rightarrow> bytes \<Rightarrow> nat \<Rightarrow> bytes" where
  "stored vw draw cf srvs u b = a_content (vw (srvs (primary draw cf u)) (block_key u (of_nat b)))"

lemma file_byte_cong: "f (a div bs) = g (a div bs) \<Longrightarrow> file_byte bs f a = file_byte bs g a"
  by (simp add: file_byte_def)

lemma patch_chunks_other: "b \<notin> (\<lambda>c. unat (ck_block c)) ` set cs \<Longrightarrow> patch_chunks data cs f b = f b"
  by (induction cs arbitrary: f) auto

lemma patch_chunks_at:
  "distinct (map ck_block cs) \<Longrightarrow> c \<in> set cs \<Longrightarrow>
   patch_chunks data cs f (unat (ck_block c)) =
     patch (unat (ck_offset c)) (slice (unat (ck_bufoff c)) (unat (ck_size c)) data) (f (unat (ck_block c)))"
proof (induction cs arbitrary: f)
  case (Cons d cs)
  show ?case
  proof (cases "c = d")
    case True
    then have "unat (ck_block c) \<notin> (\<lambda>c. unat (ck_block c)) ` set cs"
      using Cons.prems(1) by (auto simp: image_iff word_unat_eq_iff)
    with True show ?thesis by (simp add: patch_chunks_other)
  next
    case False
    then have "unat (ck_block c) \<noteq> unat (ck_block d)"
      using Cons.prems by (auto simp: image_iff word_unat_eq_iff)
    with False Cons show ?thesis by simp
  qed
qed simp

lemma content_committed:
  "\<not> refuses q b \<Longrightarrow> a_content (finished True (prepared q inp ver c b)) =
     patch (unat (ck_offset c)) (chunk_data inp c) (a_content b)"
  by (simp add: finished_def prepared_def staged_def a_commit_stage) (simp add: a_content_def)

lemma content_rolled_back: "a_content (finished False (prepared q inp ver c b)) = a_content b"
proof -
  have "a_content (a_rollback b') = a_content b'" "a_content (a_stage pos d v b') = a_content b'" for b' pos d v
    by (simp_all add: a_content_def a_rollback_def a_stage_def)
  then show ?thesis by (simp add: finished_def prepared_def staged_def)
qed

text \<open>The blocks of a write whose primary has moved from \<open>s\<close> to \<open>s'\<close>, as a whole file.\<close>

lemma stored_after_write:
  assumes plan: "plan cf inp cs" and len: "length (in_uuid inp) = 32" "length u = 32"
    and at: "\<And>c. c \<in> set cs \<Longrightarrow> a_content (vw s' (bkey (in_uuid inp) c)) =
      (if ok then patch (unat (ck_offset c)) (chunk_data inp c) (a_content (vw (srvs (primary draw cf (in_uuid inp))) (bkey (in_uuid inp) c)))
       else a_content (vw (srvs (primary draw cf (in_uuid inp))) (bkey (in_uuid inp) c)))"
    and other: "\<And>k. is_block_key k \<Longrightarrow> k \<notin> bkey (in_uuid inp) ` set cs \<Longrightarrow>
      vw s' k = vw (srvs (primary draw cf (in_uuid inp))) k"
    and b: "b < 2 ^ 32"
  shows "stored vw draw cf (srvs(primary draw cf (in_uuid inp) := s')) u b =
    (if ok \<and> u = in_uuid inp then patch_chunks (in_data inp) cs (stored vw draw cf srvs u) b
     else stored vw draw cf srvs u b)"
proof -
  let ?h = "primary draw cf (in_uuid inp)" and ?k = "block_key u (of_nat b)"
  have key: "is_block_key ?k" using len(2) by simp
  have "unat (of_nat b :: u32) = b" using b by (simp add: unat_of_nat)
  then have bk: "?k = bkey (in_uuid inp) c \<longleftrightarrow> u = in_uuid inp \<and> unat (ck_block c) = b" for c
    using block_key_suffix_inject [of u "in_uuid inp" "[]" "[]" "of_nat b" "ck_block c"] len by auto
  show ?thesis
  proof (cases "u = in_uuid inp \<and> b \<in> (\<lambda>c. unat (ck_block c)) ` set cs")
    case True
    then obtain c where c: "c \<in> set cs" "unat (ck_block c) = b" and u: "u = in_uuid inp" by auto
    then have "?k = bkey (in_uuid inp) c" using bk by blast
    moreover have "distinct (map ck_block cs)" using plan by (simp add: plan_def)
    from patch_chunks_at [OF this c(1), of "in_data inp" "stored vw draw cf srvs u"]
    have "patch_chunks (in_data inp) cs (stored vw draw cf srvs u) b =
        patch (unat (ck_offset c)) (chunk_data inp c) (stored vw draw cf srvs u b)"
      by (simp add: c(2) chunk_data_def)
    ultimately show ?thesis using at [OF c(1)] u by (simp add: stored_def)
  next
    case False
    then have "?k \<notin> bkey (in_uuid inp) ` set cs" using bk by (auto simp: image_iff)
    with other [OF key] have "stored vw draw cf (srvs(?h := s')) u b = stored vw draw cf srvs u b"
      by (simp add: stored_def)
    moreover have "u = in_uuid inp \<Longrightarrow> patch_chunks (in_data inp) cs (stored vw draw cf srvs u) b = stored vw draw cf srvs u b"
      using False by (intro patch_chunks_other) auto
    ultimately show ?thesis by auto
  qed
qed

section \<open>Properties\<close>

lemma content_finished:
  assumes "ok \<Longrightarrow> \<not> refuses q b"
  shows "a_content (finished ok (prepared q inp ver c b)) =
    (if ok then patch (unat (ck_offset c)) (chunk_data inp c) (a_content b) else a_content b)"
  using assms by (cases ok) (simp_all add: content_committed content_rolled_back)

lemma written_bytes:
  assumes "tiles bs pos (pos + n) 0 cs" "n \<le> length data" "a < 2 ^ 32"
    and st: "\<And>b. b < 2 ^ 32 \<Longrightarrow> f' b = (if ok then patch_chunks data cs f b else f b)"
  shows "file_byte bs f' a = (if ok \<and> pos \<le> a \<and> a < pos + n then data ! (a - pos) else file_byte bs f a)"
proof -
  have "a div bs < 2 ^ 32" using assms(3) by (rule le_less_trans [OF div_le_dividend])
  from st [OF this] have "file_byte bs f' a = (if ok then file_byte bs (patch_chunks data cs f) a else file_byte bs f a)"
    by (auto intro: file_byte_cong)
  with patch_chunks_tiles [OF assms(1), of data f a] assms(2) show ?thesis by simp
qed

text \<open>
  C2. Writes are atomic. A write of a non-empty range below 4 GiB, run against block servers in any state
  that satisfies their invariant, is always answered. Either no block of the range has a pending write of
  somebody else (or the file is marked checked): then the reply is \<^verbatim>\<open>OK\<close>, and the file, as a flat array
  of bytes, has the new data on exactly the written range. Or the reply is the error, and the file
  is unchanged. No other file changes, and the servers keep their invariant.
\<close>

theorem write_is_atomic:
  fixes inp :: jinput and cf :: conf
  defines "u \<equiv> in_uuid inp" and "pos \<equiv> unat (in_position inp)" and "n \<equiv> unat (in_size inp)"
    and "bs \<equiv> unat (cf_blocksize cf)"
  assumes "leveldb_ok L" "chmap_ok M" "draw_ok draw" "input_ok cf inp salt" "n \<le> length (in_data inp)"
    and inv: "\<forall>i. ssbd_inv L (srvs i)"
  shows "\<exists>cs srvs' job. in_chunks cf inp = Some cs \<and>
    run_write (ssbd_request L) M draw cf srvs checked inp ver salt = Some (srvs', job) \<and> (\<forall>i. ssbd_inv L (srvs' i)) \<and>
    (if all_agree (is_checked M u checked) (view L (srvs (primary draw cf u))) u cs
     then wj_replies job = [str ''OK''] \<and>
       (\<forall>a < 2 ^ 32. file_byte bs (stored (view L) draw cf srvs' u) a =
          (if pos \<le> a \<and> a < pos + n then in_data inp ! (a - pos)
           else file_byte bs (stored (view L) draw cf srvs u) a))
     else wj_replies job = [str ''Error: Found Pending 2PC Log''] \<and>
       (\<forall>a < 2 ^ 32. file_byte bs (stored (view L) draw cf srvs' u) a = file_byte bs (stored (view L) draw cf srvs u) a)) \<and>
    (\<forall>u' b. length u' = 32 \<and> u' \<noteq> u \<and> b < 2 ^ 32 \<longrightarrow>
       stored (view L) draw cf srvs' u' b = stored (view L) draw cf srvs u' b)"
proof -
  let ?h = "primary draw cf u"
  obtain cs where plan: "plan cf inp cs" using assms(8) by (rule input_plan)
  have srv: "block_server (ssbd_request L) (view L) (ssbd_inv L)"
    using assms(5) by (rule ssbd_is_block_server)
  define ok where "ok = all_agree (is_checked M u checked) (view L (srvs ?h)) u cs"
  have data: "unat (in_size inp) \<le> length (in_data inp)" using assms(9) by (simp add: n_def)
  obtain s' job where run: "run_write (ssbd_request L) M draw cf srvs checked inp ver salt = Some (srvs(?h := s'), job)"
    "ssbd_inv L s'" "wj_replies job = [if ok then str ''OK'' else str ''Error: Found Pending 2PC Log'']"
    "\<And>c. c \<in> set cs \<Longrightarrow> view L s' (bkey u c) =
       finished ok (prepared (is_checked M u checked) inp ver c (view L (srvs ?h) (bkey u c)))"
    "\<And>k. is_block_key k \<Longrightarrow> k \<notin> bkey u ` set cs \<Longrightarrow> view L s' k = view L (srvs ?h) k"
    using block_server.write_run [where srvs = srvs and checked = checked and ver = ver,
        OF srv assms(6,7,8) data plan] inv unfolding ok_def u_def by blast
  have at: "a_content (view L s' (bkey u c)) =
      (if ok then patch (unat (ck_offset c)) (chunk_data inp c) (a_content (view L (srvs ?h) (bkey u c)))
       else a_content (view L (srvs ?h) (bkey u c)))" if "c \<in> set cs" for c
    unfolding run(4) [OF that] by (rule content_finished) (use that in \<open>simp add: ok_def all_agree_def\<close>)
  have len: "length u = 32" using assms(8) by (simp add: input_ok_def u_def)
  have st: "stored (view L) draw cf (srvs(?h := s')) u' b =
      (if ok \<and> u' = u then patch_chunks (in_data inp) cs (stored (view L) draw cf srvs u') b
       else stored (view L) draw cf srvs u' b)" if "length u' = 32" "b < 2 ^ 32" for u' b
    unfolding u_def
    by (rule stored_after_write [OF plan]) (use at run(5) len that in \<open>auto simp: u_def\<close>)
  have tiles: "tiles bs pos (pos + n) 0 cs" using plan by (simp add: plan_def bs_def pos_def n_def)
  have "file_byte bs (stored (view L) draw cf (srvs(?h := s')) u) a =
      (if ok \<and> pos \<le> a \<and> a < pos + n then in_data inp ! (a - pos) else file_byte bs (stored (view L) draw cf srvs u) a)"
    if "a < 2 ^ 32" for a
    using written_bytes [OF tiles assms(9) that] st [OF len] by simp
  with run st inv plan show ?thesis
    by (intro exI [of _ cs] exI [of _ "srvs(?h := s')"] exI [of _ job]) (auto simp: ok_def plan_def)
qed

lemma sample_input_ok: "input_ok sample_conf (sample_input oper 3 6 data) (\<lambda>b. [1, 2, 3, 4])"
  by (simp add: input_ok_def sample_conf_ok) (simp add: sample_input_def in_size_def in_position_def)

theorem write_is_atomic_witness:
  "\<exists>srvs' job. run_write (ssbd_request mem_leveldb) al_chmap (\<lambda>u n k. 0) sample_conf (\<lambda>i. empty_ssbd) []
      (sample_input Op_write 3 6 [1, 2, 3, 4, 5, 6]) 9 (\<lambda>b. [1, 2, 3, 4]) = Some (srvs', job) \<and>
    wj_replies job = [str ''OK''] \<and>
    file_byte 4 (stored (view mem_leveldb) (\<lambda>u n k. 0) sample_conf srvs' (replicate 32 65)) 5 = 3"
proof -
  let ?inp = "sample_input Op_write 3 6 [1, 2, 3, 4, 5, 6]"
  have agr: "all_agree q (view mem_leveldb empty_ssbd) u cs" for q u cs
    by (simp add: all_agree_def refuses_def view_empty_ssbd a_open_def fresh_log_def pending_def)
  have f: "in_uuid ?inp = replicate 32 65" "unat (in_position ?inp) = 3" "unat (in_size ?inp) = 6"
    "in_data ?inp = [1, 2, 3, 4, 5, 6]" "unat (cf_blocksize sample_conf) = 4"
    by (simp_all add: sample_input_def in_position_def in_size_def sample_conf_def conf_init_def)
  show ?thesis
    using write_is_atomic [where srvs = "\<lambda>i. empty_ssbd" and inp = ?inp and ver = 9 and checked = "[]",
        OF mem_leveldb_ok al_chmap_ok draw_zero_ok sample_input_ok] empty_ssbd_inv
    unfolding f by (auto simp: agr)
qed

section \<open>Runs of reads\<close>

definition chunk_reply :: "(bytes \<Rightarrow> ablock) \<Rightarrow> bytes \<Rightarrow> chunk \<Rightarrow> bytes" where
  "chunk_reply v u c =
     (case ab_content (v (bkey u c)) of None \<Rightarrow> [] | Some x \<Rightarrow> a_read (unat (ck_offset c)) (unat (ck_size c)) x)"

definition chunk_readable :: "(bytes \<Rightarrow> ablock) \<Rightarrow> bytes \<Rightarrow> chunk \<Rightarrow> bool" where
  "chunk_readable v u c \<longleftrightarrow>
     (case ab_content (v (bkey u c)) of None \<Rightarrow> True | Some x \<Rightarrow> unat (ck_offset c) \<le> length x)"

lemma read_step:
  assumes "input_ok cf inp salt" "chunk_ok cf inp c" "chunk_readable v (in_uuid inp) c"
  defines "p \<equiv> sent (read_request inp (salt (ck_block c)) c)"
  shows "request_ok p" and "kind p = Some L_get" and "read_inside p (v (as_string (lp_header p)))"
    and "fst (a_step p v) = v" and "lp_buf (snd (a_step p v)) = chunk_reply v (in_uuid inp) c"
proof -
  let ?r = "block_request (salt (ck_block c)) (in_uuid inp) L_get 0 c (ck_size c)"
  note bounds = chunk_ok_bounds [OF assms(1,2)]
  have pk: "p = ?r\<lparr>lp_buf := []\<rparr>"
    by (simp add: p_def read_request_def sent_def block_request_fields(1))
  show kind: "kind p = Some L_get" by (simp add: p_def read_request_def block_request_fields(1))
  have hdr: "wf_lheader (lp_header p)" "lp_buf p = []" "as_string (lp_header p) = bkey (in_uuid inp) c"
    "unat (lh_position (lp_header p)) = unat (ck_offset c)" "lh_datasize (lp_header p) = ck_size c"
    using assms(1) bounds by (auto simp: pk input_ok_def block_request_fields)
  then show "request_ok p" using kind by (intro request_okI) (auto simp: has_body_def)
  show "read_inside p (v (as_string (lp_header p)))"
    using assms(3) by (simp add: read_inside_def chunk_readable_def hdr split: option.splits)
  show "fst (a_step p v) = v" "lp_buf (snd (a_step p v)) = chunk_reply v (in_uuid inp) c"
    by (simp_all add: a_step_def a_request_def kind hdr chunk_reply_def Let_def split: option.splits)
qed

lemma session_reads:
  assumes "\<And>c. c \<in> set cs \<Longrightarrow> request_ok (req c) \<and> kind (req c) = Some L_get \<and>
      read_inside (req c) (v (as_string (lp_header (req c)))) \<and> fst (a_step (req c) v) = v"
  shows "session_ok v (map req cs)" and "fst (a_serve v (map req cs)) = v"
    and "snd (a_serve v (map req cs)) = map (\<lambda>c. snd (a_step (req c) v)) cs"
  using assms by (induction cs) (auto simp: Let_def case_prod_unfold)

context block_server
begin

lemma read_run:
  fixes checked :: 't
  assumes "draw_ok draw" "input_ok cf inp salt" and plan: "plan cf inp cs"
  defines "h \<equiv> primary draw cf (in_uuid inp)" and "u \<equiv> in_uuid inp"
  assumes inv: "inv (srvs h)" and readable: "\<forall>c \<in> set cs. chunk_readable (view (srvs h)) u c"
  shows "\<exists>s' job. run_read request draw cf srvs checked inp salt = Some (srvs(h := s'), job) \<and> inv s' \<and>
    agree (view s') (view (srvs h)) \<and> rd_replies job = [concat (map (chunk_reply (view (srvs h)) u) cs)] \<and> \<not> rd_timer job"
proof -
  let ?v = "view (srvs h)" and ?rq = "\<lambda>c. read_request inp (salt (ck_block c)) c"
  have cs: "in_chunks cf inp = Some cs" "cs \<noteq> []" "\<And>c. c \<in> set cs \<Longrightarrow> chunk_ok cf inp c"
    using plan by (auto simp: plan_def)
  have conf: "conf_ok cf" and n: "in_size inp \<noteq> 0" using assms(2) by (simp_all add: input_ok_def)
  note step = read_step [OF assms(2) cs(3), of _ ?v, folded u_def]
  have sess: "session_ok ?v (map (\<lambda>c. sent (?rq c)) cs)" "fst (a_serve ?v (map (\<lambda>c. sent (?rq c)) cs)) = ?v"
    "snd (a_serve ?v (map (\<lambda>c. sent (?rq c)) cs)) = map (\<lambda>c. snd (a_step (sent (?rq c)) ?v)) cs"
    by (rule session_reads; use step readable in simp)+
  from requests_simulate [OF inv agree_refl sess(1)] sess(2,3) obtain s' rs where
    d: "requests request (srvs h) (map sent (map ?rq cs)) = Some (s', rs)" "inv s'" "agree (view s') ?v"
      "rs = map (\<lambda>c. snd (a_step (sent (?rq c)) ?v)) cs"
    by (auto simp: comp_def)
  have bufs: "map (\<lambda>i. lp_buf (rs ! i)) [0 ..< length cs] = map (chunk_reply ?v u) cs"
    using step(5) readable by (intro nth_equalityI) (auto simp: d(4))
  define job where "job = \<lparr>rd_slots = replicate (length cs) None, rd_timer = True, rd_checked = checked, rd_replies = []\<rparr>"
  have start: "start_read draw cf checked inp salt = Some (job, map (\<lambda>p. (h, p)) (map ?rq cs))"
    using at_backends_const [OF primary_host(1) [OF assms(1) conf]] n
    by (simp add: start_read_def cs(1) job_def h_def comp_def)
  have slots: "rd_slots job = slots_of (length cs) (\<lambda>i. lp_buf (rs ! i)) {}"
    by (simp add: job_def slots_of_def map_replicate_const)
  have "foldl (\<lambda>j i. read_response i (lp_buf (rs ! i)) j) job [0 ..< length cs] =
      job\<lparr>rd_slots := slots_of (length cs) (\<lambda>i. lp_buf (rs ! i)) {0 ..< length cs}, rd_timer := False,
          rd_replies := [concat (map (chunk_reply ?v u) cs)]\<rparr>"
    using read_responses [OF _ _ _ slots, of "[0 ..< length cs]"] cs(2)
    by (simp add: bufs lessThan_atLeast0) (simp add: job_def)
  moreover have "length rs = length cs" by (simp add: d(4))
  ultimately show ?thesis
    using start d(2,3) deliver_same_host [where request = request and h = h and srvs = srvs, OF d(1)]
    by (auto simp: run_read_def job_def)
qed

end

lemma chunk_replies_flat:
  assumes "plan cf inp cs" "\<forall>c \<in> set cs. ab_content (vw (srvs (primary draw cf (in_uuid inp))) (bkey (in_uuid inp) c)) \<noteq> None"
  shows "concat (map (chunk_reply (vw (srvs (primary draw cf (in_uuid inp)))) (in_uuid inp)) cs) =
    map (file_byte (unat (cf_blocksize cf)) (stored vw draw cf srvs (in_uuid inp)))
      [unat (in_position inp) ..< unat (in_position inp) + unat (in_size inp)]"
proof -
  let ?f = "stored vw draw cf srvs (in_uuid inp)"
  have "map (chunk_reply (vw (srvs (primary draw cf (in_uuid inp)))) (in_uuid inp)) cs =
      map (\<lambda>c. a_read (unat (ck_offset c)) (unat (ck_size c)) (?f (unat (ck_block c)))) cs"
    using assms(2) by (auto simp: chunk_reply_def stored_def a_content_def)
  moreover have "read_chunks cs ?f = map (file_byte (unat (cf_blocksize cf)) ?f)
      [unat (in_position inp) ..< unat (in_position inp) + unat (in_size inp)]"
    using assms(1) by (intro read_chunks_tiles [where boff = 0]) (simp add: plan_def)
  ultimately show ?thesis by (simp only: read_chunks_def)
qed

text \<open>
  C11. What a read answers. A read of a non-empty range below 4 GiB, where no existing block of the range ends
  before the offset that is read in it, is answered exactly once and changes no block. The reply
  joins, for each block of the range that exists, its bytes, padded with zeros; a block that does not exist
  contributes nothing. So when all blocks of the range exist the reply is the range of the flat
  file, and otherwise it is shorter and the bytes behind a missing block move forward.
\<close>

theorem read_replies_range:
  fixes inp :: jinput and cf :: conf and checked :: 't
  defines "u \<equiv> in_uuid inp"
  assumes "leveldb_ok L" "draw_ok draw" "input_ok cf inp salt" "in_chunks cf inp = Some cs"
    and inv: "\<forall>i. ssbd_inv L (srvs i)"
    and readable: "\<forall>c \<in> set cs. chunk_readable (view L (srvs (primary draw cf u))) u c"
  shows "\<exists>srvs' job. run_read (ssbd_request L) draw cf srvs checked inp salt = Some (srvs', job) \<and>
    (\<forall>i. ssbd_inv L (srvs' i) \<and> agree (view L (srvs' i)) (view L (srvs i))) \<and> \<not> rd_timer job \<and>
    rd_replies job = [concat (map (chunk_reply (view L (srvs (primary draw cf u))) u) cs)] \<and>
    ((\<forall>c \<in> set cs. ab_content (view L (srvs (primary draw cf u)) (bkey u c)) \<noteq> None) \<longrightarrow>
     rd_replies job = [map (file_byte (unat (cf_blocksize cf)) (stored (view L) draw cf srvs u))
       [unat (in_position inp) ..< unat (in_position inp) + unat (in_size inp)]])"
proof -
  have plan: "plan cf inp cs"
    using input_plan [OF assms(4)] assms(5) by (metis option.inject plan_def)
  from block_server.read_run [where srvs = srvs and checked = checked,
      OF ssbd_is_block_server [OF assms(2)] assms(3,4) plan] inv readable
  obtain s' job where run: "run_read (ssbd_request L) draw cf srvs checked inp salt = Some (srvs(primary draw cf u := s'), job)"
    "ssbd_inv L s'" "agree (view L s') (view L (srvs (primary draw cf u)))"
    "rd_replies job = [concat (map (chunk_reply (view L (srvs (primary draw cf u))) u) cs)]" "\<not> rd_timer job"
    unfolding u_def by blast
  then show ?thesis
    using inv chunk_replies_flat [OF plan, of "view L" srvs draw] agree_refl by (auto simp: u_def)
qed

theorem read_replies_range_witness:
  "\<exists>srvs' job. run_read (ssbd_request mem_leveldb) (\<lambda>u n k. 0) sample_conf (\<lambda>i. empty_ssbd) ()
      (sample_input Op_read 3 6 []) (\<lambda>b. [1, 2, 3, 4]) = Some (srvs', job) \<and> rd_replies job = [[]]"
proof -
  have "chunk_readable (view mem_leveldb empty_ssbd) u c" "chunk_reply (view mem_leveldb empty_ssbd) u c = []" for u c
    by (simp_all add: chunk_readable_def chunk_reply_def view_empty_ssbd)
  then show ?thesis
    using read_replies_range [where srvs = "\<lambda>i. empty_ssbd" and checked = "()",
        OF mem_leveldb_ok draw_zero_ok sample_input_ok sample_chunks] empty_ssbd_inv
    by fastforce
qed

lemma written_is_read:
  fixes inp rinp :: jinput and cf :: conf and rchecked :: 'r
  assumes "leveldb_ok L" "chmap_ok M" "draw_ok draw" "input_ok cf inp salt" "input_ok cf rinp rsalt"
    and "unat (in_size inp) \<le> length (in_data inp)" and inv: "\<forall>i. ssbd_inv L (srvs i)"
    and same: "in_uuid rinp = in_uuid inp" "in_position rinp = in_position inp" "in_size rinp = in_size inp"
    and done_write: "run_write (ssbd_request L) M draw cf srvs checked inp ver salt = Some (srvs1, job)"
      "wj_replies job = [str ''OK'']"
  shows "\<exists>srvs2 rjob. run_read (ssbd_request L) draw cf srvs1 rchecked rinp rsalt = Some (srvs2, rjob) \<and>
    rd_replies rjob = [take (unat (in_size inp)) (in_data inp)]"
proof -
  let ?u = "in_uuid inp" and ?h = "primary draw cf (in_uuid inp)"
  obtain cs where plan: "plan cf inp cs" using assms(4) by (rule input_plan)
  then have rplan: "plan cf rinp cs"
    by (simp add: plan_def in_chunks_def same chunk_ok_def)
  note srv = ssbd_is_block_server [OF assms(1)]
  let ?ok = "all_agree (is_checked M ?u checked) (view L (srvs ?h)) ?u cs"
  obtain s' where run: "srvs1 = srvs(?h := s')" "ssbd_inv L s'"
    "wj_replies job = [if ?ok then str ''OK'' else str ''Error: Found Pending 2PC Log'']"
    "\<And>c. c \<in> set cs \<Longrightarrow> view L s' (bkey ?u c) =
       finished ?ok (prepared (is_checked M ?u checked) inp ver c (view L (srvs ?h) (bkey ?u c)))"
  proof (rule block_server.write_run [where srvs = srvs and checked = checked and ver = ver, OF srv assms(2-4,6) plan])
    show "ssbd_inv L (srvs ?h)" using inv by blast
  qed (use done_write(1) in auto)
  have ok: ?ok
  proof (rule ccontr)
    assume "\<not> ?ok"
    with run(3) have "wj_replies job = [str ''Error: Found Pending 2PC Log'']" by (simp only: if_False)
    with done_write(2) show False by simp
  qed
  have content: "ab_content (view L s' (bkey ?u c)) =
      Some (patch (unat (ck_offset c)) (chunk_data inp c) (a_content (view L (srvs ?h) (bkey ?u c))))"
    if "c \<in> set cs" for c
    using run(4) [OF that] ok that
    by (simp add: finished_def prepared_def staged_def a_commit_stage all_agree_def)
  have "length (chunk_data inp c) = unat (ck_size c)" if "c \<in> set cs" for c
    using plan that assms(6) by (fastforce simp: plan_def chunk_data_def)
  then have reply: "chunk_reply (view L s') ?u c = chunk_data inp c" if "c \<in> set cs" for c
    using content [OF that] a_read_patch [of "unat (ck_offset c)" "chunk_data inp c"] that
    by (simp add: chunk_reply_def)
  have "\<forall>c \<in> set cs. chunk_readable (view L (srvs1 ?h)) ?u c"
    using content by (auto simp: chunk_readable_def run(1) le_max_iff_disj)
  with block_server.read_run [where srvs = srvs1 and checked = rchecked, OF srv assms(3,5) rplan] run(2)
  obtain s2 rjob where "run_read (ssbd_request L) draw cf srvs1 rchecked rinp rsalt = Some (srvs1(?h := s2), rjob)"
    "rd_replies rjob = [concat (map (chunk_reply (view L s') ?u) cs)]"
    unfolding same by (auto simp: run(1))
  moreover have "concat (map (chunk_reply (view L s') ?u) cs) = take (unat (in_size inp)) (in_data inp)"
  proof -
    have "tiles (unat (cf_blocksize cf)) (unat (in_position inp)) (unat (in_position inp) + unat (in_size inp)) 0 cs"
      using plan by (simp add: plan_def)
    from tiles_slices [OF this, of "in_data inp"] reply show ?thesis
      by (simp add: chunk_data_def slice_def cong: map_cong)
  qed
  ultimately show ?thesis by auto
qed



end
