(* ===== verification/Metadata.thy ===== *)
theory Metadata
  imports Storage_Runs
begin

text \<open>
  Directories: \<^verbatim>\<open>start_meta_addfile\<close>, \<^verbatim>\<open>start_meta_mkdir\<close>, \<^verbatim>\<open>start_meta_ls\<close> and
  \<^verbatim>\<open>start_perform_metadata\<close> of \<^verbatim>\<open>storage-conf-ssbd-backend.hpp\<close>. A directory is a file: a 64-byte
  block with the number of entries, then one 64-byte entry per file. The operations read the file,
  and go on in a callback with its content: \<open>addfile_next\<close> and \<open>ls_next\<close> are those callbacks.
  \<open>reads_dir c fs\<close> relates a content to the list of entries it holds.
\<close>

section \<open>Operations\<close>

text \<open>What a callback does next; \<open>Meta_undef\<close> is an access outside a buffer.\<close>

datatype meta_step =
    Meta_error bytes
  | Meta_reply bytes
  | Meta_reread u32
  | Meta_write packet
  | Meta_undef

definition meta_read_packet :: "packet_header \<Rightarrow> bytes \<Rightarrow> u32 \<Rightarrow> packet" where
  "meta_read_packet h pad readsize =
     build_packet h pad \<lparr>rq_type = type_val T_file, rq_operation = operation_val Op_read,
       rq_position = 0, rq_size = readsize\<rparr> []"

definition meta_write_packet :: "packet_header \<Rightarrow> bytes \<Rightarrow> bytes \<Rightarrow> packet" where
  "meta_write_packet h pad content =
     build_packet h pad \<lparr>rq_type = type_val T_file, rq_operation = operation_val Op_write,
       rq_position = 0, rq_size = of_nat (length content)\<rparr> content"

definition stat_of :: "bytes \<Rightarrow> stats" where
  "stat_of content = stats_to_host_format (stats_of_mem content)"

text \<open>\<^verbatim>\<open>stat.file_count * sizeof(filemeta)\<close> is a \<^verbatim>\<open>size_t\<close>; as an argument it is cut to 32 bits.\<close>

definition table_size :: "u32 \<Rightarrow> u64" where
  "table_size n = ucast n * 64"

definition addfile_next :: "packet_header \<Rightarrow> bytes \<Rightarrow> bytes \<Rightarrow> bytes \<Rightarrow> meta_step" where
  "addfile_next h pad request_data content =
     (if length content < filemeta_size then Meta_error (str ''Error: No such directory'')
      else let stat = stat_of content; n = st_file_count stat
           in if length content < unat (table_size n) then Meta_reread (ucast (table_size n))
              else if length request_data < filemeta_size then Meta_undef
              else let entry = take filemeta_size request_data;
                       position = (ucast (table_size (n + 1)) :: u32);
                       stat' = stats_to_network_format (stat\<lparr>st_file_count := n + 1\<rparr>);
                       grown = resize (unat position + filemeta_size) content
                   in case overwrite (unat position) entry grown of
                        None \<Rightarrow> Meta_undef
                      | Some c1 \<Rightarrow>
                          (case overwrite 0 (stats_mem stat') c1 of
                             None \<Rightarrow> Meta_undef
                           | Some c2 \<Rightarrow> Meta_write (meta_write_packet h pad c2)))"

text \<open>\<^verbatim>\<open>std::find(filename.begin(), filename.end(), '\0')\<close>.\<close>

definition printed_name :: "bytes \<Rightarrow> bytes" where
  "printed_name filename = takeWhile (\<lambda>b. b \<noteq> 0) filename"

fun ls_entries :: "bytes \<Rightarrow> u32 \<Rightarrow> nat \<Rightarrow> bytes option" where
  "ls_entries content i 0 = Some []"
| "ls_entries content i (Suc k) =
     (let pos = unat (ucast (table_size i) :: u32)
      in if length content < pos + filemeta_size then None
         else map_option (\<lambda>r. printed_name (fm_filename (filemeta_of_mem (slice pos filemeta_size content))) @ [10] @ r)
                (ls_entries content (i + 1) k))"

definition ls_next :: "bytes \<Rightarrow> meta_step" where
  "ls_next content =
     (if length content < filemeta_size then Meta_error (str ''Error: No such directory'')
      else let n = st_file_count (stat_of content)
           in if length content < unat (table_size n) then Meta_reread (ucast (table_size n))
              else case ls_entries content 1 (unat n) of
                     None \<Rightarrow> Meta_undef
                   | Some names \<Rightarrow>
                       Meta_reply (str ''total: '' @ to_string (unat n) @ str '' files'' @ [10] @ names))"

text \<open>The reserved bytes of a fresh \<^verbatim>\<open>stats\<close> are not initialised: an argument.\<close>

definition start_meta_mkdir :: "packet_header \<Rightarrow> bytes \<Rightarrow> bytes \<Rightarrow> packet" where
  "start_meta_mkdir h pad reserved =
     meta_write_packet h pad (stats_mem (stats_to_network_format \<lparr>st_file_count = 0, st_reserved = reserved\<rparr>))"

text \<open>
  \<open>start_perform_metadata\<close> and the first step of each operation: \<open>addfile\<close> and \<open>ls\<close> read 4096 bytes.
\<close>

datatype meta_start = Start_addfile packet | Start_mkdir packet | Start_ls packet | Start_none

definition start_perform_metadata :: "packet_header \<Rightarrow> bytes \<Rightarrow> bytes \<Rightarrow> u8 \<Rightarrow> meta_start" where
  "start_perform_metadata h pad reserved meta_operation =
     (case meta_operation_of_byte meta_operation of
        Some M_addfile \<Rightarrow> Start_addfile (meta_read_packet h pad 4096)
      | Some M_mkdir \<Rightarrow> Start_mkdir (start_meta_mkdir h pad reserved)
      | Some M_ls \<Rightarrow> Start_ls (meta_read_packet h pad 4096)
      | None \<Rightarrow> Start_none)"

section \<open>Directory contents\<close>

definition dir_mem :: "bytes \<Rightarrow> filemeta list \<Rightarrow> bytes" where
  "dir_mem reserved fs =
     stats_mem (stats_to_network_format \<lparr>st_file_count = of_nat (length fs), st_reserved = reserved\<rparr>) @
     concat (map filemeta_mem fs)"

definition dir_ok :: "bytes \<Rightarrow> filemeta list \<Rightarrow> bool" where
  "dir_ok reserved fs \<longleftrightarrow> length reserved = 60 \<and> list_all wf_filemeta fs \<and> (length fs + 2) * 64 < 2 ^ 32"

definition reads_dir :: "bytes \<Rightarrow> filemeta list \<Rightarrow> bytes \<Rightarrow> bool" where
  "reads_dir reserved fs content \<longleftrightarrow>
     (length fs + 1) * 64 \<le> length content \<and> take ((length fs + 1) * 64) content = dir_mem reserved fs"

lemma length_entries: "list_all wf_filemeta fs \<Longrightarrow> length (concat (map filemeta_mem fs)) = length fs * 64"
  by (induction fs) (simp_all add: filemeta_codec filemeta_size_def)

lemma length_dir_mem: "dir_ok reserved fs \<Longrightarrow> length (dir_mem reserved fs) = (length fs + 1) * 64"
  by (simp add: dir_mem_def dir_ok_def length_entries stats_mem_def stats_to_network_format_def)

lemma table_size_unat: "(unat n + 1) * 64 < 2 ^ 32 \<Longrightarrow> unat (table_size n) = unat n * 64 \<and> unat (ucast (table_size n) :: u32) = unat n * 64"
  by (simp add: table_size_def unat_word_ariths unsigned_ucast_eq take_bit_nat_eq_self_iff)

lemma stat_of_prefix: "stat_of (stats_mem (stats_to_network_format s) @ zs) = s" if "wf_stats s"
  using that by (simp add: stat_of_def stats_codec)

lemma dir_count:
  assumes "dir_ok reserved fs" "take ((length fs + 1) * 64) content = dir_mem reserved fs"
  shows "stat_of content = \<lparr>st_file_count = of_nat (length fs), st_reserved = reserved\<rparr>"
    and "unat (of_nat (length fs) :: u32) = length fs"
proof -
  have "content = dir_mem reserved fs @ drop ((length fs + 1) * 64) content"
    using assms(2) by (metis append_take_drop_id)
  then show "stat_of content = \<lparr>st_file_count = of_nat (length fs), st_reserved = reserved\<rparr>"
    using assms(1) stat_of_prefix by (metis append_assoc dir_mem_def dir_ok_def stats.select_convs(2) wf_stats_def)
  show "unat (of_nat (length fs) :: u32) = length fs"
    using assms(1) by (simp add: dir_ok_def unat_of_nat)
qed

lemma length_stats_block: "length reserved = 60 \<Longrightarrow>
   length (stats_mem (stats_to_network_format \<lparr>st_file_count = n, st_reserved = reserved\<rparr>)) = 64"
  by (simp add: stats_mem_def stats_to_network_format_def)

text \<open>The new content when the whole table was read.\<close>

lemma addfile_content:
  assumes ok: "dir_ok reserved fs" and reads: "reads_dir reserved fs content" and f: "wf_filemeta f"
    and req: "take 64 request_data = filemeta_mem f" "64 \<le> length request_data"
  shows "addfile_next h pad request_data content = Meta_write (meta_write_packet h pad (dir_mem reserved (fs @ [f])))"
proof -
  let ?n = "length fs" and ?k = "of_nat (length fs) :: u32"
  have len: "(?n + 1) * 64 \<le> length content" and pre: "take ((?n + 1) * 64) content = dir_mem reserved fs"
    using reads by (simp_all add: reads_dir_def)
  note cnt = dir_count [OF ok pre]
  have small: "(?n + 2) * 64 < 2 ^ 32" and res: "length reserved = 60" and wf: "list_all wf_filemeta fs"
    using ok by (simp_all add: dir_ok_def)
  have k1: "unat (?k + 1) = ?n + 1"
    using small by (simp add: cnt(2) unat_word_ariths)
  have ts: "unat (table_size ?k) = ?n * 64" "unat (ucast (table_size (?k + 1)) :: u32) = (?n + 1) * 64"
    using table_size_unat [of ?k] table_size_unat [of "?k + 1"] small by (simp_all add: cnt(2) k1)
  let ?grown = "resize ((?n + 1) * 64 + 64) content"
  have grown: "take ((?n + 1) * 64) ?grown = dir_mem reserved fs"
    using len pre by (simp add: resize_def min_def)
  have c1: "overwrite ((?n + 1) * 64) (filemeta_mem f) ?grown = Some (dir_mem reserved fs @ filemeta_mem f)"
    using f grown by (simp add: overwrite_def filemeta_codec filemeta_size_def)
  have c2: "overwrite 0 (stats_mem (stats_to_network_format \<lparr>st_file_count = ?k + 1, st_reserved = reserved\<rparr>))
      (dir_mem reserved fs @ filemeta_mem f) = Some (dir_mem reserved (fs @ [f]))"
    using res by (simp add: overwrite_def dir_mem_def length_stats_block add.commute)
  show ?thesis
    using len req ts c1 c2 by (simp add: addfile_next_def cnt(1) filemeta_size_def Let_def)
qed

lemma ls_entries_table:
  assumes "list_all wf_filemeta gs" "list_all wf_filemeta fs" "(length fs + length gs + 2) * 64 < 2 ^ 32"
    and "unat i = length fs + 1"
    and "take ((length fs + length gs + 1) * 64) content = stat @ concat (map filemeta_mem (fs @ gs))"
    and "length stat = 64" "(length fs + length gs + 1) * 64 \<le> length content"
  shows "ls_entries content i (length gs) = Some (concat (map (\<lambda>f. printed_name (fm_filename f) @ [10]) gs))"
  using assms
proof (induction gs arbitrary: fs i)
  case (Cons g gs)
  let ?pos = "(length fs + 1) * 64"
  have pos: "unat (ucast (table_size i) :: u32) = ?pos"
    using table_size_unat [of i] Cons.prems(3,4) by simp
  have wf: "wf_filemeta g" using Cons.prems(1) by simp
  let ?all = "stat @ concat (map filemeta_mem (fs @ g # gs))"
  have "slice ?pos 64 content = slice ?pos 64 (take ((length fs + length (g # gs) + 1) * 64) content)"
    using Cons.prems(7) by (auto simp: slice_def take_drop min_def)
  also have "\<dots> = filemeta_mem g"
    unfolding Cons.prems(5)
    using Cons.prems(2,6) wf length_entries [of fs] by (simp add: slice_def filemeta_codec filemeta_size_def)
  finally have entry: "slice ?pos 64 content = filemeta_mem g" .
  have "unat (i + 1) = unat i + 1"
    using Cons.prems(3,4) by (simp add: unat_word_ariths)
  then have "ls_entries content (i + 1) (length gs) = Some (concat (map (\<lambda>f. printed_name (fm_filename f) @ [10]) gs))"
    using Cons.prems by (intro Cons.IH [of "fs @ [g]"]) (simp_all add: algebra_simps)
  moreover have "filemeta_of_mem (filemeta_mem g) = g"
    using filemeta_codec(2) [OF wf, of "[]"] by simp
  ultimately show ?case
    using Cons.prems(7) entry by (simp add: pos filemeta_size_def Let_def)
qed simp

text \<open>A content that ends before the last entry makes the listing read behind its end.\<close>

lemma ls_entries_short:
  "0 < k \<Longrightarrow> (unat i + k) * 64 < 2 ^ 32 \<Longrightarrow> length content < (unat i + k) * 64 \<Longrightarrow> ls_entries content i k = None"
proof (induction k arbitrary: i)
  case (Suc k)
  have pos: "unat (ucast (table_size i) :: u32) = unat i * 64"
    using table_size_unat [of i] Suc.prems(2) by simp
  have next_i: "unat (i + 1) = unat i + 1"
    using Suc.prems(2) by (simp add: unat_word_ariths)
  show ?case
  proof (cases "k = 0")
    case True
    then show ?thesis using Suc.prems(3) by (simp add: pos filemeta_size_def Let_def algebra_simps)
  next
    case False
    then have "ls_entries content (i + 1) k = None"
      using Suc.prems by (intro Suc.IH) (simp_all add: next_i)
    then show ?thesis by (simp add: Let_def)
  qed
qed simp

lemma ls_content:
  assumes "dir_ok reserved fs" "reads_dir reserved fs content"
  shows "ls_next content = Meta_reply (str ''total: '' @ to_string (length fs) @ str '' files'' @ [10] @
    concat (map (\<lambda>f. printed_name (fm_filename f) @ [10]) fs))"
proof -
  have pre: "take ((length fs + 1) * 64) content = dir_mem reserved fs" and len: "(length fs + 1) * 64 \<le> length content"
    using assms(2) by (simp_all add: reads_dir_def)
  note cnt = dir_count [OF assms(1) pre]
  let ?stat = "stats_mem (stats_to_network_format \<lparr>st_file_count = of_nat (length fs), st_reserved = reserved\<rparr>)"
  have "ls_entries content 1 (length fs) = Some (concat (map (\<lambda>f. printed_name (fm_filename f) @ [10]) fs))"
    using assms(1) pre len length_stats_block [of reserved "of_nat (length fs)"]
    by (intro ls_entries_table [where fs = "[]" and stat = ?stat]) (simp_all add: dir_ok_def dir_mem_def)
  moreover have "unat (table_size (of_nat (length fs))) = length fs * 64"
    using table_size_unat [of "of_nat (length fs)"] assms(1) by (simp add: cnt(2) dir_ok_def)
  ultimately show ?thesis
    using len by (simp add: ls_next_def cnt filemeta_size_def Let_def del: str_Cons)
qed

section \<open>Properties\<close>

text \<open>
  Adding and listing files. When the content that was read holds the whole table of a directory,
  adding a file writes the table with the entry appended and the count increased, and listing
  replies the number of files and their names in order; a fresh directory is the empty table.
\<close>

theorem directory_operations:
  assumes "dir_ok reserved fs" "reads_dir reserved fs content" "wf_filemeta f"
    and "take 64 request_data = filemeta_mem f" "64 \<le> length request_data"
  shows "addfile_next h pad request_data content = Meta_write (meta_write_packet h pad (dir_mem reserved (fs @ [f]))) \<and>
    ls_next content = Meta_reply (str ''total: '' @ to_string (length fs) @ str '' files'' @ [10] @
      concat (map (\<lambda>f. printed_name (fm_filename f) @ [10]) fs)) \<and>
    start_meta_mkdir h pad reserved = meta_write_packet h pad (dir_mem reserved [])"
  using addfile_content [OF assms] ls_content [OF assms(1,2)] by (simp add: start_meta_mkdir_def dir_mem_def del: str_Cons)

definition sample_filemeta :: filemeta where
  "sample_filemeta = \<lparr>fm_owner = 1, fm_permission = 2, fm_filename = str ''ab'' @ replicate 58 0\<rparr>"

lemma wf_sample_filemeta: "wf_filemeta sample_filemeta"
  by (simp add: wf_filemeta_def sample_filemeta_def)

lemma sample_dir_ok: "k < 100 \<Longrightarrow> dir_ok (replicate 60 0) (replicate k sample_filemeta)"
  by (simp add: dir_ok_def list_all_iff wf_sample_filemeta)

lemma sample_entry: "length (filemeta_mem sample_filemeta) = 64"
  using filemeta_codec(1) [OF wf_sample_filemeta] by (simp add: filemeta_size_def)

theorem directory_operations_witness:
  "ls_next (dir_mem (replicate 60 0) [sample_filemeta]) = Meta_reply (str ''total: 1 files'' @ [10] @ str ''ab'' @ [10])"
proof -
  have ok: "dir_ok (replicate 60 0) [sample_filemeta]" using sample_dir_ok [of 1] by simp
  have "reads_dir (replicate 60 0) [sample_filemeta] (dir_mem (replicate 60 0) [sample_filemeta])"
    using length_dir_mem [OF ok] by (simp add: reads_dir_def)
  from directory_operations [OF ok this wf_sample_filemeta, of "filemeta_mem sample_filemeta"]
  have "ls_next (dir_mem (replicate 60 0) [sample_filemeta]) = Meta_reply (str ''total: '' @ to_string 1 @ str '' files'' @ [10] @
      printed_name (fm_filename sample_filemeta) @ [10])"
    by (simp add: sample_entry del: str_Cons)
  moreover have "printed_name (fm_filename sample_filemeta) = str ''ab''"
    by (simp add: printed_name_def sample_filemeta_def takeWhile_append)
  ultimately show ?thesis by (simp add: to_string.simps)
qed

text \<open>
  Directories of 64 files and more. The check for a short read compares the size of the content with
  \<^verbatim>\<open>file_count * 64\<close>, although the table is one block longer, and the second read asks for that many
  bytes. So when a directory has \<open>n\<close> files and the content is exactly \<open>n * 64\<close> bytes (the first read
  of 4096 bytes for 64 files, the second read for more), the callback goes on without the last entry:
  listing reads behind the end of the buffer, and adding a file replaces the last entry by zero bytes.
\<close>

theorem last_entry_lost:
  assumes "dir_ok reserved (fs @ [l])" "wf_filemeta f"
    and "take 64 request_data = filemeta_mem f" "64 \<le> length request_data"
    and "content = take ((length fs + 1) * 64) (dir_mem reserved (fs @ [l]))"
  shows "ls_next content = Meta_undef \<and>
    addfile_next h pad request_data content =
      Meta_write (meta_write_packet h pad (dir_mem reserved (fs @ [filemeta_of_mem (replicate 64 0), f])))"
proof -
  let ?n = "length fs" and ?k = "of_nat (length fs + 1) :: u32"
  let ?stat = "\<lambda>m. stats_mem (stats_to_network_format \<lparr>st_file_count = of_nat m, st_reserved = reserved\<rparr>)"
  have res: "length reserved = 60" and wf: "list_all wf_filemeta fs" and small: "(?n + 3) * 64 < 2 ^ 32"
    using assms(1) by (simp_all add: dir_ok_def)
  have content: "content = ?stat (?n + 1) @ concat (map filemeta_mem fs)"
    using assms(5) length_entries [OF wf] length_stats_block [OF res] by (simp add: dir_mem_def)
  have stat: "stat_of content = \<lparr>st_file_count = ?k, st_reserved = reserved\<rparr>"
    unfolding content by (rule stat_of_prefix) (simp add: wf_stats_def res)
  have k: "unat ?k = ?n + 1" "unat (?k + 1) = ?n + 2"
    using small by (simp_all add: unat_of_nat unat_word_ariths)
  have ts: "unat (table_size ?k) = (?n + 1) * 64" "unat (ucast (table_size (?k + 1)) :: u32) = (?n + 2) * 64"
    using table_size_unat [of ?k] table_size_unat [of "?k + 1"] small by (simp_all only: k) simp_all
  have len: "length content = (?n + 1) * 64"
    using length_entries [OF wf] length_stats_block [OF res] by (simp add: content)
  have "ls_entries content 1 (?n + 1) = None"
    using small len by (intro ls_entries_short) simp_all
  then have ls: "ls_next content = Meta_undef"
    using len ts(1) k(1) by (simp add: ls_next_def stat filemeta_size_def Let_def del: of_nat_Suc of_nat_add ls_entries.simps)
  have grown: "resize ((?n + 2) * 64 + 64) content = content @ replicate 64 0 @ replicate 64 0"
    by (simp add: resize_def len flip: replicate_add)
  have c1: "overwrite ((?n + 2) * 64) (filemeta_mem f) (resize ((?n + 2) * 64 + 64) content) =
      Some (content @ replicate 64 0 @ filemeta_mem f)"
    using assms(2) unfolding grown by (simp add: overwrite_def filemeta_codec filemeta_size_def len)
  have zero: "filemeta_mem (filemeta_of_mem (replicate 64 0)) = replicate 64 0"
    by (simp add: filemeta_mem_def filemeta_of_mem_def slice_def) (simp flip: replicate_add)
  have c2: "overwrite 0 (stats_mem (stats_to_network_format \<lparr>st_file_count = ?k + 1, st_reserved = reserved\<rparr>))
      (content @ replicate 64 0 @ filemeta_mem f) =
      Some (dir_mem reserved (fs @ [filemeta_of_mem (replicate 64 0), f]))"
    using length_stats_block [OF res]
    by (simp add: overwrite_def content dir_mem_def zero add.commute)
  have "addfile_next h pad request_data content =
      Meta_write (meta_write_packet h pad (dir_mem reserved (fs @ [filemeta_of_mem (replicate 64 0), f])))"
    using len assms(3,4) ts c1 c2 by (simp add: addfile_next_def stat filemeta_size_def Let_def del: of_nat_Suc of_nat_add)
  with ls show ?thesis by blast
qed

theorem last_entry_lost_witness:
  "ls_next (take 4096 (dir_mem (replicate 60 0) (replicate 64 sample_filemeta))) = Meta_undef"
proof -
  have "replicate 64 sample_filemeta = replicate 63 sample_filemeta @ [sample_filemeta]"
    by (simp add: replicate_append_same flip: replicate_Suc)
  then show ?thesis
    using last_entry_lost [of "replicate 60 0" "replicate 63 sample_filemeta" sample_filemeta, OF _ wf_sample_filemeta,
        of "filemeta_mem sample_filemeta"] sample_dir_ok [of 64]
    by (simp add: sample_entry)
qed

end
