(* ===== verification/Client_Lib.thy ===== *)
theory Client_Lib
  imports Membership Handover Metadata
begin

text \<open>
  The library of the clients, \<^verbatim>\<open>proxy/clients/clientlib*.hpp\<close>: the packets they create, the table of connections to the proxies,
  the choice of the proxy for a request, requests with retries, and clients that talk to a worker directly. Shown: a client sends
  the requests of a file to the proxy that owns it, which does not give the file away; the packets are understood by the data
  function, up to the listing of a directory; a request is tried at most five times.
\<close>

section \<open>Packets\<close>

text \<open>
  The functions of \<^verbatim>\<open>packet_create\<close>. The header is drawn by \<^verbatim>\<open>gen\<close>: \<open>salt\<close> and \<open>sequ\<close>. The variants with a path take the
  identifier from \<^verbatim>\<open>uuid::get_uuid\<close>, the SHA256 digest, which is the parameter \<open>sha\<close>.
\<close>

definition trigger_header :: "bytes \<Rightarrow> bytes \<Rightarrow> bytes \<Rightarrow> packet_header" where
  "trigger_header salt sequ key = fresh_header (msg_val Trigger) salt sequ key"

definition meta_packet :: "bytes \<Rightarrow> bytes \<Rightarrow> bytes \<Rightarrow> bytes \<Rightarrow> meta_operation_t \<Rightarrow> bytes \<Rightarrow> packet" where
  "meta_packet salt sequ pad key mo data =
     build_packet (trigger_header salt sequ key) pad
       \<lparr>rq_type = type_val T_metadata, rq_operation = meta_operation_val mo, rq_position = 0, rq_size = of_nat (length data)\<rparr> data"

definition pc_mkdir :: "bytes \<Rightarrow> bytes \<Rightarrow> bytes \<Rightarrow> bytes \<Rightarrow> packet" where
  "pc_mkdir salt sequ pad directory = meta_packet salt sequ pad directory M_mkdir []"

definition pc_ls :: "bytes \<Rightarrow> bytes \<Rightarrow> bytes \<Rightarrow> bytes \<Rightarrow> packet" where
  "pc_ls salt sequ pad directory = meta_packet salt sequ pad directory M_ls []"

text \<open>The name is copied into 60 bytes with the size of the whole entry, 64, as the limit.\<close>

definition pc_addfile :: "bytes \<Rightarrow> bytes \<Rightarrow> bytes \<Rightarrow> bytes \<Rightarrow> bytes \<Rightarrow> packet option" where
  "pc_addfile salt sequ pad directory filename =
     (if min (length filename) filemeta_size \<le> 60
      then Some (meta_packet salt sequ pad directory M_addfile
             (filemeta_mem (filemeta_to_network_format
                \<lparr>fm_owner = 0, fm_permission = 16895, fm_filename = filename @ replicate (60 - length filename) 0\<rparr>)))
      else None)"

definition pc_write :: "bytes \<Rightarrow> bytes \<Rightarrow> bytes \<Rightarrow> bytes \<Rightarrow> bytes \<Rightarrow> packet" where
  "pc_write salt sequ pad filename buf =
     build_packet (trigger_header salt sequ filename) pad
       \<lparr>rq_type = type_val T_file, rq_operation = operation_val Op_write, rq_position = 0, rq_size = of_nat (length buf)\<rparr> buf"

definition pc_read :: "bytes \<Rightarrow> bytes \<Rightarrow> bytes \<Rightarrow> bytes \<Rightarrow> u32 \<Rightarrow> packet" where
  "pc_read salt sequ pad filename n =
     build_packet (trigger_header salt sequ filename) pad
       \<lparr>rq_type = type_val T_file, rq_operation = operation_val Op_read, rq_position = 0, rq_size = n\<rparr> []"

section \<open>Connections to the proxies\<close>

text \<open>The \<^verbatim>\<open>tbb::concurrent_map\<close> from identifiers to sockets, ordered by the identifiers.\<close>

record ('v, 't) omap =
  om_empty :: 't
  om_find :: "'t \<Rightarrow> bytes \<Rightarrow> 'v option"
  om_emplace :: "'t \<Rightarrow> bytes \<Rightarrow> 'v \<Rightarrow> 't"
  om_range :: "'t \<Rightarrow> (bytes \<times> 'v) list"

definition omap_ok :: "('v, 't) omap \<Rightarrow> bool" where
  "omap_ok M \<longleftrightarrow>
     om_find M (om_empty M) = Map.empty \<and>
     (\<forall>t k v. om_find M (om_emplace M t k v) = (if om_find M t k = None then (om_find M t)(k \<mapsto> v) else om_find M t)) \<and>
     (\<forall>t. map_of (om_range M t) = om_find M t \<and> sorted_wrt (<) (map fst (om_range M t)))"

definition om_upper_bound :: "('v, 't) omap \<Rightarrow> 't \<Rightarrow> bytes \<Rightarrow> (bytes \<times> 'v) option" where
  "om_upper_bound M t k = List.find (\<lambda>(k', _). array_less k k') (om_range M t)"

text \<open>
  \<open>fresh u\<close> asks for the address of a proxy and connects; \<open>None\<close> is an exception, which leaves the table as it was: it is
  exchanged as a whole at the end. \<open>is_open\<close> is \<^verbatim>\<open>socket::is_open\<close>.
\<close>

fun connect_loop ::
  "('v, 't) omap \<Rightarrow> ('v \<Rightarrow> bool) \<Rightarrow> (bytes \<Rightarrow> 'v option) \<Rightarrow> 't \<Rightarrow> bytes list \<Rightarrow> 't \<Rightarrow> 't option" where
  "connect_loop M is_open fresh old [] new_proxy = Some new_proxy"
| "connect_loop M is_open fresh old (u # us) new_proxy =
     (case om_find M old u of
        Some s \<Rightarrow>
          if is_open s then connect_loop M is_open fresh old us (om_emplace M new_proxy u s)
          else Option.bind (fresh u) (\<lambda>s. connect_loop M is_open fresh old us (om_emplace M new_proxy u s))
      | None \<Rightarrow> Option.bind (fresh u) (\<lambda>s. connect_loop M is_open fresh old us (om_emplace M new_proxy u s)))"

definition client_reconfigure ::
  "('v, 't) omap \<Rightarrow> ('v \<Rightarrow> bool) \<Rightarrow> (bytes \<Rightarrow> 'v option) \<Rightarrow> bytes list \<Rightarrow> 't \<Rightarrow> 't option" where
  "client_reconfigure M is_open fresh new_sorted_proxy_list proxys =
     (if length new_sorted_proxy_list = length (om_range M proxys) \<and> list_all (\<lambda>u. om_find M proxys u \<noteq> None) new_sorted_proxy_list
      then Some proxys
      else connect_loop M is_open fresh proxys new_sorted_proxy_list (om_empty M))"

text \<open>\<^verbatim>\<open>zookeeper::reconfigure\<close> of the client, with the callback that is bound to it.\<close>

definition zk_reconfigure ::
  "'z zkservice \<Rightarrow> codec \<Rightarrow> ('v, 't) omap \<Rightarrow> ('v \<Rightarrow> bool) \<Rightarrow> (bytes \<Rightarrow> 'v option) \<Rightarrow> 'z \<Rightarrow> 't \<Rightarrow> 't option" where
  "zk_reconfigure Z C M is_open fresh z proxys = do {
     cs \<leftarrow> zk_children Z z proxy_dir;
     ps \<leftarrow> proxy_list C cs;
     client_reconfigure M is_open fresh ps proxys
   }"

definition select_proxy :: "('v, 't) omap \<Rightarrow> 't \<Rightarrow> bytes \<Rightarrow> 'v option" where
  "select_proxy M proxys key =
     (case om_upper_bound M proxys key of
        Some (_, s) \<Rightarrow> Some s
      | None \<Rightarrow> (case om_range M proxys of [] \<Rightarrow> None | (_, s) # _ \<Rightarrow> Some s))"

section \<open>Requests\<close>

text \<open>
  The network: \<open>net_write\<close> tells whether the bytes were written, \<open>net_read s n\<close> returns exactly \<open>n\<close> bytes or an error.
  A request returns \<open>Inl ()\<close> for an exception, \<open>None\<close> where the behaviour is undefined.
\<close>

record ('v, 'w) net =
  net_write :: "'v \<Rightarrow> bytes \<Rightarrow> 'w \<Rightarrow> bool \<times> 'w"
  net_read :: "'v \<Rightarrow> nat \<Rightarrow> 'w \<Rightarrow> bytes option \<times> 'w"

definition exchange :: "('v, 'w) net \<Rightarrow> 'v \<Rightarrow> bytes \<Rightarrow> 'w \<Rightarrow> (unit + bytes) \<times> 'w" where
  "exchange N s pbuf w =
     (let (ok, w) = net_write N s pbuf w
      in if \<not> ok then (Inl (), w)
         else case net_read N s bytesize w of
                (None, w) \<Rightarrow> (Inl (), w)
              | (Some headerbuf, w) \<Rightarrow>
                  (case net_read N s (unat (ph_datasize (parse headerbuf))) w of
                     (None, w) \<Rightarrow> (Inl (), w)
                   | (Some data, w) \<Rightarrow> (Inr data, w)))"

definition send_request :: "('v, 't) omap \<Rightarrow> ('v, 'w) net \<Rightarrow> 't \<Rightarrow> packet \<Rightarrow> 'w \<Rightarrow> ((unit + bytes) \<times> 'w) option" where
  "send_request M N proxys pack w = do {
     (_, pbuf) \<leftarrow> serialize pack;
     selected \<leftarrow> select_proxy M proxys (ph_key (pk_header pack));
     Some (exchange N selected pbuf w)
   }"

text \<open>The loop of \<^verbatim>\<open>send\<close>, the same in \<^verbatim>\<open>client\<close> and \<^verbatim>\<open>direct_client\<close>: \<open>request\<close> is the request, \<open>retry_count\<close> the counter.\<close>

function retry_loop :: "('s \<Rightarrow> ((unit + bytes) \<times> 's) option) \<Rightarrow> nat \<Rightarrow> 's \<Rightarrow> ((unit + bytes) \<times> 's) option" where
  "retry_loop request retry_count s =
     (case request s of
        None \<Rightarrow> None
      | Some (Inr data, s) \<Rightarrow> Some (Inr data, s)
      | Some (Inl _, s) \<Rightarrow> if retry_count > 3 then Some (Inl (), s) else retry_loop request (retry_count + 1) s)"
  by pat_completeness auto
termination by (relation "measure (\<lambda>(_, n, _). 4 - n)") auto

declare retry_loop.simps [simp del]

definition client_send :: "('v, 't) omap \<Rightarrow> ('v, 'w) net \<Rightarrow> 't \<Rightarrow> packet \<Rightarrow> 'w \<Rightarrow> ((unit + bytes) \<times> 'w) option" where
  "client_send M N proxys pack w = retry_loop (send_request M N proxys pack) 0 w"

section \<open>Direct clients\<close>

text \<open>
  A direct client keeps the connection of each file and the connection to each worker. \<open>ask\<close> is a request to the proxy with
  the header only, \<open>dial\<close> makes a socket and connects it, \<open>remote\<close> is \<^verbatim>\<open>remote_endpoint()\<close>. A failed connection leaves its socket in the table of
  files, and an entry that is present is not replaced.
\<close>

record ('f, 'e) direct_client =
  dc_files :: 'f
  dc_endpoints :: 'e

definition get_direct_worker_socket ::
  "(bytes, 'v, 'f) chmap \<Rightarrow> (worker_endpoint, 'v, 'e) chmap \<Rightarrow> ('w \<Rightarrow> 'v \<Rightarrow> bool) \<Rightarrow> (worker_endpoint \<Rightarrow> 'w \<Rightarrow> 'v \<times> bool \<times> 'w) \<Rightarrow>
     (packet \<Rightarrow> 'w \<Rightarrow> ((unit + bytes) \<times> 'w) option) \<Rightarrow> packet \<Rightarrow> ('f, 'e) direct_client \<times> 'w \<Rightarrow>
     ((unit + 'v) \<times> ('f, 'e) direct_client \<times> 'w) option" where
  "get_direct_worker_socket F E is_open dial ask pack = (\<lambda>(dc, w).
     let key = ph_key (pk_header pack);
         connected = (case chm_find F (dc_files dc) key of Some s \<Rightarrow> if is_open w s then Some s else None | None \<Rightarrow> None)
     in case connected of
          Some s \<Rightarrow> Some (Inr s, dc, w)
        | None \<Rightarrow>
            (case ask \<lparr>pk_header = pk_header pack, pk_buf = []\<rparr> w of
               None \<Rightarrow> None
             | Some (Inl _, w) \<Rightarrow> Some (Inl (), dc, w)
             | Some (Inr raw_buffer, w) \<Rightarrow>
                 (case parse_endpoint raw_buffer of
                    None \<Rightarrow> None
                  | Some endpoint \<Rightarrow>
                      (case (case chm_find E (dc_endpoints dc) endpoint of Some s \<Rightarrow> if is_open w s then Some s else None | None \<Rightarrow> None) of
                         Some s \<Rightarrow> Some (Inr s, dc\<lparr>dc_files := chm_emplace F (dc_files dc) key s\<rparr>, w)
                       | None \<Rightarrow>
                           let (s, ok, w) = dial endpoint w;
                               dc = dc\<lparr>dc_files := chm_emplace F (dc_files dc) key s\<rparr>
                           in if ok then Some (Inr s, dc\<lparr>dc_endpoints := chm_emplace E (dc_endpoints dc) endpoint s\<rparr>, w)
                              else Some (Inl (), dc, w)))))"

definition direct_request ::
  "(bytes, 'v, 'f) chmap \<Rightarrow> (worker_endpoint, 'v, 'e) chmap \<Rightarrow> ('w \<Rightarrow> 'v \<Rightarrow> bool) \<Rightarrow> (worker_endpoint \<Rightarrow> 'w \<Rightarrow> 'v \<times> bool \<times> 'w) \<Rightarrow>
     (packet \<Rightarrow> 'w \<Rightarrow> ((unit + bytes) \<times> 'w) option) \<Rightarrow> ('w \<Rightarrow> 'v \<Rightarrow> worker_endpoint option) \<Rightarrow> ('v, 'w) net \<Rightarrow> packet \<Rightarrow>
     ('f, 'e) direct_client \<times> 'w \<Rightarrow> ((unit + bytes) \<times> ('f, 'e) direct_client \<times> 'w) option" where
  "direct_request F E is_open dial ask remote N pack dcw =
     (case get_direct_worker_socket F E is_open dial ask pack dcw of
        None \<Rightarrow> None
      | Some (Inl _, dcw) \<Rightarrow> Some (Inl (), dcw)
      | Some (Inr selected, dc, w) \<Rightarrow> do {
          (_, pbuf) \<leftarrow> serialize pack;
          let (r, w) = exchange N selected pbuf w;
          Some (case r of
              Inr data \<Rightarrow> (Inr data, dc, w)
            | Inl _ \<Rightarrow> (Inl (), dc\<lparr>dc_files := chm_erase F (dc_files dc) (ph_key (pk_header pack)),
                            dc_endpoints := (case remote w selected of None \<Rightarrow> dc_endpoints dc | Some e \<Rightarrow> chm_erase E (dc_endpoints dc) e)\<rparr>, w))
        })"

definition direct_send ::
  "(bytes, 'v, 'f) chmap \<Rightarrow> (worker_endpoint, 'v, 'e) chmap \<Rightarrow> ('w \<Rightarrow> 'v \<Rightarrow> bool) \<Rightarrow> (worker_endpoint \<Rightarrow> 'w \<Rightarrow> 'v \<times> bool \<times> 'w) \<Rightarrow>
     (packet \<Rightarrow> 'w \<Rightarrow> ((unit + bytes) \<times> 'w) option) \<Rightarrow> ('w \<Rightarrow> 'v \<Rightarrow> worker_endpoint option) \<Rightarrow> ('v, 'w) net \<Rightarrow> packet \<Rightarrow>
     ('f, 'e) direct_client \<times> 'w \<Rightarrow> ((unit + bytes) \<times> ('f, 'e) direct_client \<times> 'w) option" where
  "direct_send F E is_open dial ask remote N pack dcw = retry_loop (direct_request F E is_open dial ask remote N pack) 0 dcw"

text \<open>
  \<^verbatim>\<open>client_pool::send\<close>: clients are drawn until one is free. \<open>draw i\<close> is the \<open>i\<close>-th drawn index and \<open>free i c\<close> tells whether the lock of client \<open>c\<close>
  is free at that moment.
\<close>

partial_function (option) pool_pick :: "(nat \<Rightarrow> nat) \<Rightarrow> (nat \<Rightarrow> nat \<Rightarrow> bool) \<Rightarrow> nat \<Rightarrow> nat option" where
  "pool_pick draw free i = (if free i (draw i) then Some (draw i) else pool_pick draw free (i + 1))"

lemma pool_pick_returns:
  assumes "\<exists>n \<ge> i. free n (draw n)"
  shows "\<exists>n \<ge> i. pool_pick draw free i = Some (draw n) \<and> free n (draw n)"
proof -
  from assms obtain n where n: "i \<le> n" "free n (draw n)" by blast
  then show ?thesis
  proof (induction "n - i" arbitrary: i)
    case (Suc k)
    show ?case
    proof (cases "free i (draw i)")
      case False
      have "k = n - Suc i" "Suc i \<le> n" using Suc.hyps(2) by linarith+
      from Suc.hyps(1) [OF this Suc.prems(2)] obtain m where "m \<ge> Suc i" "pool_pick draw free (Suc i) = Some (draw m)" "free m (draw m)"
        by blast
      with False show ?thesis by (intro exI [of _ m]) (simp add: pool_pick.simps [of draw free i])
    next
      case True
      then show ?thesis by (intro exI [of _ i]) (simp add: pool_pick.simps [of draw free i])
    qed
  next
    case 0
    then show ?case by (intro exI [of _ i]) (simp add: pool_pick.simps [of draw free i])
  qed
qed

section \<open>The table of connections\<close>

lemma omap_okD:
  assumes "omap_ok M"
  shows "om_find M (om_empty M) = Map.empty"
    and "om_find M (om_emplace M t k v) = (if om_find M t k = None then (om_find M t)(k \<mapsto> v) else om_find M t)"
    and "map_of (om_range M t) = om_find M t" "sorted_wrt (<) (map fst (om_range M t))"
  using assms unfolding omap_ok_def by simp_all

lemma omap_keys:
  assumes "omap_ok M"
  shows "map fst (om_range M t) = sorted_list_of_set (dom (om_find M t))" "finite (dom (om_find M t))"
proof -
  have d: "dom (om_find M t) = set (map fst (om_range M t))" using omap_okD(3) [OF assms] by (metis dom_map_of_conv_image_fst set_map)
  then show "finite (dom (om_find M t))" by simp
  show "map fst (om_range M t) = sorted_list_of_set (dom (om_find M t))"
    unfolding d using omap_okD(4) [OF assms, of t] sorted_list_of_set.idem_if_sorted_distinct [of "map fst (om_range M t)"]
    by (metis strict_sorted_iff)
qed

lemma connect_loop_dom:
  assumes "omap_ok M"
  shows "connect_loop M is_open fresh old us new = Some t \<Longrightarrow> dom (om_find M t) = dom (om_find M new) \<union> set us"
proof (induction us arbitrary: new)
  case (Cons u us)
  then obtain s where "connect_loop M is_open fresh old us (om_emplace M new u s) = Some t"
    by (auto split: option.splits if_splits bind_splits)
  from Cons.IH [OF this] show ?case by (auto simp: omap_okD(2) [OF assms])
qed simp

lemma client_reconfigure_dom:
  assumes M: "omap_ok M" and r: "client_reconfigure M is_open fresh us old = Some t" and d: "distinct us"
  shows "dom (om_find M t) = set us"
proof (cases "length us = length (om_range M old) \<and> list_all (\<lambda>u. om_find M old u \<noteq> None) us")
  case True
  then have t: "t = old" using r by (simp add: client_reconfigure_def)
  have "set us \<subseteq> dom (om_find M old)" using True by (auto simp: list_all_iff)
  moreover have "card (set us) = card (dom (om_find M old))"
    using True omap_keys(1) [OF M, of old] d by (metis distinct_card length_map sorted_list_of_set.length_sorted_key_list_of_set)
  ultimately show ?thesis using card_subset_eq [OF omap_keys(2) [OF M]] unfolding t by metis
next
  case False
  then have "connect_loop M is_open fresh old us (om_empty M) = Some t" using r by (auto simp: client_reconfigure_def)
  from connect_loop_dom [OF M this] show ?thesis by (simp add: omap_okD(1) [OF M])
qed

lemma find_pairs:
  "distinct (map fst xs) \<Longrightarrow> List.find (\<lambda>(k, _). P k) xs = map_option (\<lambda>k. (k, the (map_of xs k))) (List.find P (map fst xs))"
proof (induction xs)
  case (Cons x xs)
  have "k \<in> set (map fst xs)" if "List.find P (map fst xs) = Some k" for k
    using that by (metis find_Some_iff nth_mem)
  then have "k \<noteq> fst x" if "List.find P (map fst xs) = Some k" for k
    using that Cons.prems by (metis distinct.simps(2) list.simps(9))
  with Cons show ?case by (cases x) (auto simp: option.map_comp intro: option.map_cong)
qed simp

lemma select_proxy_owner:
  assumes "omap_ok M" "dom (om_find M t) \<noteq> {}"
  shows "select_proxy M t key = om_find M t (owner (dom (om_find M t)) key)"
proof -
  note k = omap_keys [OF assms(1), of t]
  let ?xs = "om_range M t"
  have d: "distinct (map fst ?xs)" using k by simp
  have p: "proxy_of (map fst ?xs) key = Some (owner (dom (om_find M t)) key)" using proxy_of_owner [OF k(2) assms(2)] k(1) by simp
  have get: "om_find M t u = Some (the (map_of ?xs u))" if "u \<in> set (map fst ?xs)" for u
    using that omap_okD(3) [OF assms(1), of t] k by auto
  show ?thesis
  proof (cases "List.find (array_less key) (map fst ?xs)")
    case (Some u)
    then have "u \<in> set (map fst ?xs)" by (auto simp: find_Some_iff)
    with Some p get show ?thesis by (simp add: select_proxy_def om_upper_bound_def find_pairs [OF d] proxy_of_def)
  next
    case None
    with p obtain s xs where "?xs = (owner (dom (om_find M t)) key, s) # xs"
      by (cases ?xs) (auto simp: proxy_of_def)
    moreover have "om_upper_bound M t key = None" using None by (simp add: om_upper_bound_def find_pairs [OF d])
    moreover have "om_find M t (owner (dom (om_find M t)) key) = map_of ?xs (owner (dom (om_find M t)) key)"
      by (simp add: omap_okD(3) [OF assms(1)])
    ultimately show ?thesis by (simp add: select_proxy_def)
  qed
qed

section \<open>Properties\<close>

text \<open>
  C7. Clients and proxies agree on the owner of a file. When the proxies \<open>U\<close> are registered and a client has read the list and
  connected to them, it sends every request for a file to the proxy that owns the key of the file, and that proxy, when it is notified of the same
  list, keeps the files it owns with its workers: it announces no other proxy for them.
\<close>

theorem client_reaches_owner:
  assumes Z: "zk_ok Z" and C: "codec_ok C" and M: "omap_ok M" and R: "ring Z C U z" "U \<noteq> {}"
    and client: "zk_reconfigure Z C M is_open fresh z proxys = Some t"
    and owned: "\<forall>(k, h, w) \<in> set (chm_range (fl_files (li_ftw L)) (fw_fileid (lc_ftw l))). owner U k = zm_uuid m"
  shows "owner U key \<in> U \<and> select_proxy M t key = om_find M t (owner U key) \<and> om_find M t (owner U key) \<noteq> None \<and>
    start_reconfigure Z C L resolve m z l = Some l"
proof -
  obtain cs where cs: "zk_children Z z proxy_dir = Some cs" "proxy_list C cs = Some (sorted_list_of_set U)"
    using ring_proxy_list [OF Z C R(1)] .
  have fin: "finite U" using R(1) by (simp add: ring_def)
  have "client_reconfigure M is_open fresh (sorted_list_of_set U) proxys = Some t" using client cs by (simp add: zk_reconfigure_def)
  then have d: "dom (om_find M t) = U" using client_reconfigure_dom [OF M] fin by fastforce
  have o: "owner U key \<in> U" using owner_in [OF fin R(2)] .
  have "sorted_list_of_set U \<noteq> []" using fin R(2) by simp
  note loop = reconfigure_loop_outs [OF this, of resolve "zm_uuid m" "chm_range (fl_files (li_ftw L)) (fw_fileid (lc_ftw l))" l]
  have "filter (\<lambda>(k, h, w). proxy_of (sorted_list_of_set U) k \<noteq> Some (zm_uuid m)) (chm_range (fl_files (li_ftw L)) (fw_fileid (lc_ftw l))) = []"
    using owned proxy_of_owner [OF fin R(2)] by (fastforce simp: filter_empty_conv)
  then have "start_reconfigure Z C L resolve m z l = Some l"
    by (simp add: start_reconfigure_def cs reconfigure_def loop)
  then show ?thesis using o d select_proxy_owner [OF M, of t key] R(2) by (auto simp: domIff)
qed

text \<open>
  C34. A name given to a client is listed by the data function. The packet that a client creates to add a file names the directory and, when
  the data function has read the table of the directory, makes it write the table with one more entry, after which a listing ends with this name. It
  holds for names of up to 60 bytes without a zero byte; for longer names the client writes behind the end of the entry.
\<close>

theorem added_name_is_listed:
  assumes pad: "length pad = 2" and dir: "dir_ok reserved fs" "reads_dir reserved fs content" "dir_ok reserved (fs @ [f])"
    and f: "f = filemeta_to_network_format \<lparr>fm_owner = 0, fm_permission = 16895, fm_filename = filename @ replicate (60 - length filename) 0\<rparr>"
    and nul: "0 \<notin> set filename"
  shows "if length filename \<le> 60
    then \<exists>p. pc_addfile salt sequ pad directory filename = Some p \<and> rp_uuid p = directory \<and>
      start_perform_metadata h pad' r (the (rp_meta_operation p)) = Start_addfile (meta_read_packet h pad' 4096) \<and>
      addfile_next h pad' (rp_data p) content = Meta_write (meta_write_packet h pad' (dir_mem reserved (fs @ [f]))) \<and>
      ls_next (dir_mem reserved (fs @ [f])) = Meta_reply (str ''total: '' @ to_string (Suc (length fs)) @ str '' files'' @ [10] @
        concat (map (\<lambda>f. printed_name (fm_filename f) @ [10]) fs) @ filename @ [10])
    else pc_addfile salt sequ pad directory filename = None"
proof (cases "length filename \<le> 60")
  case True
  have wf: "wf_filemeta f" using True by (simp add: f wf_filemeta_def filemeta_to_network_format_def)
  have len: "length (filemeta_mem f) = 64" using filemeta_codec(1) [OF wf] by (simp add: filemeta_size_def)
  define p where "p = meta_packet salt sequ pad directory M_addfile (filemeta_mem f)"
  have p: "pc_addfile salt sequ pad directory filename = Some p" using True by (simp add: pc_addfile_def p_def f)
  have rd: "rp_data p = filemeta_mem f" "rp_uuid p = directory"
    using build_packet_parse(2,3) pad by (simp_all add: p_def meta_packet_def trigger_header_def fresh_header_def)
  have mo: "rp_meta_operation p = Some (meta_operation_val M_addfile)"
    using pad by (simp add: p_def meta_packet_def build_packet_def rp_meta_operation_def rp_operation_def field_def request_mem_def
        to_network_format_def slice_def)
  have name: "printed_name (fm_filename f) = filename"
    using nul by (auto simp: f printed_name_def filemeta_to_network_format_def takeWhile_append)
  have "reads_dir reserved (fs @ [f]) (dir_mem reserved (fs @ [f]))" using length_dir_mem [OF dir(3)] by (simp add: reads_dir_def)
  note ls = ls_content [OF dir(3) this]
  have "take 64 (rp_data p) = filemeta_mem f" "64 \<le> length (rp_data p)" using rd(1) len by simp_all
  from addfile_content [OF dir(1,2) wf this] show ?thesis
    using True p rd(2) mo ls name meta_operation_of_val [of M_addfile] by (simp add: start_perform_metadata_def del: str_Cons)
qed (simp add: pc_addfile_def filemeta_size_def)

lemma retry_loop_total:
  assumes "\<And>s. request s = Some (f s)"
  shows "retry_loop request n s = (case f s of (Inr d, s') \<Rightarrow> Some (Inr d, s')
    | (Inl _, s') \<Rightarrow> if n > 3 then Some (Inl (), s') else retry_loop request (n + 1) s')"
  by (subst retry_loop.simps) (simp add: assms split: sum.splits prod.splits)

lemma retry_loop_tries:
  assumes total: "\<And>s. request s = Some (f s)"
  shows "retry_count \<le> 4 \<Longrightarrow> retry_loop request retry_count s =
    (if \<exists>k < 5 - retry_count. \<not> isl (fst (f (((snd \<circ> f) ^^ k) s)))
     then Some (f (((snd \<circ> f) ^^ (LEAST k. \<not> isl (fst (f (((snd \<circ> f) ^^ k) s))))) s))
     else Some (Inl (), ((snd \<circ> f) ^^ (5 - retry_count)) s))"
proof (induction "4 - retry_count" arbitrary: retry_count s)
  case 0
  then have n: "retry_count = 4" by simp
  show ?case
  proof (cases "fst (f s)")
    case (Inr d)
    then have "(LEAST k. \<not> isl (fst (f (((snd \<circ> f) ^^ k) s)))) = 0" by (intro Least_equality) auto
    then show ?thesis using Inr by (cases "f s") (simp add: retry_loop_total [OF total] n)
  next
    case (Inl u)
    then show ?thesis by (cases "f s") (simp add: retry_loop_total [OF total] n)
  qed
next
  case (Suc m)
  let ?P = "\<lambda>s k. \<not> isl (fst (f (((snd \<circ> f) ^^ k) s)))" and ?s = "snd (f s)"
  show ?case
  proof (cases "fst (f s)")
    case (Inr d)
    then have "(LEAST k. ?P s k) = 0" "?P s 0" by (auto intro: Least_equality)
    moreover have "0 < 5 - retry_count" using Suc.prems by simp
    ultimately have "\<exists>k < 5 - retry_count. ?P s k" by blast
    then show ?thesis using Inr \<open>(LEAST k. ?P s k) = 0\<close> by (cases "f s") (simp add: retry_loop_total [OF total])
  next
    case (Inl u)
    have le: "\<not> 3 < retry_count" "Suc retry_count \<le> 4" "5 - retry_count = Suc (5 - Suc retry_count)" "m = 4 - Suc retry_count"
      using Suc.hyps(2) by linarith+
    have step: "((snd \<circ> f) ^^ Suc k) s = ((snd \<circ> f) ^^ k) ?s" for k unfolding funpow_Suc_right by simp
    have P: "?P s (Suc k) = ?P ?s k" "\<not> ?P s 0" for k using Inl by (simp_all add: step del: funpow.simps(2))
    have ex: "(\<exists>k < 5 - retry_count. ?P s k) \<longleftrightarrow> (\<exists>k < 5 - Suc retry_count. ?P ?s k)"
      unfolding le(3) Ex_less_Suc2 P(1) using P(2) by blast
    have loop: "retry_loop request retry_count s = retry_loop request (Suc retry_count) ?s"
      using Inl le(1) by (cases "f s") (simp add: retry_loop_total [OF total, where n = retry_count])
    show ?thesis
    proof (cases "\<exists>k < 5 - Suc retry_count. ?P ?s k")
      case True
      then obtain k where "?P s (Suc k)" unfolding P(1) by blast
      from Least_Suc [of "?P s", OF this P(2)] have "(LEAST k. ?P s k) = Suc (LEAST k. ?P ?s k)" unfolding P(1) .
      then have "((snd \<circ> f) ^^ (LEAST k. ?P s k)) s = ((snd \<circ> f) ^^ (LEAST k. ?P ?s k)) ?s" using step by metis
      then show ?thesis using True ex unfolding loop Suc.hyps(1) [OF le(4,2), of ?s] by metis
    next
      case False
      then show ?thesis using ex step unfolding loop Suc.hyps(1) [OF le(4,2), of ?s] le(3) by metis
    qed
  qed
qed

text \<open>
  C27. A request is tried at most five times. The first answer that arrives is returned; when the first five tries all end with an
  exception, so does the request. Every try sends the request again, to the same connection: \<open>f\<close> is one try, a function of the state of the network.
\<close>

theorem request_tried_five_times:
  assumes p: "serialize pack = Some (p', pbuf)" "select_proxy M proxys (ph_key (pk_header pack)) = Some selected"
    and f: "f = exchange N selected pbuf"
  shows "client_send M N proxys pack w =
    (if \<exists>k < 5. \<not> isl (fst (f (((snd \<circ> f) ^^ k) w)))
     then Some (f (((snd \<circ> f) ^^ (LEAST k. \<not> isl (fst (f (((snd \<circ> f) ^^ k) w))))) w))
     else Some (Inl (), ((snd \<circ> f) ^^ 5) w))"
proof -
  have "send_request M N proxys pack w = Some (f w)" for w using p by (simp add: send_request_def f)
  from retry_loop_tries [of "send_request M N proxys pack" f 0 w, OF this] show ?thesis
    unfolding client_send_def by (simp only: diff_zero le0 if_True simp_thms)
qed

text \<open>
  A direct client connects to the worker it was told. When the proxy answers with the address of a worker and the connection succeeds, the client
  sends its requests for the file to the socket connected to this address, without asking the proxy again while the socket is open; requests for
  other files that are assigned to the same worker share the socket.
\<close>

theorem direct_client_connects:
  assumes ok: "chmap_ok F" "chmap_ok E" and new: "chm_find F (dc_files dc) key = None" "chm_find E (dc_endpoints dc) (ip, port) = None"
    and key: "key = ph_key (pk_header pack)" and ip: "length ip = 4"
    and ask: "ask \<lparr>pk_header = pk_header pack, pk_buf = []\<rparr> w = Some (Inr (ip @ mem16 (hton16 port)), w1)"
    and dial: "dial (ip, port) w1 = (s, True, w2)"
  shows "\<exists>dc'. get_direct_worker_socket F E is_open dial ask pack (dc, w) = Some (Inr s, dc', w2) \<and>
    (\<forall>w'. is_open w' s \<longrightarrow> get_direct_worker_socket F E is_open dial ask' pack (dc', w') = Some (Inr s, dc', w')) \<and>
    (\<forall>pack2 v v'. ph_key (pk_header pack2) \<noteq> key \<and> chm_find F (dc_files dc) (ph_key (pk_header pack2)) = None \<and> is_open v' s \<and>
        ask \<lparr>pk_header = pk_header pack2, pk_buf = []\<rparr> v = Some (Inr (ip @ mem16 (hton16 port)), v') \<longrightarrow>
      (\<exists>dc2. get_direct_worker_socket F E is_open dial ask pack2 (dc', v) = Some (Inr s, dc2, v')))"
proof -
  have ep: "parse_endpoint (ip @ mem16 (hton16 port)) = Some (ip, port)" using ip by (simp add: parse_endpoint_def slice_def)
  let ?dc = "dc\<lparr>dc_files := chm_emplace F (dc_files dc) key s, dc_endpoints := chm_emplace E (dc_endpoints dc) (ip, port) s\<rparr>"
  have "get_direct_worker_socket F E is_open dial ask pack (dc, w) = Some (Inr s, ?dc, w2)"
    using new key ask dial by (simp add: get_direct_worker_socket_def ep)
  moreover have "get_direct_worker_socket F E is_open dial ask' pack (?dc, w') = Some (Inr s, ?dc, w')" if "is_open w' s" for w'
    using that key new(1) by (simp add: get_direct_worker_socket_def chmap_laws [OF ok(1)])
  moreover have "\<exists>dc2. get_direct_worker_socket F E is_open dial ask pack2 (?dc, v) = Some (Inr s, dc2, v')"
    if "ph_key (pk_header pack2) \<noteq> key" "chm_find F (dc_files dc) (ph_key (pk_header pack2)) = None" "is_open v' s"
      "ask \<lparr>pk_header = pk_header pack2, pk_buf = []\<rparr> v = Some (Inr (ip @ mem16 (hton16 port)), v')" for pack2 v v'
    using that new by (simp add: get_direct_worker_socket_def chmap_laws [OF ok(1)] chmap_laws [OF ok(2)] ep)
  ultimately show ?thesis by blast
qed

text \<open>
  An entry of the table of files that is closed is never replaced: \<^verbatim>\<open>emplace\<close> does nothing when the key is present. Every later request for the file asks
  the proxy again, until a failed request erases the entry.
\<close>

lemma closed_entry_stays:
  assumes "chmap_ok F" "chm_find F (dc_files dc) (ph_key (pk_header pack)) = Some s"
    and "get_direct_worker_socket F E is_open dial ask pack (dc, w) = Some (r, dc', w')"
  shows "chm_find F (dc_files dc') (ph_key (pk_header pack)) = Some s"
  using assms(2,3)
  by (auto simp: get_direct_worker_socket_def chmap_laws [OF assms(1)] Let_def split: option.splits sum.splits if_splits prod.splits)

text \<open>
  A connection to a proxy that broke is not replaced while the list of proxies stays the same.
\<close>

lemma broken_proxy_kept:
  assumes "omap_ok M" "dom (om_find M t) = set us" "distinct us"
  shows "client_reconfigure M is_open fresh us t = Some t"
proof -
  have "length us = card (dom (om_find M t))" using assms(2,3) by (simp add: distinct_card)
  also have "\<dots> = length (om_range M t)" using omap_keys [OF assms(1), of t] by (metis length_map sorted_list_of_set.length_sorted_key_list_of_set)
  finally show ?thesis using assms(2) by (auto simp: client_reconfigure_def list_all_iff domIff)
qed

section \<open>Witnesses\<close>

definition al_omap :: "('v, (bytes \<times> 'v) list) omap" where
  "al_omap = \<lparr>om_empty = [], om_find = map_of,
     om_emplace = (\<lambda>t k v. if map_of t k = None then (k, v) # t else t),
     om_range = (\<lambda>t. map (\<lambda>k. (k, the (map_of t k))) (sorted_list_of_set (set (map fst t))))\<rparr>"

lemma al_omap_ok: "omap_ok al_omap"
proof -
  have "map_of (map (\<lambda>k. (k, the (map_of t k))) (sorted_list_of_set (set (map fst t)))) = map_of t" for t :: "(bytes \<times> 'v) list"
  proof
    fix k
    show "map_of (map (\<lambda>k. (k, the (map_of t k))) (sorted_list_of_set (set (map fst t)))) k = map_of t k"
    proof (cases "map_of t k")
      case None
      then have "k \<notin> set (map fst t)" by (simp add: map_of_eq_None_iff)
      with None show ?thesis by (simp add: map_of_map_restrict restrict_map_def)
    next
      case (Some v)
      then have "k \<in> set (map fst t)" by (metis map_of_eq_None_iff option.simps(3) set_map)
      with Some show ?thesis by (simp add: map_of_map_restrict restrict_map_def)
    qed
  qed
  then show ?thesis by (auto simp: omap_ok_def al_omap_def fun_eq_iff comp_def)
qed

text \<open>The choice of the client library is the choice of the launcher: on a table of connections to the listed proxies.\<close>

lemma al_omap_identities:
  "finite U \<Longrightarrow> om_find al_omap (map (\<lambda>u. (u, u)) (sorted_list_of_set U)) = (\<lambda>u. if u \<in> U then Some u else None)"
  by (rule ext) (simp add: al_omap_def map_of_map_restrict restrict_map_def)

interpretation client_ring: ownership "\<lambda>us. select_proxy al_omap (map (\<lambda>u. (u, u)) us)"
proof unfold_locales
  fix U :: "bytes set" and k assume U: "finite U" "U \<noteq> {}"
  have d: "dom (om_find al_omap (map (\<lambda>u. (u, u)) (sorted_list_of_set U))) = U"
    using al_omap_identities [OF U(1)] by (auto simp: dom_def)
  show "select_proxy al_omap (map (\<lambda>u. (u, u)) (sorted_list_of_set U)) k = Some (owner U k)"
    using select_proxy_owner [OF al_omap_ok, of "map (\<lambda>u. (u, u)) (sorted_list_of_set U)" k] U owner_in [OF U, of k]
    unfolding d by (simp add: al_omap_identities)
qed

lemma client_follows_launcher:
  assumes "finite U" "U \<noteq> {}"
  shows "select_proxy al_omap (map (\<lambda>u. (u, u)) (sorted_list_of_set U)) k = proxy_of (sorted_list_of_set U) k"
  by (rule client_ring.picks_agree [OF proxy_ring.ownership_axioms assms])

theorem client_reaches_owner_witness:
  "\<exists>t. zk_reconfigure mem_zk esc_codec al_omap (\<lambda>_. True) (\<lambda>u. Some (hd u)) sample_zk [] = Some t \<and>
     select_proxy al_omap t (replicate 32 3) = om_find al_omap t (replicate 32 9)"
proof -
  let ?U = "{replicate 32 3, replicate 32 9} :: bytes set"
  have loop: "\<exists>t. connect_loop al_omap (\<lambda>_. True) (\<lambda>u. Some (hd u)) [] us new = Some t" for us new
    by (induction us arbitrary: new) (simp_all add: al_omap_def)
  obtain cs where cs: "zk_children mem_zk sample_zk proxy_dir = Some cs" "proxy_list esc_codec cs = Some (sorted_list_of_set ?U)"
    using ring_proxy_list [OF mem_zk_ok esc_codec_ok sample_ring] .
  have "\<exists>t. client_reconfigure al_omap (\<lambda>_. True) (\<lambda>u. Some (hd u)) us [] = Some t" for us
    using loop by (simp add: client_reconfigure_def)
  then obtain t where t: "zk_reconfigure mem_zk esc_codec al_omap (\<lambda>_. True) (\<lambda>u. Some (hd u)) sample_zk [] = Some t"
    using cs by (auto simp: zk_reconfigure_def simp del: mem_zk_simps sorted_list_of_set_insert)
  let ?l = "launcher_new sample_libs (new_fix_pool 1 1) K_base Lowest_load"
  have "\<forall>(k, h, w) \<in> set (chm_range (fl_files (li_ftw sample_libs)) (fw_fileid (lc_ftw ?l))). owner ?U k = zm_uuid sample_member"
    by (simp add: launcher_eval)
  from client_reaches_owner [OF mem_zk_ok esc_codec_ok al_omap_ok sample_ring _ t this, of "replicate 32 3" undefined] t
  show ?thesis unfolding sample_owner by blast
qed

theorem added_name_is_listed_witness:
  "\<exists>p. pc_addfile [1, 1, 1, 1] [2, 2, 2, 2] [0, 0] (replicate 32 5) (str ''ab'') = Some p \<and> rp_uuid p = replicate 32 5 \<and>
     addfile_next sample_header [0, 0] (rp_data p) (dir_mem (replicate 60 0) []) =
       Meta_write (meta_write_packet sample_header [0, 0] (dir_mem (replicate 60 0)
         [filemeta_to_network_format \<lparr>fm_owner = 0, fm_permission = 16895, fm_filename = str ''ab'' @ replicate 58 0\<rparr>]))"
proof -
  let ?f = "filemeta_to_network_format \<lparr>fm_owner = 0, fm_permission = 16895, fm_filename = str ''ab'' @ replicate 58 0\<rparr>"
  have ok: "dir_ok (replicate 60 0) []" "dir_ok (replicate 60 0) ([] @ [?f])"
    by (simp_all add: dir_ok_def wf_filemeta_def filemeta_to_network_format_def)
  have "reads_dir (replicate 60 0) [] (dir_mem (replicate 60 0) [])" using length_dir_mem [OF ok(1)] by (simp add: reads_dir_def)
  from added_name_is_listed [where filename = "str ''ab''" and directory = "replicate 32 5" and salt = "[1, 1, 1, 1]" and sequ = "[2, 2, 2, 2]"
      and h = sample_header and pad' = "[0, 0]" and f = ?f, OF _ ok(1) this ok(2), of "[0, 0]"]
  show ?thesis by auto
qed

theorem request_tried_five_times_witness:
  "client_send al_omap \<lparr>net_write = (\<lambda>s b n. (n < (2 :: nat), n + 1)), net_read = (\<lambda>s n w. (None, w))\<rparr> [(replicate 32 9, ())]
     (sample_put [7]) 0 = Some (Inl (), 5)"
proof -
  let ?N = "\<lparr>net_write = (\<lambda>s b n. (n < (2 :: nat), n + 1)), net_read = (\<lambda>s n w. (None, w))\<rparr> :: (unit, nat) net"
  have sel: "select_proxy al_omap [(replicate 32 9, ())] k = Some ()" for k
    by (simp add: select_proxy_def om_upper_bound_def al_omap_def)
  obtain p' pbuf where p: "serialize (sample_put [7]) = Some (p', pbuf)"
    by (simp add: serialize_def sample_put_def sample_header_def bytesize_def Let_def)
  define f where "f = exchange ?N () pbuf"
  have f: "f n = (Inl (), n + 1)" for n by (simp add: f_def exchange_def)
  have iter: "((snd \<circ> f) ^^ k) n = n + k" for k n by (induction k) (simp_all add: f)
  show ?thesis using request_tried_five_times [OF p sel f_def, of 0] by (simp add: f iter)
qed

theorem direct_client_connects_witness:
  "\<exists>dc'. get_direct_worker_socket al_chmap al_chmap (\<lambda>_ _. True) (\<lambda>e w. (fst e, True, w)) (\<lambda>_ w. Some (Inr ([10, 0, 0, 1] @ mem16 (hton16 2000)), w))
     (sample_put []) (\<lparr>dc_files = [], dc_endpoints = []\<rparr>, ()) = Some (Inr [10, 0, 0, 1], dc', ())"
  using direct_client_connects [OF al_chmap_ok al_chmap_ok, of "\<lparr>dc_files = [], dc_endpoints = []\<rparr>" "ph_key (pk_header (sample_put []))"
      "[10, 0, 0, 1]" 2000 "sample_put []" "\<lambda>_ w. Some (Inr ([10, 0, 0, 1] @ mem16 (hton16 2000)), w)" "()" "()" "\<lambda>e w. (fst e, True, w)" "[10, 0, 0, 1]" "()"
      "\<lambda>_ _. True"]
  by (auto simp: al_chmap_def)

end
