(* ===== verification/File_Session.thy ===== *)
theory File_Session
  imports Client_Lib
begin

text \<open>
  A client that talks to a data function directly, down to the block servers: the bytes a client writes are cut into packets by the
  connection of the data function (\<open>direct_connection\<close>), each packet becomes a job (\<open>run_job\<close>) on the two-phase-commit storage
  (\<open>run_write\<close>, \<open>run_read\<close>), and the serialized responses are what the client reads. Nothing here models code of its own; it composes the
  models of the components.
\<close>

section \<open>The storage behind a job\<close>

text \<open>\<open>start_perform\<close> with the answer that its callbacks pass on, against block servers \<open>srvs\<close>.\<close>

definition first_reply :: "bytes list \<Rightarrow> bytes" where
  "first_reply rs = (case rs of r # _ \<Rightarrow> r | [] \<Rightarrow> [])"

definition ssbd_storage ::
  "'db leveldb \<Rightarrow> 't filecheckmap \<Rightarrow> (bytes \<Rightarrow> nat \<Rightarrow> nat \<Rightarrow> nat) \<Rightarrow> conf \<Rightarrow> u32 \<Rightarrow> (u32 \<Rightarrow> bytes) \<Rightarrow>
     (nat \<Rightarrow> 'db ssbd) \<times> 't \<Rightarrow> jinput \<Rightarrow> ((nat \<Rightarrow> 'db ssbd) \<times> 't) \<times> bytes" where
  "ssbd_storage L M draw cf ver salt s inp =
     (if is_write inp then
        (case run_write (ssbd_request L) M draw cf (fst s) (snd s) inp ver salt of
           Some (srvs, job) \<Rightarrow> ((srvs, wj_checked job), first_reply (wj_replies job)) | None \<Rightarrow> (s, []))
      else
        (case run_read (ssbd_request L) draw cf (fst s) (snd s) inp salt of
           Some (srvs, job) \<Rightarrow> ((srvs, rd_checked job), first_reply (rd_replies job)) | None \<Rightarrow> (s, [])))"

section \<open>The connection\<close>

definition packets_bytes :: "packet list \<Rightarrow> bytes" where
  "packets_bytes ps = concat (map (\<lambda>p. snd (the (serialize p))) ps)"

fun serve_events ::
  "('b, 't) file_map \<Rightarrow> 'b block_map \<Rightarrow> ('s \<Rightarrow> jinput \<Rightarrow> 's \<times> bytes) \<Rightarrow> ('s \<Rightarrow> jinput \<Rightarrow> 's \<times> bytes) \<Rightarrow> direct_event list \<Rightarrow>
     's \<times> 't cache \<Rightarrow> (bytes \<times> 's \<times> 't cache) option" where
  "serve_events M B storage metadata [] sc = Some ([], sc)"
| "serve_events M B storage metadata (Job p # es) sc = do {
     (rs, sc) \<leftarrow> run_job M B storage metadata True False p sc;
     (out, sc) \<leftarrow> serve_events M B storage metadata es sc;
     Some (packets_bytes rs @ out, sc)
   }"
| "serve_events M B storage metadata (Error_reply p # es) sc = do {
     (out, sc) \<leftarrow> serve_events M B storage metadata es sc;
     Some (packets_bytes [p] @ out, sc)
   }"

text \<open>The network of a client with one connection: what it writes is served, what the data function answers can be read.\<close>

definition worker_net ::
  "('b, 't) file_map \<Rightarrow> 'b block_map \<Rightarrow> ('s \<Rightarrow> jinput \<Rightarrow> 's \<times> bytes) \<Rightarrow> ('s \<Rightarrow> jinput \<Rightarrow> 's \<times> bytes) \<Rightarrow>
     ('v, bytes \<times> 's \<times> 't cache) net" where
  "worker_net M B storage metadata =
     \<lparr>net_write = (\<lambda>_ b (out, sc). case serve_events M B storage metadata (direct_connection b) sc of
          Some (out', sc') \<Rightarrow> (True, out @ out', sc') | None \<Rightarrow> (False, out, sc)),
      net_read = (\<lambda>_ n (out, sc). if length out < n then (None, out, sc) else (Some (take n out), drop n out, sc))\<rparr>"

section \<open>One request\<close>

lemma direct_job:
  assumes "wf_header (pk_header p)" "bytesize + length (pk_buf p) < 2 ^ 32" "ph_type (pk_header p) = msg_val Trigger"
  shows "direct_connection (snd (the (serialize p))) = [Job (p\<lparr>pk_header := sized p\<rparr>)]"
proof -
  have "msg_of (ph_type (pk_header p)) = Some Trigger" using assms(3) by (simp add: msg_of_def msg_list_def)
  then show ?thesis using direct_connection_serves [of "[p]"] assms(1,2) by simp
qed

text \<open>A request that is answered with \<open>r\<close> gives the client exactly \<open>r\<close>, and leaves nothing to read.\<close>

lemma exchange_answer:
  assumes p: "wf_header (pk_header p)" "bytesize + length (pk_buf p) < 2 ^ 32" "ph_type (pk_header p) = msg_val Trigger"
    and run: "run_job M B storage metadata True False (p\<lparr>pk_header := sized p\<rparr>) sc = Some ([job_response (p\<lparr>pk_header := sized p\<rparr>) r], sc')"
    and r: "bytesize + length r < 2 ^ 32"
  shows "exchange (worker_net M B storage metadata) v (snd (the (serialize p))) ([], sc) = (Inr r, [], sc')"
proof -
  let ?a = "job_response (p\<lparr>pk_header := sized p\<rparr>) r"
  have buf: "pk_buf ?a = r" by (simp add: job_response_def)
  have wf: "wf_header (sized ?a)" using p(1) by (simp add: job_response_def wf_header_def sized_def)
  have ser: "serialize ?a = Some (?a\<lparr>pk_header := sized ?a\<rparr>, dump (sized ?a) @ r)" "unat (ph_datasize (sized ?a)) = length r"
    using serialize_Some [of ?a] r unfolding buf by blast+
  have out: "serve_events M B storage metadata (direct_connection (snd (the (serialize p)))) sc = Some (dump (sized ?a) @ r, sc')"
    unfolding direct_job [OF p] using run ser(1) by (simp add: packets_bytes_def)
  show ?thesis
    using out ser(2) length_dump_header [OF wf] parse_dump_header [OF wf]
    by (simp add: exchange_def worker_net_def)
qed

section \<open>Writing and reading a file\<close>

lemma client_packets:
  assumes "length key = 32" "length salt = 4" "length sequ = 4" "length pad = 2" "bytesize + 12 + length buf < 2 ^ 32"
  shows "wf_header (pk_header (pc_write salt sequ pad key buf))" "wf_header (pk_header (pc_read salt sequ pad key n))"
    and "bytesize + length (pk_buf (pc_write salt sequ pad key buf)) < 2 ^ 32" "bytesize + length (pk_buf (pc_read salt sequ pad key n)) < 2 ^ 32"
    and "ph_type (pk_header (pc_write salt sequ pad key buf)) = msg_val Trigger" "ph_type (pk_header (pc_read salt sequ pad key n)) = msg_val Trigger"
  using assms by (simp_all add: pc_write_def pc_read_def build_packet_def trigger_header_def fresh_header_def wf_header_def request_mem_def)

definition file_input :: "bytes \<Rightarrow> operation_t \<Rightarrow> u32 \<Rightarrow> u32 \<Rightarrow> bytes \<Rightarrow> jinput" where
  "file_input key oper pos n data = \<lparr>in_uuid = key,
     in_request = \<lparr>rq_type = type_val T_file, rq_operation = operation_val oper, rq_position = pos, rq_size = n\<rparr>, in_data = data\<rparr>"

lemma parse_sized: "parse_input (p\<lparr>pk_header := sized p\<rparr>) = parse_input p"
  by (simp add: parse_input_def rp_uuid_def copy_request_def field_def rp_data_def rp_type_def rp_operation_def
      rp_position_def rp_size_def sized_def)

lemma client_inputs:
  assumes "length pad = 2"
  shows "parse_input (pc_write salt sequ pad key buf) = Some (file_input key Op_write 0 (of_nat (length buf)) buf)"
    and "parse_input (pc_read salt sequ pad key n) = Some (file_input key Op_read 0 n [])"
  using build_packet_parse(1,2) [OF assms] build_packet_parse(3)
  by (simp_all add: parse_input_def pc_write_def pc_read_def file_input_def trigger_header_def fresh_header_def)

lemma run_file_job:
  assumes "parse_input p = Some inp" "rq_type (in_request inp) = type_val T_file" "storage s inp = (s', r)"
    and "is_write inp \<or> chm_find M (ca_map c) (in_uuid inp) = None"
  shows "run_job M B storage metadata True False (p\<lparr>pk_header := sized p\<rparr>) (s, c) = Some ([job_response (p\<lparr>pk_header := sized p\<rparr>) r], s', c)"
proof -
  have "type_of_byte (rq_type (in_request inp)) = Some T_file" unfolding assms(2) by (rule type_of_val)
  then show ?thesis using assms(1,3,4)
    by (auto simp: run_job_def parse_sized perform_request_def start_storage_perform_def read_from_cache_def on_write_done_def on_read_done_def)
qed

text \<open>
  The storage answers a write, and after an \<^verbatim>\<open>OK\<close> it answers a read of the same range with the bytes of the write, also when the read is made by another
  data function, whose table \<open>rchecked\<close> of checked files is another one.
\<close>

lemma storage_session:
  fixes ver checked
  assumes L: "leveldb_ok L" "chmap_ok M" "draw_ok draw" "conf_ok cf" "\<forall>b. length (salt b) = 4"
    and key: "length key = 32" and buf: "buf \<noteq> []" "unat pos + length buf < 2 ^ 32" and inv: "\<forall>i. ssbd_inv L (srvs i)"
  defines "st \<equiv> ssbd_storage L M draw cf ver salt"
  obtains s' r where "st (srvs, checked) (file_input key Op_write pos (of_nat (length buf)) buf) = (s', r)"
    "r = str ''OK'' \<or> r = str ''Error: Found Pending 2PC Log''"
    "\<And>rchecked. r = str ''OK'' \<Longrightarrow> \<exists>s''. st (fst s', rchecked) (file_input key Op_read pos (of_nat (length buf)) []) = (s'', buf)"
proof -
  let ?w = "file_input key Op_write pos (of_nat (length buf)) buf" and ?r = "file_input key Op_read pos (of_nat (length buf)) []"
  have n: "unat (of_nat (length buf) :: u32) = length buf" using buf(2) by (simp add: unat_of_nat)
  have "(of_nat (length buf) :: u32) \<noteq> 0" using n buf(1) by (metis length_0_conv unat_0)
  then have ok: "input_ok cf ?w salt" "input_ok cf ?r salt"
    using L(4,5) key n buf(2) by (simp_all add: input_ok_def file_input_def in_size_def in_position_def)
  have data: "unat (in_size ?w) \<le> length (in_data ?w)" using n by (simp add: file_input_def in_size_def)
  have kinds: "is_write ?w" "\<not> is_write ?r" by (simp_all add: is_write_def file_input_def)
  obtain cs where plan: "plan cf ?w cs" using ok(1) by (rule input_plan)
  note srv = ssbd_is_block_server [OF L(1)]
  obtain s' job where w: "run_write (ssbd_request L) M draw cf srvs checked ?w ver salt = Some (s', job)"
    "wj_replies job = [str ''OK''] \<or> wj_replies job = [str ''Error: Found Pending 2PC Log'']"
  proof (rule block_server.write_run [where srvs = srvs and checked = checked and ver = ver, OF srv L(2,3) ok(1) data plan])
    show "ssbd_inv L (srvs (primary draw cf (in_uuid ?w)))" using inv by blast
  qed (simp del: str_Cons split: if_splits)
  have "\<exists>s''. st (s', rchecked) ?r = (s'', buf)" if "wj_replies job = [str ''OK'']" for rchecked
    using written_is_read [where srvs = srvs and rchecked = rchecked, OF L(1-3) ok data inv _ _ _ w(1) that] kinds n
    by (auto simp: st_def ssbd_storage_def first_reply_def file_input_def in_size_def in_position_def)
  with w kinds show thesis
    by (intro that [of "(s', wj_checked job)" "first_reply (wj_replies job)"]) (auto simp: st_def ssbd_storage_def first_reply_def)
qed

section \<open>A concrete session\<close>

text \<open>On new block servers no write is pending.\<close>

lemma fresh_write_ok:
  "\<exists>s'. ssbd_storage mem_leveldb al_chmap (\<lambda>u n k. 0) sample_conf 9 (\<lambda>b. [1, 2, 3, 4]) (\<lambda>i. empty_ssbd, [])
     (file_input (replicate 32 65) Op_write 0 3 [7, 8, 9]) = (s', str ''OK'')"
proof -
  let ?inp = "file_input (replicate 32 65) Op_write 0 3 [7, 8, 9]"
  have ok: "input_ok sample_conf ?inp (\<lambda>b. [1, 2, 3, 4])" using sample_input_ok
    by (simp add: input_ok_def file_input_def in_size_def in_position_def)
  obtain cs where plan: "plan sample_conf ?inp cs" using ok by (rule input_plan)
  have data: "unat (in_size ?inp) \<le> length (in_data ?inp)" by (simp add: in_size_def file_input_def)
  have agr: "all_agree q (view mem_leveldb empty_ssbd) u cs" for q u cs
    by (simp add: all_agree_def refuses_def view_empty_ssbd a_open_def fresh_log_def pending_def)
  obtain srvs1 job where "run_write (ssbd_request mem_leveldb) al_chmap (\<lambda>u n k. 0) sample_conf (\<lambda>i. empty_ssbd) [] ?inp 9 (\<lambda>b. [1, 2, 3, 4]) =
      Some (srvs1, job)" "wj_replies job = [str ''OK'']"
    by (rule mem_store.srv.write_run [where srvs = "\<lambda>i. empty_ssbd" and checked = "[]" and ver = 9,
        OF al_chmap_ok draw_zero_ok ok data plan]) (use empty_ssbd_inv agr in simp_all)
  moreover have "is_write ?inp" by (simp add: is_write_def file_input_def)
  ultimately show ?thesis by (simp add: ssbd_storage_def first_reply_def del: str_Cons)
qed

definition sample_net :: "(unit, bytes \<times> ((nat \<Rightarrow> (bytes \<rightharpoonup> bytes) ssbd) \<times> (bytes \<times> int) list) \<times> (bytes \<times> (u32 \<times> bytes) list) list cache) net" where
  "sample_net = worker_net al_chmap al_chmap (ssbd_storage mem_leveldb al_chmap (\<lambda>u n k. 0) sample_conf 9 (\<lambda>b. [1, 2, 3, 4])) (\<lambda>s i. (s, []))"

end
