(* ===== verification/Kv_Storage.thy ===== *)
theory Kv_Storage
  imports Membership Storage_Conf
begin

text \<open>
  The two key-value backends of a data function: \<^verbatim>\<open>storage-conf-cass.hpp\<close> with \<^verbatim>\<open>storage-cassandra.hpp\<close>, and \<^verbatim>\<open>storage-conf-swift.hpp\<close> with
  \<^verbatim>\<open>storage-swiftkv-minio.hpp\<close>. The database, the object store and the base64 codecs are parameters. Both configurations have one host. Shown: what is
  written at the beginning of a block is read again; at another position, and in Swift in another block, it is not.
\<close>

section \<open>Libraries\<close>

text \<open>
  A Cassandra table: \<open>INSERT\<close> and \<open>SELECT\<close> by key; a failed query gives no row. \<open>url_enc\<close> and \<open>url_dec\<close> are
  \<^verbatim>\<open>cppcodec::base64_url\<close>, whose decoder throws (\<open>None\<close>).
\<close>

record 'c kvlib =
  kv_insert :: "'c \<Rightarrow> bytes \<Rightarrow> bytes \<Rightarrow> 'c"
  kv_select :: "'c \<Rightarrow> bytes \<Rightarrow> bytes option"
  url_enc :: "bytes \<Rightarrow> bytes"
  url_dec :: "bytes \<Rightarrow> bytes option"

definition kvlib_ok :: "'c kvlib \<Rightarrow> bool" where
  "kvlib_ok K \<longleftrightarrow> (\<forall>d k v k'. kv_select K (kv_insert K d k v) k' = (if k' = k then Some v else kv_select K d k')) \<and>
     (\<forall>b. url_dec K (url_enc K b) = Some b)"

text \<open>An object store: \<open>obj_get\<close> delivers the content of an object in chunks, one call of the data function for each.\<close>

record 'c objlib =
  obj_put :: "'c \<Rightarrow> bytes \<Rightarrow> bytes \<Rightarrow> 'c"
  obj_get :: "'c \<Rightarrow> bytes \<Rightarrow> bytes list option"

definition objlib_ok :: "'c objlib \<Rightarrow> bool" where
  "objlib_ok S \<longleftrightarrow> (\<forall>d k v k'. map_option concat (obj_get S (obj_put S d k v) k') =
     (if k' = k then Some v else map_option concat (obj_get S d k')))"

section \<open>Cassandra\<close>

definition cass_key :: "codec \<Rightarrow> bytes \<Rightarrow> u64 \<Rightarrow> bytes" where
  "cass_key C name part = encode_base64 C name @ [45] @ to_string (unat part)"

definition cass_write_key :: "'c kvlib \<Rightarrow> codec \<Rightarrow> bytes \<Rightarrow> u64 \<Rightarrow> bytes \<Rightarrow> u64 \<Rightarrow> u32 \<Rightarrow> 'c \<Rightarrow> 'c" where
  "cass_write_key K C name part buffer location ver d = kv_insert K d (cass_key C name part) (url_enc K buffer)"

text \<open>The copy starts at \<open>location\<close> and takes as many bytes as the block has, at most \<open>n\<close>; behind the end of the block it is undefined.\<close>

definition cass_read_key :: "'c kvlib \<Rightarrow> codec \<Rightarrow> bytes \<Rightarrow> u64 \<Rightarrow> u64 \<Rightarrow> u64 \<Rightarrow> 'c \<Rightarrow> bytes option" where
  "cass_read_key K C name part location n d = do {
     buf \<leftarrow> (case kv_select K d (cass_key C name part) of None \<Rightarrow> Some [] | Some s \<Rightarrow> url_dec K s);
     let minsize = min (length buf) (unat n);
     if unat location + minsize \<le> length buf then Some (slice (unat location) minsize buf) else None
   }"

text \<open>
  \<^verbatim>\<open>perform\<close>. The position is converted to \<^verbatim>\<open>int\<close> and back by the division with the unsigned block size; quotient and remainder are stored in \<^verbatim>\<open>int\<close>
  and passed as \<^verbatim>\<open>size_t\<close>. An operation byte that is neither write nor read gives the empty response.
\<close>

definition cass_perform :: "'c kvlib \<Rightarrow> codec \<Rightarrow> u32 \<Rightarrow> jinput \<Rightarrow> 'c \<Rightarrow> (bytes \<times> 'c) option" where
  "cass_perform K C bs inp d =
     (let blockid = scast (in_position inp div bs); offset = scast (in_position inp mod bs)
      in case operation_of_byte (rq_operation (in_request inp)) of
           Some Op_write \<Rightarrow>
             if length (in_data inp) < unat (in_size inp) then None
             else Some (str ''OK'', cass_write_key K C (in_uuid inp) blockid (take (unat (in_size inp)) (in_data inp)) offset 0 d)
         | Some Op_read \<Rightarrow> map_option (\<lambda>b. (b, d)) (cass_read_key K C (in_uuid inp) blockid offset (ucast (in_size inp)) d)
         | None \<Rightarrow> Some ([], d))"

section \<open>Swift\<close>

definition swift_write_key :: "'c objlib \<Rightarrow> codec \<Rightarrow> bytes \<Rightarrow> u64 \<Rightarrow> bytes \<Rightarrow> u64 \<Rightarrow> u32 \<Rightarrow> 'c \<Rightarrow> 'c" where
  "swift_write_key S C name part buffer location ver d = obj_put S d (encode_base64 C name) buffer"

text \<open>Each chunk sets the value of a promise: a second chunk throws, and without a chunk the wait for the value does not end.\<close>

definition swift_read_key :: "'c objlib \<Rightarrow> codec \<Rightarrow> bytes \<Rightarrow> u64 \<Rightarrow> u64 \<Rightarrow> u64 \<Rightarrow> 'c \<Rightarrow> bytes option" where
  "swift_read_key S C name part location n d =
     (case obj_get S d (encode_base64 C name) of
        None \<Rightarrow> Some (str ''KEYNOTFOUND'')
      | Some [c] \<Rightarrow> Some c
      | Some _ \<Rightarrow> None)"

definition swift_perform :: "'c objlib \<Rightarrow> codec \<Rightarrow> u32 \<Rightarrow> jinput \<Rightarrow> 'c \<Rightarrow> (bytes \<times> 'c) option" where
  "swift_perform S C bs inp d =
     (let blockid = scast (in_position inp div bs); offset = scast (in_position inp mod bs)
      in case operation_of_byte (rq_operation (in_request inp)) of
           Some Op_write \<Rightarrow>
             if length (in_data inp) < unat (in_size inp) then None
             else Some (str ''OK'', swift_write_key S C (in_uuid inp) blockid (take (unat (in_size inp)) (in_data inp)) offset 0 d)
         | Some Op_read \<Rightarrow> map_option (\<lambda>b. (b, d)) (swift_read_key S C (in_uuid inp) blockid offset (ucast (in_size inp)) d)
         | None \<Rightarrow> Some ([], d))"

lemma operation_bytes: "operation_of_byte 0 = Some Op_write" "operation_of_byte 1 = Some Op_read"
  using operation_of_val [of Op_write] operation_of_val [of Op_read] by simp_all

lemma scast_u32_0: "(scast (w :: u32) :: u64) = 0 \<longleftrightarrow> w = 0"
proof
  assume "(scast w :: u64) = 0"
  then have "bit (scast w :: u64) n = False" for n by simp
  then have "\<not> bit w n" if "n < 32" for n using that by (force simp: bit_word_scast_iff)
  then show "w = 0" by (intro bit_eqI) simp
qed simp

section \<open>Properties\<close>

text \<open>
  A Cassandra block is replaced as a whole. A write of a non-empty range with a body that holds it is answered \<^verbatim>\<open>OK\<close>, and a read of the same range gives the written
  bytes when the range begins at the beginning of a block, and reads behind the end of the stored block otherwise: the offset within the block is not used by
  the write.
\<close>

theorem cass_read_after_write:
  assumes "kvlib_ok K" "in_size inp \<noteq> 0" "unat (in_size inp) \<le> length (in_data inp)"
    and "rq_operation (in_request inp) = operation_val Op_write" "rq_operation (in_request rinp) = operation_val Op_read"
    and same: "in_uuid rinp = in_uuid inp" "in_position rinp = in_position inp" "in_size rinp = in_size inp"
  shows "\<exists>d'. cass_perform K C bs inp d = Some (str ''OK'', d') \<and>
    cass_perform K C bs rinp d' = (if in_position inp mod bs = 0 then Some (take (unat (in_size inp)) (in_data inp), d') else None)"
proof -
  let ?b = "scast (in_position inp div bs) :: u64" and ?o = "scast (in_position inp mod bs) :: u64" and ?data = "take (unat (in_size inp)) (in_data inp)"
  let ?d = "cass_write_key K C (in_uuid inp) ?b ?data ?o 0 d"
  have n: "unat (ucast (in_size inp) :: u64) = unat (in_size inp)" "0 < unat (in_size inp)" "length ?data = unat (in_size inp)"
    using assms(2,3) by (simp_all add: unat_gt_0)
  have sel: "kv_select K ?d (cass_key C (in_uuid inp) ?b) = Some (url_enc K ?data)" "url_dec K (url_enc K ?data) = Some ?data"
    using assms(1) by (simp_all add: cass_write_key_def kvlib_ok_def)
  have o: "?o = 0 \<longleftrightarrow> in_position inp mod bs = 0" by (rule scast_u32_0)
  have "cass_read_key K C (in_uuid inp) ?b ?o (ucast (in_size inp)) ?d = (if ?o = 0 then Some ?data else None)"
    using n sel by (simp add: cass_read_key_def Let_def slice_def unat_eq_0)
  moreover have "cass_perform K C bs inp d = Some (str ''OK'', ?d)"
    using assms(3,4) by (simp add: cass_perform_def Let_def operation_bytes del: str_Cons)
  ultimately show ?thesis using o by (simp add: cass_perform_def assms(5) same Let_def operation_bytes del: str_Cons)
qed

text \<open>
  All blocks of a Swift file are one object. A write to any position of a file replaces everything that was written to the file before, so a read of the range of an
  earlier write, in whatever block, is answered with the bytes of the last write (when the store delivers them in one chunk).
\<close>

theorem swift_blocks_collide:
  assumes S: "objlib_ok S" and ops: "rq_operation (in_request inp) = operation_val Op_write" "rq_operation (in_request inp2) = operation_val Op_write"
      "rq_operation (in_request rinp) = operation_val Op_read"
    and body: "unat (in_size inp) \<le> length (in_data inp)" "unat (in_size inp2) \<le> length (in_data inp2)"
    and same: "in_uuid inp2 = in_uuid inp" "in_uuid rinp = in_uuid inp"
  shows "\<exists>d1 d2. swift_perform S C bs inp d = Some (str ''OK'', d1) \<and> swift_perform S C bs inp2 d1 = Some (str ''OK'', d2) \<and>
    (\<forall>c. obj_get S d2 (encode_base64 C (in_uuid inp)) = Some [c] \<longrightarrow>
       swift_perform S C bs rinp d2 = Some (take (unat (in_size inp2)) (in_data inp2), d2))"
proof -
  define d1 where "d1 = obj_put S d (encode_base64 C (in_uuid inp)) (take (unat (in_size inp)) (in_data inp))"
  define d2 where "d2 = obj_put S d1 (encode_base64 C (in_uuid inp)) (take (unat (in_size inp2)) (in_data inp2))"
  have get: "map_option concat (obj_get S d2 (encode_base64 C (in_uuid inp))) = Some (take (unat (in_size inp2)) (in_data inp2))"
    using S by (simp add: d2_def objlib_ok_def)
  have w: "swift_perform S C bs inp d = Some (str ''OK'', d1)" "swift_perform S C bs inp2 d1 = Some (str ''OK'', d2)"
    using ops(1,2) body same by (simp_all add: swift_perform_def swift_write_key_def d1_def d2_def Let_def operation_bytes del: str_Cons)
  have "swift_perform S C bs rinp d2 = Some (take (unat (in_size inp2)) (in_data inp2), d2)"
    if "obj_get S d2 (encode_base64 C (in_uuid inp)) = Some [c]" for c
    using that get ops(3) same by (simp add: swift_perform_def swift_read_key_def Let_def operation_bytes)
  with w show ?thesis by blast
qed

section \<open>Witnesses\<close>

definition mem_kvlib :: "(bytes \<rightharpoonup> bytes) kvlib" where
  "mem_kvlib = \<lparr>kv_insert = (\<lambda>d k v. d(k \<mapsto> v)), kv_select = (\<lambda>d. d), url_enc = (\<lambda>b. b), url_dec = Some\<rparr>"

definition mem_objlib :: "(bytes \<rightharpoonup> bytes) objlib" where
  "mem_objlib = \<lparr>obj_put = (\<lambda>d k v. d(k \<mapsto> v)), obj_get = (\<lambda>d k. map_option (\<lambda>v. [v]) (d k))\<rparr>"

definition kv_input :: "operation_t \<Rightarrow> u32 \<Rightarrow> bytes \<Rightarrow> jinput" where
  "kv_input oper pos data = \<lparr>in_uuid = replicate 32 7,
     in_request = \<lparr>rq_type = type_val T_file, rq_operation = operation_val oper, rq_position = pos, rq_size = 3\<rparr>, in_data = data\<rparr>"

theorem cass_read_after_write_witness:
  "\<exists>d'. cass_perform mem_kvlib esc_codec 4096 (kv_input Op_write 8192 [1, 2, 3]) Map.empty = Some (str ''OK'', d') \<and>
     cass_perform mem_kvlib esc_codec 4096 (kv_input Op_read 8192 []) d' = Some ([1, 2, 3], d')"
proof -
  have "kvlib_ok mem_kvlib" by (simp add: kvlib_ok_def mem_kvlib_def)
  from cass_read_after_write [OF this, of "kv_input Op_write 8192 [1, 2, 3]" "kv_input Op_read 8192 []" esc_codec 4096 Map.empty]
  show ?thesis by (simp add: kv_input_def in_size_def in_position_def del: str_Cons)
qed

theorem swift_blocks_collide_witness:
  "\<exists>d1 d2. swift_perform mem_objlib esc_codec 4096 (kv_input Op_write 0 [1, 2, 3]) Map.empty = Some (str ''OK'', d1) \<and>
     swift_perform mem_objlib esc_codec 4096 (kv_input Op_write 4096 [4, 5, 6]) d1 = Some (str ''OK'', d2) \<and>
     swift_perform mem_objlib esc_codec 4096 (kv_input Op_read 0 []) d2 = Some ([4, 5, 6], d2)"
proof -
  have S: "objlib_ok mem_objlib" by (auto simp: objlib_ok_def mem_objlib_def)
  have one: "obj_get mem_objlib d k = Some cs \<Longrightarrow> \<exists>c. cs = [c]" for d k cs by (auto simp: mem_objlib_def)
  obtain d1 d2 where w: "swift_perform mem_objlib esc_codec 4096 (kv_input Op_write 0 [1, 2, 3]) Map.empty = Some (str ''OK'', d1)"
      "swift_perform mem_objlib esc_codec 4096 (kv_input Op_write 4096 [4, 5, 6]) d1 = Some (str ''OK'', d2)"
      "\<forall>c. obj_get mem_objlib d2 (encode_base64 esc_codec (replicate 32 7)) = Some [c] \<longrightarrow>
        swift_perform mem_objlib esc_codec 4096 (kv_input Op_read 0 []) d2 = Some ([4, 5, 6], d2)"
    using swift_blocks_collide [OF S, of "kv_input Op_write 0 [1, 2, 3]" "kv_input Op_write 4096 [4, 5, 6]" "kv_input Op_read 0 []" esc_codec 4096 Map.empty]
    by (auto simp: kv_input_def in_size_def in_position_def simp del: str_Cons)
  have "obj_get mem_objlib d2 (encode_base64 esc_codec (replicate 32 7)) \<noteq> None"
    using w(2) by (auto simp: swift_perform_def swift_write_key_def mem_objlib_def kv_input_def Let_def in_size_def operation_bytes simp del: str_Cons)
  with one w show ?thesis by blast
qed

end
