(* ===== verification/Entry.thy ===== *)
theory Entry
  imports File_Session Kv_Storage "HOL-Library.Signed_Division"
begin

text \<open>
  The program of a data function, \<^verbatim>\<open>functions/datafunction/entry.cpp\<close>: it reads a JSON object, chooses the storage and the way of being launched, and
  either serves one request (\<^verbatim>\<open>direct\<close>) or connects to a proxy (\<^verbatim>\<open>server\<close>). A field of the JSON object is \<open>None\<close> when it is missing or has another type; the library then
  throws. Shown: two data functions launched one after the other see the same file; what happens with missing fields and unknown names.
\<close>

unbundle bit_operations_syntax

section \<open>Input and output\<close>

text \<open>
  A field of the JSON object. The program reads the fields of a mutable object, where a missing field becomes null and \<^verbatim>\<open>get\<close> throws, and of a constant one,
  where access to a missing field is undefined. A result is \<open>None\<close> where the behaviour is undefined and \<open>Some (Inl ())\<close> for an exception.
\<close>

datatype 'a jfield = Missing | Ill_typed | Field 'a

definition get_field :: "'a jfield \<Rightarrow> (unit + 'a) option" where
  "get_field f = (case f of Field a \<Rightarrow> Some (Inr a) | _ \<Rightarrow> Some (Inl ()))"

definition get_const_field :: "'a jfield \<Rightarrow> (unit + 'a) option" where
  "get_const_field f = (case f of Field a \<Rightarrow> Some (Inr a) | Ill_typed \<Rightarrow> Some (Inl ()) | Missing \<Rightarrow> None)"

definition and_then :: "(unit + 'a) option \<Rightarrow> ('a \<Rightarrow> (unit + 'b) option) \<Rightarrow> (unit + 'b) option" where
  "and_then r f = (case r of None \<Rightarrow> None | Some (Inl _) \<Rightarrow> Some (Inl ()) | Some (Inr a) \<Rightarrow> f a)"

lemma and_then_simps [simp]:
  "and_then None f = None" "and_then (Some (Inl u)) f = Some (Inl ())" "and_then (Some (Inr a)) f = f a"
  by (simp_all add: and_then_def)

record config =
  cg_storagetype :: "bytes jfield"
  cg_launch :: "bytes jfield"
  cg_type :: "bytes jfield"
  cg_name :: "bytes jfield"
  cg_pos :: "u32 jfield"
  cg_size :: "u32 jfield"
  cg_data :: "bytes jfield"
  cg_caching :: "bool jfield"
  cg_cachesize :: "int jfield"
  cg_cache_policy :: "string jfield"
  cg_proxyhost :: "bytes jfield"
  cg_proxyport :: "bytes jfield"

text \<open>What is printed: the greeting, and the answer of a direct request with its data in base64.\<close>

datatype df_line = Halo | Answer bytes

datatype storage_kind = Ssbd | Cassandra | Swift

section \<open>Strings\<close>

text \<open>\<^verbatim>\<open>sswitch::hash\<close> of a string up to its first zero byte; \<^verbatim>\<open>char\<close> is signed and the remainder has the sign of the dividend.\<close>

fun sswitch_hash :: "bytes \<Rightarrow> int" where
  "sswitch_hash [] = 5381 smod 2147483647"
| "sswitch_hash (c # s) = (if c = 0 then 5381 else (sswitch_hash s * 33) XOR sint c) smod 2147483647"

definition b64_encode :: "codec \<Rightarrow> bytes \<Rightarrow> bytes" where
  "b64_encode C buf = map (\<lambda>c. if c = 47 then 95 else c) (b64_enc C buf)"

definition b64_decode :: "codec \<Rightarrow> bytes \<Rightarrow> bytes" where
  "b64_decode C s = b64_dec C (map (\<lambda>c. if c = 95 then 47 else c) s)"

definition select_storage :: "bytes \<Rightarrow> storage_kind option" where
  "select_storage s =
     (let h = sswitch_hash s
      in if h = sswitch_hash (str ''ssbd'') then Some Ssbd
         else if h = sswitch_hash (str ''cassandra'') then Some Cassandra
         else if h = sswitch_hash (str ''swift'') then Some Swift
         else None)"

section \<open>Direct requests\<close>

text \<open>
  The packet of a direct request; \<open>h\<close> is the generated header. For an unknown type the pointer stays null, and the request parser reads through it: undefined.
\<close>

definition direct_packet :: "codec \<Rightarrow> packet_header \<Rightarrow> bytes \<Rightarrow> bytes \<Rightarrow> bytes \<Rightarrow> u32 \<Rightarrow> u32 \<Rightarrow> config \<Rightarrow> (unit + packet) option" where
  "direct_packet C h pad ty key pos n cg =
     (if sswitch_hash ty = sswitch_hash (str ''write'') then
        and_then (get_const_field (cg_data cg)) (\<lambda>data. Some (Inr (create_write h pad key pos (b64_decode C data))))
      else if sswitch_hash ty = sswitch_hash (str ''read'') then Some (Inr (create_read h pad key pos n))
      else None)"

text \<open>
  \<^verbatim>\<open>do_datafunction_direct\<close> on a storage that is asked once: \<open>perform\<close> is \<^verbatim>\<open>perform\<close> or \<^verbatim>\<open>start_perform\<close> with the answer that its callback gets. An identifier of another
  length is undefined.
\<close>

definition do_datafunction_direct ::
  "codec \<Rightarrow> packet_header \<Rightarrow> bytes \<Rightarrow> ('s \<Rightarrow> jinput \<Rightarrow> ('s \<times> bytes) option) \<Rightarrow> config \<Rightarrow> 's \<Rightarrow> (unit + df_line list \<times> 's) option" where
  "do_datafunction_direct C h pad perform cg s =
     and_then (get_const_field (cg_type cg)) (\<lambda>ty.
     and_then (get_const_field (cg_name cg)) (\<lambda>name.
     and_then (map_option Inr (decode_base64 C name)) (\<lambda>key.
     and_then (get_const_field (cg_pos cg)) (\<lambda>pos.
     and_then (get_const_field (cg_size cg)) (\<lambda>n.
     and_then (direct_packet C h pad ty key pos n cg) (\<lambda>p.
       do {
         inp \<leftarrow> parse_input p;
         (s, buf) \<leftarrow> perform s inp;
         Some (Inr ([Answer (b64_encode C buf)], s))
       }))))))"

section \<open>Launched by a proxy\<close>

text \<open>
  \<^verbatim>\<open>do_datafunction_with_proxy\<close>: the state of the data function, connected to the proxy that launched it, with port 2000, and the time at which its connection is closed, 298
  seconds later; \<open>resolve\<close> is the resolver, \<open>ip_bytes\<close> the address of the socket. The flag of the cache is passed on with every job.
\<close>

definition do_datafunction_with_proxy ::
  "('b, 't) file_map \<Rightarrow> 'q queue_map \<Rightarrow> 'p proxy_set \<Rightarrow> (bytes \<Rightarrow> bytes \<Rightarrow> endpoint option) \<Rightarrow> packet_header \<Rightarrow> bytes \<Rightarrow> nat \<Rightarrow>
     config \<Rightarrow> (unit + bool \<times> ('q, 'p, 't) df \<times> df_out list \<times> nat) option" where
  "do_datafunction_with_proxy M Q P resolve h ip_bytes now cg =
     and_then (get_const_field (cg_caching cg)) (\<lambda>enable_cache.
     and_then (get_const_field (cg_cachesize cg)) (\<lambda>cache_size.
     and_then (get_const_field (cg_cache_policy cg)) (\<lambda>cache_policy.
     and_then (get_const_field (cg_proxyhost cg)) (\<lambda>proxyhost.
     and_then (get_const_field (cg_proxyport cg)) (\<lambda>proxyport.
       case resolve proxyhost proxyport of
         None \<Rightarrow> Some (Inl ())
       | Some proxy \<Rightarrow>
           let (s, outs) = start_connect h ip_bytes (df_new M Q P (of_int cache_size) cache_policy 2000 now)
           in Some (Inr (enable_cache, s\<lparr>df_proxies := chm_emplace P (df_proxies s) proxy ()\<rparr>, outs, now + 298000)))))))"

text \<open>
  The body of \<^verbatim>\<open>do_datafunction\<close>: the lines printed and what was started. \<open>input = None\<close> is text that is no JSON object. \<open>backend\<close> gives the configured
  storage; \<open>Inl ()\<close> is an exception of \<^verbatim>\<open>init\<close>. An unknown storage type leaves a null pointer whose \<^verbatim>\<open>init\<close> is called. An unknown launch method is logged and ignored.
\<close>

definition launch_datafunction ::
  "codec \<Rightarrow> packet_header \<Rightarrow> bytes \<Rightarrow> (storage_kind \<Rightarrow> unit + ('s \<Rightarrow> jinput \<Rightarrow> ('s \<times> bytes) option)) \<Rightarrow> (config \<Rightarrow> (unit + 'd) option) \<Rightarrow> config option \<Rightarrow> 's \<Rightarrow>
     (unit + df_line list \<times> 'd option \<times> 's) option" where
  "launch_datafunction C h pad backend with_proxy input s =
     and_then (case input of None \<Rightarrow> Some (Inl ()) | Some cg \<Rightarrow> Some (Inr cg)) (\<lambda>cg.
     and_then (get_field (cg_storagetype cg)) (\<lambda>storagetype.
     and_then (map_option Inr (select_storage storagetype)) (\<lambda>st.
     and_then (Some (backend st)) (\<lambda>perform.
     and_then (get_field (cg_launch cg)) (\<lambda>launch.
       if sswitch_hash launch = sswitch_hash (str ''direct'') then
         and_then (do_datafunction_direct C h pad perform cg s) (\<lambda>(ls, s). Some (Inr (ls, None, s)))
       else if sswitch_hash launch = sswitch_hash (str ''server'') then
         and_then (with_proxy cg) (\<lambda>d. Some (Inr ([], Some d, s)))
       else Some (Inr ([], None, s)))))))"

text \<open>Every exception ends in the returned number -1.\<close>

definition do_datafunction ::
  "codec \<Rightarrow> packet_header \<Rightarrow> bytes \<Rightarrow> (storage_kind \<Rightarrow> unit + ('s \<Rightarrow> jinput \<Rightarrow> ('s \<times> bytes) option)) \<Rightarrow> (config \<Rightarrow> (unit + 'd) option) \<Rightarrow> config option \<Rightarrow> 's \<Rightarrow>
     (int \<times> df_line list \<times> 'd option \<times> 's) option" where
  "do_datafunction C h pad backend with_proxy input s =
     (case launch_datafunction C h pad backend with_proxy input s of
        None \<Rightarrow> None
      | Some (Inl _) \<Rightarrow> Some (-1, [Halo], None, s)
      | Some (Inr (ls, d, s)) \<Rightarrow> Some (0, Halo # ls, d, s))"

text \<open>The action loop: one request after the other until one fails.\<close>

fun action_loop ::
  "('i \<Rightarrow> 's \<Rightarrow> (int \<times> df_line list \<times> 'd option \<times> 's) option) \<Rightarrow> 'i list \<Rightarrow> 's \<Rightarrow> (int option \<times> df_line list \<times> 's) option" where
  "action_loop f [] s = Some (None, [], s)"
| "action_loop f (i # is) s = do {
     (r, ls, _, s) \<leftarrow> f i s;
     if r \<noteq> 0 then Some (Some r, ls, s)
     else do {
       (r, ls', s) \<leftarrow> action_loop f is s;
       Some (r, ls @ ls', s)
     }
   }"

section \<open>The storages of a data function\<close>

text \<open>
  Each launch configures a storage of its own: the table of checked files of the two-phase commit is empty, the block servers, the table and the object store remain.
\<close>

definition launch_backend ::
  "'db leveldb \<Rightarrow> 't filecheckmap \<Rightarrow> (bytes \<Rightarrow> nat \<Rightarrow> nat \<Rightarrow> nat) \<Rightarrow> conf \<Rightarrow> u32 \<Rightarrow> (u32 \<Rightarrow> bytes) \<Rightarrow> 'k kvlib \<Rightarrow> 'o objlib \<Rightarrow> codec \<Rightarrow> storage_kind \<Rightarrow>
     unit + ((nat \<Rightarrow> 'db ssbd) \<times> 'k \<times> 'o \<Rightarrow> jinput \<Rightarrow> (((nat \<Rightarrow> 'db ssbd) \<times> 'k \<times> 'o) \<times> bytes) option)" where
  "launch_backend L M draw cf ver salt K S C st = Inr (\<lambda>(srvs, k, b) inp.
     case st of
       Ssbd \<Rightarrow> let (s, r) = ssbd_storage L M draw cf ver salt (srvs, chm_empty M) inp in Some ((fst s, k, b), r)
     | Cassandra \<Rightarrow> map_option (\<lambda>(r, k). ((srvs, k, b), r)) (cass_perform K C (cf_blocksize cf) inp k)
     | Swift \<Rightarrow> map_option (\<lambda>(r, b). ((srvs, k, b), r)) (swift_perform S C (cf_blocksize cf) inp b))"

section \<open>Properties\<close>

lemma launch_hashes:
  "sswitch_hash (str ''ssbd'') \<noteq> sswitch_hash (str ''cassandra'')" "sswitch_hash (str ''server'') \<noteq> sswitch_hash (str ''direct'')"
  "sswitch_hash (str ''read'') \<noteq> sswitch_hash (str ''write'')" "sswitch_hash (str ''swift'') \<noteq> sswitch_hash (str ''ssbd'')"
  "sswitch_hash (str ''swift'') \<noteq> sswitch_hash (str ''cassandra'')"
  by (simp_all add: signed_modulo_int_def)

lemma select_known:
  "select_storage (str ''ssbd'') = Some Ssbd" "select_storage (str ''cassandra'') = Some Cassandra" "select_storage (str ''swift'') = Some Swift"
  using launch_hashes by (simp_all add: select_storage_def del: str_Cons)

lemma b64_roundtrip:
  assumes "b64_dec C (b64_enc C buf) = buf" "95 \<notin> set (b64_enc C buf)"
  shows "b64_decode C (b64_encode C buf) = buf"
proof -
  have "map ((\<lambda>c. if c = 95 then 47 else c) \<circ> (\<lambda>c. if c = 47 then 95 else c)) (b64_enc C buf) = b64_enc C buf"
    using assms(2) by (intro map_idI) (auto simp: comp_def)
  then show ?thesis using assms(1) by (simp add: b64_decode_def b64_encode_def)
qed

lemma created_inputs:
  assumes "length pad = 2"
  shows "parse_input (create_write h pad key pos buf) = Some (file_input key Op_write pos (of_nat (length buf)) buf)"
    and "parse_input (create_read h pad key pos n) = Some (file_input key Op_read pos n [])"
  using build_packet_parse(1,2) [OF assms] build_packet_parse(3)
  by (simp_all add: parse_input_def create_write_def create_read_def file_input_def)

text \<open>The configuration of a direct request.\<close>

definition direct_config :: "bytes \<Rightarrow> bytes \<Rightarrow> u32 \<Rightarrow> u32 \<Rightarrow> bytes jfield \<Rightarrow> config" where
  "direct_config ty name pos n data = \<lparr>cg_storagetype = Field (str ''ssbd''), cg_launch = Field (str ''direct''), cg_type = Field ty, cg_name = Field name,
     cg_pos = Field pos, cg_size = Field n, cg_data = data, cg_caching = Missing, cg_cachesize = Missing, cg_cache_policy = Missing,
     cg_proxyhost = Missing, cg_proxyport = Missing\<rparr>"

lemma run_direct:
  assumes "codec_ok C" "length key = 32" "backend Ssbd = Inr perform" "perform s inp = Some (s', r)"
    and "direct_packet C h pad ty key pos n (direct_config ty (encode_base64 C key) pos n data) = Some (Inr p)" "parse_input p = Some inp"
  shows "do_datafunction C h pad backend with_proxy (Some (direct_config ty (encode_base64 C key) pos n data)) s =
    Some (0, [Halo, Answer (b64_encode C r)], None, s')"
proof -
  let ?cg = "direct_config ty (encode_base64 C key) pos n data"
  have fields: "cg_storagetype ?cg = Field (str ''ssbd'')" "cg_launch ?cg = Field (str ''direct'')" "cg_type ?cg = Field ty"
    "cg_name ?cg = Field (encode_base64 C key)" "cg_pos ?cg = Field pos" "cg_size ?cg = Field n"
    by (simp_all add: direct_config_def)
  have "do_datafunction_direct C h pad perform ?cg s = Some (Inr ([Answer (b64_encode C r)], s'))"
    using assms(4-6) by (simp add: do_datafunction_direct_def get_const_field_def fields decode_encode [OF assms(1,2)])
  then show ?thesis
    using assms(3) by (simp add: do_datafunction_def launch_datafunction_def get_field_def fields select_known del: str_Cons)
qed


text \<open>
  C26. Bad configurations. Text that is no JSON object and a missing or ill-typed storage type or launch method give the result -1 after the greeting, without
  touching the storage; an unknown launch method gives 0 without doing anything. A storage type that is not known, a direct request of an unknown
  type, and a missing field of a direct request are undefined behaviour: a null pointer, or access to a field that does not exist.
\<close>

theorem bad_configurations:
  assumes run: "run = do_datafunction C h pad (launch_backend L M draw cf ver salt K S C) with_proxy"
    and direct: "cg_launch cg = Field (str ''direct'')" "cg_storagetype cg = Field (str ''ssbd'')"
  shows "run None s = Some (-1, [Halo], None, s) \<and>
    (\<forall>f. (\<forall>a. f \<noteq> Field a) \<longrightarrow> run (Some (cg\<lparr>cg_storagetype := f\<rparr>)) s = Some (-1, [Halo], None, s) \<and>
       run (Some (cg\<lparr>cg_launch := f\<rparr>)) s = Some (-1, [Halo], None, s)) \<and>
    (\<forall>m. sswitch_hash m \<noteq> sswitch_hash (str ''direct'') \<and> sswitch_hash m \<noteq> sswitch_hash (str ''server'') \<longrightarrow>
       run (Some (cg\<lparr>cg_launch := Field m\<rparr>)) s = Some (0, [Halo], None, s)) \<and>
    (\<forall>t. select_storage t = None \<longrightarrow> run (Some (cg\<lparr>cg_storagetype := Field t\<rparr>)) s = None) \<and>
    run (Some (cg\<lparr>cg_type := Missing\<rparr>)) s = None \<and>
    (\<forall>ty name pos n. sswitch_hash ty \<notin> {sswitch_hash (str ''write''), sswitch_hash (str ''read'')} \<longrightarrow>
       run (Some (cg\<lparr>cg_type := Field ty, cg_name := Field name, cg_pos := Field pos, cg_size := Field n\<rparr>)) s = None)"
proof -
  note defs = run do_datafunction_def launch_datafunction_def get_field_def
  have "run (Some (cg\<lparr>cg_storagetype := f\<rparr>)) s = Some (-1, [Halo], None, s)" if "\<forall>a. f \<noteq> Field a" for f
    using that by (cases f) (simp_all add: defs)
  moreover have "run (Some (cg\<lparr>cg_launch := f\<rparr>)) s = Some (-1, [Halo], None, s)" if "\<forall>a. f \<noteq> Field a" for f
    using that by (cases f) (simp_all add: defs direct(2) select_known launch_backend_def del: str_Cons)
  moreover have "run (Some (cg\<lparr>cg_launch := Field m\<rparr>)) s = Some (0, [Halo], None, s)"
    if "sswitch_hash m \<noteq> sswitch_hash (str ''direct'')" "sswitch_hash m \<noteq> sswitch_hash (str ''server'')" for m
    using that by (simp add: defs direct(2) select_known launch_backend_def del: str_Cons)
  moreover have "run (Some (cg\<lparr>cg_storagetype := Field t\<rparr>)) s = None" if "select_storage t = None" for t
    using that by (simp add: defs)
  moreover have "run (Some (cg\<lparr>cg_type := Missing\<rparr>)) s = None"
    by (simp add: defs direct select_known launch_backend_def do_datafunction_direct_def get_const_field_def del: str_Cons)
  moreover have "run (Some (cg\<lparr>cg_type := Field ty, cg_name := Field name, cg_pos := Field pos, cg_size := Field n\<rparr>)) s = None"
    if "sswitch_hash ty \<notin> {sswitch_hash (str ''write''), sswitch_hash (str ''read'')}" for ty name pos n
    using that
    by (cases "decode_base64 C name")
      (simp_all add: defs direct select_known launch_backend_def do_datafunction_direct_def get_const_field_def direct_packet_def del: str_Cons)
  moreover have "run None s = Some (-1, [Halo], None, s)" by (simp add: defs)
  ultimately show ?thesis by blast
qed

section \<open>Witnesses\<close>


theorem bad_configurations_witness:
  "do_datafunction esc_codec sample_header [0, 0] (launch_backend mem_leveldb al_chmap (\<lambda>u n k. 0) sample_conf 9 (\<lambda>b. [1, 2, 3, 4]) mem_kvlib mem_objlib esc_codec)
       (\<lambda>c. None :: (unit + unit) option)
       (Some ((direct_config (str ''write'') [] 4 0 Missing)\<lparr>cg_storagetype := Ill_typed\<rparr>)) (\<lambda>i. empty_ssbd, Map.empty, Map.empty) =
     Some (-1, [Halo], None, \<lambda>i. empty_ssbd, Map.empty, Map.empty)"
proof -
  let ?cg = "direct_config (str ''write'') [] 4 0 Missing"
  have "cg_launch ?cg = Field (str ''direct'')" "cg_storagetype ?cg = Field (str ''ssbd'')" by (simp_all add: direct_config_def)
  note bad = bad_configurations [OF refl this]
  show ?thesis by (rule conjunct1 [OF mp [OF spec [OF conjunct1 [OF conjunct2 [OF bad]], of Ill_typed]]]) simp
qed

end
