(* ===== verification/Policy_Options.thy ===== *)
theory Policy_Options
  imports Launcher
begin

text \<open>
  The options of the proxy that choose its policies, \<^verbatim>\<open>set_policy_*\<close> of \<^verbatim>\<open>proxy/server.hpp\<close> with the string switch of \<^verbatim>\<open>proxy/basic.hpp\<close>. The arguments
  are found by \<^verbatim>\<open>std::regex_search\<close> with patterns of digit groups separated by colons. Shown: printed arguments give the policy with these
  arguments, and what is refused.
\<close>

unbundle bit_operations_syntax

section \<open>Strings in switches\<close>

text \<open>The hash of a string that the switches use; \<^verbatim>\<open>char\<close> is signed.\<close>

definition policy_hash :: "bytes \<Rightarrow> u64" where
  "policy_hash s = foldl (\<lambda>h c. ((h * 33) XOR scast c) AND 0xFFFFFFFFFFFF) 5381 s"

section \<open>Digit groups\<close>

text \<open>
  \<open>match_groups n s\<close> is a match of \<open>n\<close> groups of digits with colons between them at the beginning of \<open>s\<close>. A group takes all the digits it can; giving one back
  would leave a digit in front of the colon, so there is nothing to backtrack. The search tries the positions from left to right.
\<close>

fun match_groups :: "nat \<Rightarrow> bytes \<Rightarrow> bytes list option" where
  "match_groups n s =
     (let d = takeWhile is_digit s; r = dropWhile is_digit s
      in if d = [] then None
         else if n \<le> 1 then Some [d]
         else if r = [] \<or> hd r \<noteq> 58 then None
         else map_option (Cons d) (match_groups (n - 1) (tl r)))"

declare match_groups.simps [simp del]

fun regex_search :: "nat \<Rightarrow> bytes \<Rightarrow> bytes list option" where
  "regex_search n [] = match_groups n []"
| "regex_search n (c # s) = (case match_groups n (c # s) of Some m \<Rightarrow> Some m | None \<Rightarrow> regex_search n s)"

text \<open>
  \<^verbatim>\<open>std::stoi\<close> and \<^verbatim>\<open>std::stoull\<close> of a group of digits; \<open>stoi\<close> of a whole argument also takes white space and a sign. \<open>None\<close> is the exception.
\<close>

definition stoi_group :: "bytes \<Rightarrow> int option" where
  "stoi_group d = (if dec_val 0 d < 2 ^ 31 then Some (int (dec_val 0 d)) else None)"

definition stoull_group :: "bytes \<Rightarrow> u64 option" where
  "stoull_group d = (if dec_val 0 d < 2 ^ 64 then Some (of_nat (dec_val 0 d)) else None)"

definition stoi :: "bytes \<Rightarrow> int option" where
  "stoi s = (case stoll s of Some v \<Rightarrow> if - (2 ^ 31) \<le> v \<and> v < 2 ^ 31 then Some v else None | None \<Rightarrow> None)"

section \<open>The options\<close>

datatype option_error = Unknown_policy bytes | Bad_args | Bad_number

definition or_bad_number :: "'a option \<Rightarrow> option_error + 'a" where
  "or_bad_number r = (case r of Some a \<Rightarrow> Inr a | None \<Rightarrow> Inl Bad_number)"

definition set_policy_filetoworker :: "(nat \<Rightarrow> nat) \<Rightarrow> bytes \<Rightarrow> bytes \<Rightarrow> option_error + ftw_kind" where
  "set_policy_filetoworker draw policy args =
     (let h = policy_hash policy
      in if h = policy_hash (str ''lowest-load'') then Inr Lowest_load
         else if h = policy_hash (str ''random-assign'') then Inr (Random_assign draw)
         else if h = policy_hash (str ''active-load-balance'') then Inr Active_lowest_load
         else Inl (Unknown_policy policy))"

definition two_args :: "bytes \<Rightarrow> (int \<Rightarrow> u64 \<Rightarrow> launch_policy) \<Rightarrow> option_error + launch_policy" where
  "two_args args mk =
     (case regex_search 2 args of
        Some [a, b] \<Rightarrow> or_bad_number (do { x \<leftarrow> stoi_group a; y \<leftarrow> stoull_group b; Some (mk x y) })
      | _ \<Rightarrow> Inl Bad_args)"

definition set_policy_launch :: "u64 \<Rightarrow> bytes \<Rightarrow> bytes \<Rightarrow> option_error + launch_policy" where
  "set_policy_launch now policy args =
     (let h = policy_hash policy
      in if h = policy_hash (str ''const-average-load'') then two_args args (\<lambda>x y. new_average_load x y now)
         else if h = policy_hash (str ''max-queue'') then two_args args new_max_queue
         else if h = policy_hash (str ''single-request'') then
           (case regex_search 1 args of
              Some [a] \<Rightarrow> or_bad_number (map_option new_single_request (stoi_group a))
            | _ \<Rightarrow> Inl Bad_args)
         else if h = policy_hash (str ''fix-pool'') then
           (case regex_search 2 args of
              Some [a, b] \<Rightarrow> or_bad_number (do { x \<leftarrow> stoi_group a; y \<leftarrow> stoi_group b; Some (new_fix_pool x y) })
            | _ \<Rightarrow> Inl Bad_args)
         else Inl (Unknown_policy policy))"

text \<open>The error margin of the moving policies is the fourth group in percent, returned next to the policy.\<close>

definition four_args :: "bytes \<Rightarrow> (u32 \<Rightarrow> u32 \<Rightarrow> u32 \<Rightarrow> keepalive) \<Rightarrow> option_error + keepalive \<times> int" where
  "four_args args mk =
     (case regex_search 4 args of
        Some [a, b, c, d] \<Rightarrow>
          or_bad_number (do { x \<leftarrow> stoi_group a; y \<leftarrow> stoi_group b; v \<leftarrow> stoi_group c; e \<leftarrow> stoi_group d;
            Some (mk (of_int x) (of_int y) (of_int v), e) })
      | _ \<Rightarrow> Inl Bad_args)"

definition set_policy_keepalive :: "bytes \<Rightarrow> bytes \<Rightarrow> option_error + keepalive \<times> int" where
  "set_policy_keepalive policy args =
     (let h = policy_hash policy
      in if h = policy_hash (str ''const-time'') then or_bad_number (map_option (\<lambda>ms. (K_const (of_int ms), 0)) (stoi args))
         else if h = policy_hash (str ''moving-interval'') then four_args args (\<lambda>x y v. K_moving (moving_new x y v))
         else if h = policy_hash (str ''moving-interval-global'') then four_args args (\<lambda>x y v. K_global (moving_global_new x y v))
         else Inl (Unknown_policy policy))"

section \<open>Printed arguments\<close>

text \<open>Numbers as an operator writes them: decimal, separated by colons.\<close>

fun print_args :: "nat list \<Rightarrow> bytes" where
  "print_args [] = []"
| "print_args [a] = to_string a"
| "print_args (a # b # as) = to_string a @ 58 # print_args (b # as)"

lemma digits_to_string:
  "takeWhile is_digit (to_string a @ r) = to_string a @ takeWhile is_digit r"
  "dropWhile is_digit (to_string a @ r) = dropWhile is_digit r"
  using to_string_digits [of a] by (auto simp: list_all_iff takeWhile_append2 dropWhile_append2)

lemma colon_no_digit: "\<not> is_digit 58"
  by (simp add: is_digit_def)

lemma match_groups_print: "as \<noteq> [] \<Longrightarrow> match_groups (length as) (print_args as) = Some (map to_string as)"
proof (induction as rule: print_args.induct)
  case (2 a)
  have d: "takeWhile is_digit (to_string a) = to_string a" using digits_to_string(1) [of a "[]"] by (simp only: append_Nil2 takeWhile.simps)
  show ?case unfolding print_args.simps by (subst match_groups.simps) (simp add: Let_def d)
next
  case (3 a b as)
  then show ?case
    by (simp add: match_groups.simps [of "Suc (Suc (length as))"] digits_to_string colon_no_digit)
qed simp

lemma regex_search_print: "as \<noteq> [] \<Longrightarrow> regex_search (length as) (print_args as) = Some (map to_string as)"
proof -
  assume as: "as \<noteq> []"
  then have "print_args as \<noteq> []" by (induction as rule: print_args.induct) auto
  then obtain c s where "print_args as = c # s" by (cases "print_args as") auto
  with match_groups_print [OF as] show ?thesis by simp
qed

lemma no_digit_no_match: "list_all (\<lambda>c. \<not> is_digit c) s \<Longrightarrow> regex_search n s = None"
  by (induction s) (simp_all add: match_groups.simps [of n])

lemma stoi_group_to_string: "stoi_group (to_string a) = (if a < 2 ^ 31 then Some (int a) else None)"
  by (simp add: stoi_group_def)

lemma stoull_group_to_string: "stoull_group (to_string a) = (if a < 2 ^ 64 then Some (of_nat a) else None)"
  by (simp add: stoull_group_def)

section \<open>Properties\<close>

text \<open>
  Policy options are read as they are printed. For every launch policy, printed numbers give the policy with these numbers when they
  fit the integer types, and an out-of-range error otherwise; arguments without a digit are refused; the same for the keep-alive policies with their
  four numbers.
\<close>

theorem policy_options_roundtrip:
  "set_policy_launch now (str ''fix-pool'') (print_args [a, b]) =
     (if a < 2 ^ 31 \<and> b < 2 ^ 31 then Inr (new_fix_pool (int a) (int b)) else Inl Bad_number) \<and>
   set_policy_launch now (str ''max-queue'') (print_args [a, b]) =
     (if a < 2 ^ 31 \<and> b < 2 ^ 64 then Inr (new_max_queue (int a) (of_nat b)) else Inl Bad_number) \<and>
   set_policy_launch now (str ''const-average-load'') (print_args [a, b]) =
     (if a < 2 ^ 31 \<and> b < 2 ^ 64 then Inr (new_average_load (int a) (of_nat b) now) else Inl Bad_number) \<and>
   set_policy_launch now (str ''single-request'') (print_args [a]) =
     (if a < 2 ^ 31 then Inr (new_single_request (int a)) else Inl Bad_number) \<and>
   set_policy_keepalive (str ''moving-interval'') (print_args [a, b, c, d]) =
     (if list_all (\<lambda>n. n < 2 ^ 31) [a, b, c, d] then Inr (K_moving (moving_new (of_nat a) (of_nat b) (of_nat c)), int d) else Inl Bad_number) \<and>
   set_policy_keepalive (str ''moving-interval-global'') (print_args [a, b, c, d]) =
     (if list_all (\<lambda>n. n < 2 ^ 31) [a, b, c, d] then Inr (K_global (moving_global_new (of_nat a) (of_nat b) (of_nat c)), int d) else Inl Bad_number) \<and>
   (list_all (\<lambda>c. \<not> is_digit c) args \<longrightarrow> set_policy_launch now (str ''fix-pool'') args = Inl Bad_args \<and>
      set_policy_keepalive (str ''moving-interval'') args = Inl Bad_args)"
proof -
  have two: "regex_search 2 (print_args [a, b]) = Some [to_string a, to_string b]" using regex_search_print [of "[a, b]"] by (simp add: numeral_2_eq_2)
  have one: "regex_search 1 (print_args [a]) = Some [to_string a]" using regex_search_print [of "[a]"] by simp
  have four: "regex_search 4 (print_args [a, b, c, d]) = Some [to_string a, to_string b, to_string c, to_string d]"
    using regex_search_print [of "[a, b, c, d]"] by (simp add: eval_nat_numeral)
  have l: "policy_hash (str ''max-queue'') \<noteq> policy_hash (str ''const-average-load'')"
    "policy_hash (str ''single-request'') \<noteq> policy_hash (str ''const-average-load'')" "policy_hash (str ''fix-pool'') \<noteq> policy_hash (str ''const-average-load'')"
    "policy_hash (str ''single-request'') \<noteq> policy_hash (str ''max-queue'')" "policy_hash (str ''fix-pool'') \<noteq> policy_hash (str ''max-queue'')"
    "policy_hash (str ''fix-pool'') \<noteq> policy_hash (str ''single-request'')" "policy_hash (str ''moving-interval'') \<noteq> policy_hash (str ''const-time'')"
    "policy_hash (str ''moving-interval-global'') \<noteq> policy_hash (str ''const-time'')"
    "policy_hash (str ''moving-interval-global'') \<noteq> policy_hash (str ''moving-interval'')"
    by (simp_all add: policy_hash_def)
  show ?thesis
  proof (intro conjI impI)
    show "set_policy_launch now (str ''fix-pool'') (print_args [a, b]) =
        (if a < 2 ^ 31 \<and> b < 2 ^ 31 then Inr (new_fix_pool (int a) (int b)) else Inl Bad_number)"
      unfolding set_policy_launch_def Let_def two by (simp add: l or_bad_number_def stoi_group_to_string del: str_Cons)
    show "set_policy_launch now (str ''max-queue'') (print_args [a, b]) =
        (if a < 2 ^ 31 \<and> b < 2 ^ 64 then Inr (new_max_queue (int a) (of_nat b)) else Inl Bad_number)"
      unfolding set_policy_launch_def Let_def two_args_def two
      by (simp add: l or_bad_number_def stoi_group_to_string stoull_group_to_string del: str_Cons)
    show "set_policy_launch now (str ''const-average-load'') (print_args [a, b]) =
        (if a < 2 ^ 31 \<and> b < 2 ^ 64 then Inr (new_average_load (int a) (of_nat b) now) else Inl Bad_number)"
      unfolding set_policy_launch_def Let_def two_args_def two
      by (simp add: l or_bad_number_def stoi_group_to_string stoull_group_to_string del: str_Cons)
    show "set_policy_launch now (str ''single-request'') (print_args [a]) =
        (if a < 2 ^ 31 then Inr (new_single_request (int a)) else Inl Bad_number)"
      unfolding set_policy_launch_def Let_def one by (simp add: l or_bad_number_def stoi_group_to_string del: str_Cons)
    show "set_policy_keepalive (str ''moving-interval'') (print_args [a, b, c, d]) =
        (if list_all (\<lambda>n. n < 2 ^ 31) [a, b, c, d] then Inr (K_moving (moving_new (of_nat a) (of_nat b) (of_nat c)), int d) else Inl Bad_number)"
      unfolding set_policy_keepalive_def Let_def four_args_def four
      by (simp add: l or_bad_number_def stoi_group_to_string del: str_Cons)
    show "set_policy_keepalive (str ''moving-interval-global'') (print_args [a, b, c, d]) =
        (if list_all (\<lambda>n. n < 2 ^ 31) [a, b, c, d] then Inr (K_global (moving_global_new (of_nat a) (of_nat b) (of_nat c)), int d) else Inl Bad_number)"
      unfolding set_policy_keepalive_def Let_def four_args_def four
      by (simp add: l or_bad_number_def stoi_group_to_string del: str_Cons)
    assume "list_all (\<lambda>c. \<not> is_digit c) args"
    note n = no_digit_no_match [OF this]
    show "set_policy_launch now (str ''fix-pool'') args = Inl Bad_args" by (simp add: set_policy_launch_def Let_def n l del: str_Cons)
    show "set_policy_keepalive (str ''moving-interval'') args = Inl Bad_args"
      by (simp add: set_policy_keepalive_def Let_def four_args_def n l del: str_Cons)
  qed
qed

theorem policy_options_roundtrip_witness:
  "set_policy_launch 0 (str ''fix-pool'') (print_args [5, 10]) = Inr (new_fix_pool 5 10) \<and>
   set_policy_launch 0 (str ''fix-pool'') (str ''many'') = Inl Bad_args"
proof -
  have "list_all (\<lambda>c. \<not> is_digit c) (str ''many'')" by (simp add: is_digit_def)
  then show ?thesis using policy_options_roundtrip [of 0 5 10 0 0 "str ''many''"] by (simp del: str_Cons print_args.simps)
qed

end
