(* ===== verification/Shell.thy ===== *)
theory Shell
  imports Client_Lib Policy_Options
begin

text \<open>
  The command line of the file system, \<^verbatim>\<open>run\<close> of \<^verbatim>\<open>proxy/clients/slsfs-cmd.cpp\<close>: it reads words, creates the packet of a command, sends it and prints the
  answer, until a word is no command. The digest of names is the parameter \<open>sha\<close>, the client that sends is the parameter \<open>send\<close>. Shown: the loop ends, and a script of
  commands is sent packet by packet in its order.
\<close>

section \<open>Commands\<close>

text \<open>At the end of the input a word is empty.\<close>

definition next_word :: "bytes list \<Rightarrow> bytes \<times> bytes list" where
  "next_word ws = (case ws of [] \<Rightarrow> ([], []) | w # ws \<Rightarrow> (w, ws))"

text \<open>How the loop ends: a word that is no command, a size that is no number, or an exception of the client. The last two are not caught.\<close>

datatype shell_end = Unknown_command bytes | Bad_size | Send_failed

record gen =
  g_salt :: bytes
  g_sequ :: bytes
  g_pad :: bytes

definition cmd_request ::
  "(bytes \<Rightarrow> bytes) \<Rightarrow> gen \<Rightarrow> bytes \<Rightarrow> bytes \<Rightarrow> bytes list \<Rightarrow> (shell_end + packet \<times> bytes list) option" where
  "cmd_request sha g cmd arg1 ws =
     (let h = policy_hash cmd; (arg2, ws') = next_word ws
      in if h = policy_hash (str ''ls'') then Some (Inr (pc_ls (g_salt g) (g_sequ g) (g_pad g) (sha arg1), ws))
         else if h = policy_hash (str ''mkdir'') then Some (Inr (pc_mkdir (g_salt g) (g_sequ g) (g_pad g) (sha arg1), ws))
         else if h = policy_hash (str ''addfile'') then
           map_option (\<lambda>p. Inr (p, ws')) (pc_addfile (g_salt g) (g_sequ g) (g_pad g) (sha arg1) arg2)
         else if h = policy_hash (str ''write'') then Some (Inr (pc_write (g_salt g) (g_sequ g) (g_pad g) (sha arg1) arg2, ws'))
         else if h = policy_hash (str ''read'') then
           (case stoi arg2 of
              None \<Rightarrow> Some (Inl Bad_size)
            | Some n \<Rightarrow> Some (Inr (pc_read (g_salt g) (g_sequ g) (g_pad g) (sha arg1) (of_int n), ws')))
         else Some (Inl (Unknown_command cmd)))"

lemma command_hashes:
  "policy_hash (str ''mkdir'') \<noteq> policy_hash (str ''ls'')"
  "policy_hash (str ''addfile'') \<noteq> policy_hash (str ''ls'')" "policy_hash (str ''addfile'') \<noteq> policy_hash (str ''mkdir'')"
  "policy_hash (str ''write'') \<noteq> policy_hash (str ''ls'')" "policy_hash (str ''write'') \<noteq> policy_hash (str ''mkdir'')"
  "policy_hash (str ''write'') \<noteq> policy_hash (str ''addfile'')"
  "policy_hash (str ''read'') \<noteq> policy_hash (str ''ls'')" "policy_hash (str ''read'') \<noteq> policy_hash (str ''mkdir'')"
  "policy_hash (str ''read'') \<noteq> policy_hash (str ''addfile'')" "policy_hash (str ''read'') \<noteq> policy_hash (str ''write'')"
  "policy_hash [] \<noteq> policy_hash (str ''ls'')" "policy_hash [] \<noteq> policy_hash (str ''mkdir'')" "policy_hash [] \<noteq> policy_hash (str ''addfile'')"
  "policy_hash [] \<noteq> policy_hash (str ''write'')" "policy_hash [] \<noteq> policy_hash (str ''read'')"
  by (simp_all add: policy_hash_def)

lemma no_command: "cmd_request sha g [] arg1 ws = Some (Inl (Unknown_command []))"
  by (simp add: cmd_request_def command_hashes split_def del: str_Cons)

lemma next_word_length: "next_word ws = (w, ws') \<Longrightarrow> length ws' \<le> length ws"
  by (auto simp: next_word_def split: list.splits)

lemma cmd_request_length:
  assumes "cmd_request sha g cmd arg1 ws = Some (Inr (p, ws'))"
  shows "length ws' \<le> length ws"
  using assms next_word_length [of ws]
  by (cases "next_word ws") (auto simp: cmd_request_def Let_def split: if_splits option.splits)

text \<open>The empty word is no command, so every round that sends a packet consumes a word.\<close>

lemma shell_decreases:
  assumes "cmd_request sha g (fst (next_word ws)) arg1 (snd (next_word (snd (next_word ws)))) = Some (Inr (p, rest))"
  shows "length rest < length ws"
proof (cases ws)
  case Nil
  with assms no_command [of sha g] show ?thesis by (simp add: next_word_def)
next
  case (Cons c cs)
  then have "length rest \<le> length (snd (next_word cs))" using cmd_request_length [OF assms] by (simp add: next_word_def)
  also have "\<dots> \<le> length cs" by (rule next_word_length) (rule prod.collapse [symmetric])
  finally show ?thesis using Cons by simp
qed

section \<open>The loop\<close>

function shell ::
  "(bytes \<Rightarrow> bytes) \<Rightarrow> (nat \<Rightarrow> gen) \<Rightarrow> (packet \<Rightarrow> 'w \<Rightarrow> ((unit + bytes) \<times> 'w) option) \<Rightarrow> nat \<Rightarrow> bytes list \<Rightarrow> 'w \<Rightarrow> (bytes list \<times> shell_end \<times> 'w) option" where
  "shell sha gens send i ws w =
     (let cmd = fst (next_word ws); arg1 = fst (next_word (snd (next_word ws))); rest = snd (next_word (snd (next_word ws)))
      in case cmd_request sha (gens i) cmd arg1 rest of
           None \<Rightarrow> None
         | Some (Inl e) \<Rightarrow> Some ([], e, w)
         | Some (Inr (p, rest)) \<Rightarrow>
             (case send p w of
                None \<Rightarrow> None
              | Some (Inl _, w) \<Rightarrow> Some ([], Send_failed, w)
              | Some (Inr data, w) \<Rightarrow> map_option (\<lambda>(out, e, w). (data # out, e, w)) (shell sha gens send (i + 1) rest w)))"
  by pat_completeness auto
termination by (relation "measure (\<lambda>(_, _, _, _, ws, _). length ws)") (auto dest: shell_decreases)

declare shell.simps [simp del]

section \<open>Scripts\<close>

datatype shell_command = C_ls bytes | C_mkdir bytes | C_addfile bytes bytes | C_write bytes bytes | C_read bytes nat

fun cmd_words :: "shell_command \<Rightarrow> bytes list" where
  "cmd_words (C_ls d) = [str ''ls'', d]"
| "cmd_words (C_mkdir d) = [str ''mkdir'', d]"
| "cmd_words (C_addfile d f) = [str ''addfile'', d, f]"
| "cmd_words (C_write f t) = [str ''write'', f, t]"
| "cmd_words (C_read f n) = [str ''read'', f, to_string n]"

fun cmd_packet :: "(bytes \<Rightarrow> bytes) \<Rightarrow> gen \<Rightarrow> shell_command \<Rightarrow> packet option" where
  "cmd_packet sha g (C_ls d) = Some (pc_ls (g_salt g) (g_sequ g) (g_pad g) (sha d))"
| "cmd_packet sha g (C_mkdir d) = Some (pc_mkdir (g_salt g) (g_sequ g) (g_pad g) (sha d))"
| "cmd_packet sha g (C_addfile d f) = pc_addfile (g_salt g) (g_sequ g) (g_pad g) (sha d) f"
| "cmd_packet sha g (C_write f t) = Some (pc_write (g_salt g) (g_sequ g) (g_pad g) (sha f) t)"
| "cmd_packet sha g (C_read f n) = (if n < 2 ^ 31 then Some (pc_read (g_salt g) (g_sequ g) (g_pad g) (sha f) (of_nat n)) else None)"

lemma stoi_to_string: "n < 2 ^ 31 \<Longrightarrow> stoi (to_string n) = Some (int n)"
  using stoll_to_string [of n] by (simp add: stoi_def)

lemma cmd_step:
  assumes "cmd_packet sha (gens i) c = Some p"
  shows "shell sha gens send i (cmd_words c @ ws) w =
    (case send p w of
       None \<Rightarrow> None
     | Some (Inl _, w) \<Rightarrow> Some ([], Send_failed, w)
     | Some (Inr data, w) \<Rightarrow> map_option (\<lambda>(out, e, w). (data # out, e, w)) (shell sha gens send (i + 1) ws w))"
  using assms
  by (subst shell.simps, cases c)
    (auto simp: next_word_def cmd_request_def command_hashes stoi_to_string Let_def simp del: str_Cons split: if_splits)

text \<open>The packets of a script, sent one after the other while the client answers.\<close>

fun send_all :: "(packet \<Rightarrow> 'w \<Rightarrow> ((unit + bytes) \<times> 'w) option) \<Rightarrow> packet list \<Rightarrow> 'w \<Rightarrow> (bytes list \<times> 'w) option" where
  "send_all send [] w = Some ([], w)"
| "send_all send (p # ps) w =
     (case send p w of
        Some (Inr data, w) \<Rightarrow> map_option (\<lambda>(out, w). (data # out, w)) (send_all send ps w)
      | _ \<Rightarrow> None)"

text \<open>
  A script of commands is carried out in its order. When every command of the script has a packet (names of at most 60 bytes, sizes below 2 to the 31) and the
  client answers all of them, the loop prints the answers in order and ends at the end of the input, which reads as the empty command.
\<close>

theorem script_sends_packets:
  assumes "list_all2 (\<lambda>(j, c) p. cmd_packet sha (gens j) c = Some p) (enumerate i cs) ps" "send_all send ps w = Some (out, w')"
  shows "shell sha gens send i (concat (map cmd_words cs)) w = Some (out, Unknown_command [], w')"
  using assms
proof (induction cs arbitrary: i ps w out)
  case Nil
  then show ?case by (subst shell.simps) (simp add: next_word_def no_command)
next
  case (Cons c cs)
  then obtain p qs where ps: "ps = p # qs" and p: "cmd_packet sha (gens i) c = Some p"
    and qs: "list_all2 (\<lambda>(j, c) p. cmd_packet sha (gens j) c = Some p) (enumerate (i + 1) cs) qs"
    by (cases ps) auto
  from Cons.prems(2) obtain data v out' where s: "send p w = Some (Inr data, v)" "send_all send qs v = Some (out', w')" "out = data # out'"
    unfolding ps by (auto split: option.splits sum.splits)
  from Cons.IH [OF qs s(2)] show ?case using cmd_step [where gens = gens and i = i, OF p, of send "concat (map cmd_words cs)" w] s by simp
qed

theorem script_sends_packets_witness:
  "shell (\<lambda>n. replicate 32 (of_nat (length n))) (\<lambda>_. \<lparr>g_salt = [1, 1, 1, 1], g_sequ = [2, 2, 2, 2], g_pad = [0, 0]\<rparr>)
     (\<lambda>p n. Some (Inr [ph_type (pk_header p)], n + 1)) 0 (concat (map cmd_words [C_mkdir (str ''d''), C_addfile (str ''d'') (str ''f''), C_read (str ''f'') 3])) (0 :: nat) =
   Some ([[14], [14], [14]], Unknown_command [], 3)"
proof -
  let ?g = "\<lparr>g_salt = [1, 1, 1, 1], g_sequ = [2, 2, 2, 2], g_pad = [0, 0]\<rparr> :: gen" and ?sha = "\<lambda>n. replicate 32 (of_nat (length n) :: u8)"
  let ?cs = "[C_mkdir (str ''d''), C_addfile (str ''d'') (str ''f''), C_read (str ''f'') 3]"
  define ps where "ps = map (\<lambda>c. the (cmd_packet ?sha ?g c)) ?cs"
  have ok: "cmd_packet ?sha ?g c \<noteq> None" if "c \<in> set ?cs" for c using that by (auto simp: pc_addfile_def)
  have "list_all2 (\<lambda>(j, c) p. cmd_packet ?sha ((\<lambda>_. ?g) j) c = Some p) (enumerate 0 ?cs) ps"
    using ok by (simp add: ps_def enumerate_eq_zip upt_rec del: cmd_packet.simps)
  moreover have "send_all (\<lambda>p n. Some (Inr [ph_type (pk_header p)], n + 1)) ps (0 :: nat) = Some ([[14], [14], [14]], 3)"
    by (simp add: ps_def pc_mkdir_def pc_addfile_def pc_read_def meta_packet_def build_packet_def trigger_header_def fresh_header_def filemeta_size_def)
  ultimately show ?thesis by (rule script_sends_packets)
qed

end
