(* ===== verification/Watch.thy ===== *)
theory Watch
  imports Main
begin

text \<open>
  How the proxies (\<^verbatim>\<open>proxy/zookeeper.hpp\<close>) and the clients (\<^verbatim>\<open>proxy/clients/clientlib-zookeeper.hpp\<close>) follow the list of
  proxies: a watch on \<open>/slsfs/proxy\<close> that fires once, and a request for the list. The two programs send the two requests in different orders after an event. Shown:
  with the order of the client a list that is not current is always about to be replaced, once the first event has been
  handled and while the answers are taken in order; with the order of the proxy a change between the two requests is missed for good.
\<close>

section \<open>Requests, watches and answers\<close>

text \<open>
  The service handles the requests of a session in the order in which they were sent. A watch fires once, at the next change. The continuations of answers run on threads of
  their own. \<open>wt_children\<close> is the list at the service, \<open>wt_known\<close> the last one the program was configured with.
\<close>

datatype zk_request = Z_get | Z_watch

record 'a watcher =
  wt_children :: 'a
  wt_armed :: nat
  wt_events :: nat
  wt_pending :: "zk_request list"
  wt_replies :: "'a list"
  wt_known :: "'a option"
  wt_closed :: bool

definition send_zk :: "zk_request \<Rightarrow> 'a watcher \<Rightarrow> 'a watcher" where
  "send_zk r w = w\<lparr>wt_pending := wt_pending w @ [r]\<rparr>"

definition proxy_start_watch :: "'a watcher \<Rightarrow> 'a watcher" where
  "proxy_start_watch w = (if wt_closed w then w else send_zk Z_watch w)"

definition proxy_on_event :: "'a watcher \<Rightarrow> 'a watcher" where
  "proxy_on_event w = proxy_start_watch (send_zk Z_get w)"

definition client_start_watch :: "'a watcher \<Rightarrow> 'a watcher" where
  "client_start_watch w = send_zk Z_watch w"

definition client_on_event :: "'a watcher \<Rightarrow> 'a watcher" where
  "client_on_event w = send_zk Z_get (client_start_watch w)"

definition fresh_watcher :: "'a \<Rightarrow> 'a watcher" where
  "fresh_watcher cs = \<lparr>wt_children = cs, wt_armed = 0, wt_events = 0, wt_pending = [], wt_replies = [], wt_known = None, wt_closed = False\<rparr>"

text \<open>A proxy watches when its node has been created; the constructor of a client asks for the list and then watches.\<close>

definition proxy_start :: "'a \<Rightarrow> 'a watcher" where
  "proxy_start cs = proxy_start_watch (fresh_watcher cs)"

definition client_start :: "'a \<Rightarrow> 'a watcher" where
  "client_start cs = client_start_watch (send_zk Z_get (fresh_watcher cs))"

text \<open>\<open>ordered\<close>: whether the answers are taken in the order in which they arrived.\<close>

inductive watch_step :: "bool \<Rightarrow> ('a watcher \<Rightarrow> 'a watcher) \<Rightarrow> 'a watcher \<Rightarrow> 'a watcher \<Rightarrow> bool" for ordered on_event where
  change: "cs \<noteq> wt_children w \<Longrightarrow>
    watch_step ordered on_event w (w\<lparr>wt_children := cs, wt_events := wt_events w + wt_armed w, wt_armed := 0\<rparr>)"
| serve_get: "wt_pending w = Z_get # rs \<Longrightarrow>
    watch_step ordered on_event w (w\<lparr>wt_pending := rs, wt_replies := wt_replies w @ [wt_children w]\<rparr>)"
| serve_watch: "wt_pending w = Z_watch # rs \<Longrightarrow>
    watch_step ordered on_event w (w\<lparr>wt_pending := rs, wt_armed := wt_armed w + 1\<rparr>)"
| event: "wt_events w = Suc n \<Longrightarrow> watch_step ordered on_event w (on_event (w\<lparr>wt_events := n\<rparr>))"
| reply: "wt_replies w = xs @ cs # ys \<Longrightarrow> (ordered \<Longrightarrow> xs = []) \<Longrightarrow>
    watch_step ordered on_event w (w\<lparr>wt_replies := xs @ ys, wt_known := Some cs\<rparr>)"

definition settled :: "'a watcher \<Rightarrow> bool" where
  "settled w \<longleftrightarrow> wt_pending w = [] \<and> wt_replies w = [] \<and> wt_events w = 0"

section \<open>The order of the client\<close>

text \<open>There is one watch: set, fired or on its way.\<close>

definition one_watch :: "'a watcher \<Rightarrow> bool" where
  "one_watch w \<longleftrightarrow> wt_armed w + wt_events w + count_list (wt_pending w) Z_watch = 1"

definition last_list :: "'a watcher \<Rightarrow> 'a option" where
  "last_list w = last (wt_known w # map Some (wt_replies w))"

text \<open>While the watch is set and no request for the list is on its way, the last answer is the list at the service.\<close>

definition follows :: "'a watcher \<Rightarrow> bool" where
  "follows w \<longleftrightarrow> one_watch w \<and> (Z_watch \<in> set (wt_pending w) \<longrightarrow> last (wt_pending w) = Z_get) \<and>
     (wt_armed w = 1 \<and> Z_get \<notin> set (wt_pending w) \<longrightarrow> last_list w = Some (wt_children w))"

lemmas client_defs = client_on_event_def client_start_watch_def send_zk_def

lemma one_watch_step:
  assumes "watch_step ordered client_on_event w w'" "one_watch w"
  shows "one_watch w'"
  using assms by (induction rule: watch_step.induct) (auto simp: one_watch_def client_defs)

lemma event_follows:
  assumes "one_watch w" "wt_events w = Suc n"
  shows "follows (client_on_event (w\<lparr>wt_events := n\<rparr>))"
  using assms by (auto simp: follows_def one_watch_def client_defs)

lemma follows_step:
  assumes "watch_step True client_on_event w w'" "follows w"
  shows "follows w'"
  using assms
proof (induction rule: watch_step.induct)
  case (serve_watch w rs)
  then have "last rs = Z_get" "rs \<noteq> []" "Z_watch \<notin> set rs"
    by (auto simp: follows_def one_watch_def count_list_0_iff split: if_splits)
  then have "Z_get \<in> set rs" using last_in_set by metis
  with serve_watch \<open>Z_watch \<notin> set rs\<close> show ?case by (simp add: follows_def one_watch_def)
next
  case (event w n)
  then show ?case by (intro event_follows) (simp_all add: follows_def)
qed (auto simp: follows_def one_watch_def last_list_def split: if_splits)

section \<open>Progress\<close>

text \<open>A step that does not change the list at the service; every such step brings the program closer to rest.\<close>

definition calm_step :: "'a watcher \<Rightarrow> 'a watcher \<Rightarrow> bool" where
  "calm_step w w' \<longleftrightarrow> watch_step True client_on_event w w' \<and> wt_children w' = wt_children w"

definition watch_cost :: "'a watcher \<Rightarrow> nat" where
  "watch_cost w = 4 * wt_events w + sum_list (map (\<lambda>r. case r of Z_get \<Rightarrow> 2 | Z_watch \<Rightarrow> 1) (wt_pending w)) + length (wt_replies w)"

lemma calm_step_cost:
  assumes "calm_step w w'"
  shows "watch_cost w' < watch_cost w"
proof -
  have "watch_step True client_on_event w w'" "wt_children w' = wt_children w" using assms by (simp_all add: calm_step_def)
  then show ?thesis by (induction rule: watch_step.induct) (auto simp: watch_cost_def client_defs)
qed

lemma calm_step_exists:
  assumes "\<not> settled w"
  shows "\<exists>w'. calm_step w w'"
proof (cases "wt_pending w")
  case (Cons r rs)
  then show ?thesis
    using watch_step.serve_get [of w rs] watch_step.serve_watch [of w rs] unfolding calm_step_def by (cases r) fastforce+
next
  case Nil
  show ?thesis
  proof (cases "wt_replies w")
    case (Cons cs rs)
    then show ?thesis using watch_step.reply [of w "[]" cs rs True client_on_event] unfolding calm_step_def by fastforce
  next
    case empty: Nil
    then obtain n where "wt_events w = Suc n" using assms Nil by (cases "wt_events w") (auto simp: settled_def)
    from watch_step.event [OF this] show ?thesis unfolding calm_step_def by (fastforce simp: client_defs)
  qed
qed

section \<open>Properties\<close>

text \<open>
  C8. A client ends up with the current list. After a client has handled its first event, whatever happened before, and while it takes the
  answers in order: when nothing is left to do, the list it was configured with is the list at the service and the watch is set; when something is left
  to do, there is a step; and every step except a change of the list brings it closer to rest.
\<close>

theorem client_list_current:
  assumes "(watch_step ordered client_on_event)\<^sup>*\<^sup>* (client_start cs) w" "wt_events w = Suc n"
    and "(watch_step True client_on_event)\<^sup>*\<^sup>* (client_on_event (w\<lparr>wt_events := n\<rparr>)) w'"
  shows "if settled w' then wt_known w' = Some (wt_children w') \<and> wt_armed w' = 1
    else (\<exists>v. calm_step w' v) \<and> (\<forall>v. calm_step w' v \<longrightarrow> watch_cost v < watch_cost w')"
proof -
  have "one_watch (client_start cs)" by (simp add: one_watch_def client_start_def client_defs fresh_watcher_def)
  with assms(1) have "one_watch w" by (induction rule: rtranclp_induct) (auto dest: one_watch_step)
  from assms(3) event_follows [OF this assms(2)] have "follows w'" by (induction rule: rtranclp_induct) (auto dest: follows_step)
  then have "wt_known w' = Some (wt_children w') \<and> wt_armed w' = 1" if "settled w'"
    using that by (auto simp: follows_def one_watch_def settled_def last_list_def)
  then show ?thesis using calm_step_exists [of w'] calm_step_cost [of w'] by auto
qed

text \<open>
  C24. A proxy can miss a change. The proxy asks for the list and only then sets the watch again: when the list becomes \<open>y\<close> between the two requests, the
  proxy is configured with the older list \<open>x\<close>, has nothing left to do, and stays so until the list changes once more.
\<close>

theorem proxy_misses_change:
  assumes "x \<noteq> cs" "y \<noteq> x"
  shows "\<exists>w. (watch_step True proxy_on_event)\<^sup>*\<^sup>* (proxy_start cs) w \<and> settled w \<and> wt_armed w = 1 \<and> wt_children w = y \<and> wt_known w = Some x"
proof -
  let ?S = "watch_step True proxy_on_event"
  let ?w = "\<lambda>c a e p r k. \<lparr>wt_children = c, wt_armed = a, wt_events = e, wt_pending = p, wt_replies = r, wt_known = k, wt_closed = False\<rparr>"
  have "?S (?w cs 0 0 [Z_watch] [] None) (?w cs 1 0 [] [] None)"
    using watch_step.serve_watch [of "?w cs 0 0 [Z_watch] [] None" "[]"] by simp
  moreover have "?S (?w cs 1 0 [] [] None) (?w x 0 1 [] [] None)" using watch_step.change [of x "?w cs 1 0 [] [] None"] assms(1) by simp
  moreover have "?S (?w x 0 1 [] [] None) (?w x 0 0 [Z_get, Z_watch] [] None)"
    using watch_step.event [of "?w x 0 1 [] [] None" 0 True proxy_on_event] by (simp add: proxy_on_event_def proxy_start_watch_def send_zk_def)
  moreover have "?S (?w x 0 0 [Z_get, Z_watch] [] None) (?w x 0 0 [Z_watch] [x] None)"
    using watch_step.serve_get [of "?w x 0 0 [Z_get, Z_watch] [] None" "[Z_watch]"] by simp
  moreover have "?S (?w x 0 0 [Z_watch] [x] None) (?w y 0 0 [Z_watch] [x] None)"
    using watch_step.change [of y "?w x 0 0 [Z_watch] [x] None"] assms(2) by simp
  moreover have "?S (?w y 0 0 [Z_watch] [x] None) (?w y 1 0 [] [x] None)"
    using watch_step.serve_watch [of "?w y 0 0 [Z_watch] [x] None" "[]"] by simp
  moreover have "?S (?w y 1 0 [] [x] None) (?w y 1 0 [] [] (Some x))"
    using watch_step.reply [of "?w y 1 0 [] [x] None" "[]" x "[]"] by simp
  moreover have "proxy_start cs = ?w cs 0 0 [Z_watch] [] None"
    by (simp add: proxy_start_def proxy_start_watch_def send_zk_def fresh_watcher_def)
  ultimately have "?S\<^sup>*\<^sup>* (proxy_start cs) (?w y 1 0 [] [] (Some x))"
    by (metis (no_types, lifting) rtranclp.rtrancl_into_rtrancl rtranclp.rtrancl_refl)
  then show ?thesis by (intro exI [of _ "?w y 1 0 [] [] (Some x)"]) (simp add: settled_def)
qed

text \<open>The constructor of a client has the same gap: it asks for the list before it sets the watch.\<close>

lemma client_start_gap:
  assumes "x \<noteq> cs"
  shows "\<exists>w. (watch_step True client_on_event)\<^sup>*\<^sup>* (client_start cs) w \<and> settled w \<and> wt_children w = x \<and> wt_known w = Some cs"
proof -
  let ?S = "watch_step True client_on_event"
  let ?w = "\<lambda>c a e p r k. \<lparr>wt_children = c, wt_armed = a, wt_events = e, wt_pending = p, wt_replies = r, wt_known = k, wt_closed = False\<rparr>"
  have "?S (?w cs 0 0 [Z_get, Z_watch] [] None) (?w cs 0 0 [Z_watch] [cs] None)"
    using watch_step.serve_get [of "?w cs 0 0 [Z_get, Z_watch] [] None" "[Z_watch]"] by simp
  moreover have "?S (?w cs 0 0 [Z_watch] [cs] None) (?w x 0 0 [Z_watch] [cs] None)"
    using watch_step.change [of x "?w cs 0 0 [Z_watch] [cs] None"] assms by simp
  moreover have "?S (?w x 0 0 [Z_watch] [cs] None) (?w x 1 0 [] [cs] None)"
    using watch_step.serve_watch [of "?w x 0 0 [Z_watch] [cs] None" "[]"] by simp
  moreover have "?S (?w x 1 0 [] [cs] None) (?w x 1 0 [] [] (Some cs))"
    using watch_step.reply [of "?w x 1 0 [] [cs] None" "[]" cs "[]"] by simp
  moreover have "client_start cs = ?w cs 0 0 [Z_get, Z_watch] [] None" by (simp add: client_start_def client_defs fresh_watcher_def)
  ultimately have "?S\<^sup>*\<^sup>* (client_start cs) (?w x 1 0 [] [] (Some cs))"
    by (metis (no_types, lifting) rtranclp.rtrancl_into_rtrancl rtranclp.rtrancl_refl)
  then show ?thesis by (intro exI [of _ "?w x 1 0 [] [] (Some cs)"]) (simp add: settled_def)
qed

section \<open>Witnesses\<close>

lemma sample_watch:
  "\<exists>w. (watch_step True client_on_event)\<^sup>*\<^sup>* (client_start False) w \<and> wt_events w = Suc 0"
proof -
  let ?w = "\<lambda>c a e p r k. \<lparr>wt_children = c, wt_armed = a, wt_events = e, wt_pending = p, wt_replies = r, wt_known = k, wt_closed = False\<rparr>"
  let ?S = "watch_step True client_on_event"
  have "?S (?w False 0 0 [Z_get, Z_watch] [] None) (?w False 0 0 [Z_watch] [False] None)"
    using watch_step.serve_get [of "?w False 0 0 [Z_get, Z_watch] [] None" "[Z_watch]"] by simp
  moreover have "?S (?w False 0 0 [Z_watch] [False] None) (?w False 1 0 [] [False] None)"
    using watch_step.serve_watch [of "?w False 0 0 [Z_watch] [False] None" "[]"] by simp
  moreover have "?S (?w False 1 0 [] [False] None) (?w True 0 1 [] [False] None)"
    using watch_step.change [of True "?w False 1 0 [] [False] None"] by simp
  moreover have "client_start False = ?w False 0 0 [Z_get, Z_watch] [] None"
    by (simp add: client_start_def client_defs fresh_watcher_def)
  ultimately have "?S\<^sup>*\<^sup>* (client_start False) (?w True 0 1 [] [False] None)"
    by (metis (no_types, lifting) rtranclp.rtrancl_into_rtrancl rtranclp.rtrancl_refl)
  then show ?thesis by (intro exI [of _ "?w True 0 1 [] [False] None"]) simp
qed

theorem client_list_current_witness:
  "\<exists>w :: bool watcher. wt_events w = Suc 0 \<and> (\<exists>v. calm_step (client_on_event (w\<lparr>wt_events := 0\<rparr>)) v)"
proof -
  obtain w :: "bool watcher" where w: "(watch_step True client_on_event)\<^sup>*\<^sup>* (client_start False) w" "wt_events w = Suc 0"
    using sample_watch by blast
  have "\<not> settled (client_on_event (w\<lparr>wt_events := 0\<rparr>))" by (simp add: settled_def client_defs)
  with client_list_current [OF w rtranclp.rtrancl_refl] w(2) show ?thesis by auto
qed

theorem proxy_misses_change_witness:
  "\<exists>w. (watch_step True proxy_on_event)\<^sup>*\<^sup>* (proxy_start ''ab'') w \<and> settled w \<and> wt_armed w = 1 \<and> wt_children w = ''a'' \<and> wt_known w = Some ''b''"
  by (rule proxy_misses_change) simp_all

end
