(* ===== verification/Http_Trigger.thy ===== *)
theory Http_Trigger
  imports External "HOL-Library.Multiset"
begin

text \<open>
  The HTTP request that starts a data function, \<^verbatim>\<open>proxy/trigger.hpp\<close>: a chain of asynchronous operations (resolve, connect, TLS handshake, write, read) on one stream, with
  a queue for requests that arrive while another one is written or waits for its response. A request is the body of type \<open>'r\<close>. The operations that
  have been started and not yet completed are listed in \<open>tg_ops\<close>, in any order of completion. Shown: without errors every posted request
  is written exactly once, whatever the order of the completions, after a bounded number of them; after one failed write nothing is sent any more.
\<close>

section \<open>Operations\<close>

datatype 'r async = Do_resolve 'r | Do_connect 'r | Do_handshake 'r | Do_write 'r | Do_read

record ('r, 'q) trig =
  tg_connected :: bool
  tg_writing :: bool
  tg_pending :: 'q
  tg_retried :: nat
  tg_slots :: nat
  tg_ops :: "'r async list"
  tg_sent :: "'r list"
  tg_calls :: nat

definition make_trigger :: "('r, 'q) cqueue \<Rightarrow> ('r, 'q) trig" where
  "make_trigger Q = \<lparr>tg_connected = False, tg_writing = False, tg_pending = cq_empty Q, tg_retried = 0, tg_slots = 0, tg_ops = [], tg_sent = [], tg_calls = 0\<rparr>"

definition start_op :: "'r async \<Rightarrow> ('r, 'q) trig \<Rightarrow> ('r, 'q) trig" where
  "start_op a t = t\<lparr>tg_ops := tg_ops t @ [a]\<rparr>"

definition register_on_read :: "('r, 'q) trig \<Rightarrow> ('r, 'q) trig" where
  "register_on_read t = t\<lparr>tg_slots := tg_slots t + 1\<rparr>"

text \<open>\<open>sni\<close>: whether the TLS library accepts the host name.\<close>

definition start_resolve :: "bool \<Rightarrow> 'r \<Rightarrow> ('r, 'q) trig \<Rightarrow> ('r, 'q) trig" where
  "start_resolve sni req t = (if sni then start_op (Do_resolve req) t else t)"

definition start_post :: "bool \<Rightarrow> 'r \<Rightarrow> ('r, 'q) trig \<Rightarrow> ('r, 'q) trig" where
  "start_post sni body t = start_resolve sni body t"

definition start_write :: "('r, 'q) cqueue \<Rightarrow> 'r \<Rightarrow> ('r, 'q) trig \<Rightarrow> ('r, 'q) trig" where
  "start_write Q req t =
     (if tg_writing t then t\<lparr>tg_pending := cq_push Q (tg_pending t) req\<rparr>
      else start_op (Do_write req) (t\<lparr>tg_writing := True\<rparr>))"

text \<open>The handler of a completed operation; \<open>ec\<close> is the error code.\<close>

fun on_complete :: "('r, 'q) cqueue \<Rightarrow> bool \<Rightarrow> 'r async \<Rightarrow> bool \<Rightarrow> ('r, 'q) trig \<Rightarrow> ('r, 'q) trig" where
  "on_complete Q sni (Do_resolve req) ec t = (if ec then t else start_op (Do_connect req) t)"
| "on_complete Q sni (Do_connect req) ec t =
     (if ec then start_resolve sni req (t\<lparr>tg_connected := False\<rparr>)
      else (start_op (Do_handshake req) t)\<lparr>tg_connected := True\<rparr>)"
| "on_complete Q sni (Do_handshake req) ec t = (if ec then t else start_write Q req t)"
| "on_complete Q sni (Do_write req) ec t =
     (if \<not> ec then start_op Do_read (t\<lparr>tg_sent := tg_sent t @ [req]\<rparr>)
      else if tg_retried t < 3 then (start_resolve sni req t)\<lparr>tg_retried := tg_retried t + 1\<rparr>
      else t\<lparr>tg_retried := 0\<rparr>)"
| "on_complete Q sni Do_read ec t =
     (if ec then t
      else let t = t\<lparr>tg_calls := tg_calls t + tg_slots t, tg_slots := 0, tg_connected := True, tg_writing := False\<rparr>
           in case cq_try_pop Q (tg_pending t) of
                None \<Rightarrow> t
              | Some (req, q) \<Rightarrow> start_write Q req (t\<lparr>tg_pending := q\<rparr>))"

text \<open>The steps of a trigger: a listener is registered, a request is posted, or any operation that is under way completes.\<close>

inductive trig_step :: "('r, 'q) cqueue \<Rightarrow> bool \<Rightarrow> ('r, 'q) trig \<Rightarrow> ('r, 'q) trig \<Rightarrow> bool" for Q sni where
  listener: "trig_step Q sni t (register_on_read t)"
| post: "trig_step Q sni t (start_post sni req t)"
| completion: "i < length (tg_ops t) \<Longrightarrow>
    trig_step Q sni t (on_complete Q sni (tg_ops t ! i) ec (t\<lparr>tg_ops := take i (tg_ops t) @ drop (Suc i) (tg_ops t)\<rparr>))"

text \<open>A run in which every operation succeeds: the list gives the operation that completes next.\<close>

fun run_ok :: "('r, 'q) cqueue \<Rightarrow> nat list \<Rightarrow> ('r, 'q) trig \<Rightarrow> ('r, 'q) trig" where
  "run_ok Q [] t = t"
| "run_ok Q (i # is) t =
     (if tg_ops t = [] then t
      else let k = i mod length (tg_ops t)
           in run_ok Q is (on_complete Q True (tg_ops t ! k) False (t\<lparr>tg_ops := take k (tg_ops t) @ drop (Suc k) (tg_ops t)\<rparr>)))"

section \<open>Error-free runs\<close>

fun op_req :: "'r async \<Rightarrow> 'r list" where
  "op_req (Do_resolve req) = [req]"
| "op_req (Do_connect req) = [req]"
| "op_req (Do_handshake req) = [req]"
| "op_req (Do_write req) = [req]"
| "op_req Do_read = []"

fun on_stream :: "'r async \<Rightarrow> bool" where
  "on_stream (Do_write req) = True"
| "on_stream Do_read = True"
| "on_stream _ = False"

fun op_cost :: "'r async \<Rightarrow> nat" where
  "op_cost (Do_resolve req) = 5"
| "op_cost (Do_connect req) = 4"
| "op_cost (Do_handshake req) = 3"
| "op_cost (Do_write req) = 2"
| "op_cost Do_read = 1"

definition requests :: "('r, 'q) cqueue \<Rightarrow> ('r, 'q) trig \<Rightarrow> 'r multiset" where
  "requests Q t = mset (tg_sent t) + mset (cq_list Q (tg_pending t)) + mset (concat (map op_req (tg_ops t)))"

definition trig_inv :: "('r, 'q) cqueue \<Rightarrow> ('r, 'q) trig \<Rightarrow> bool" where
  "trig_inv Q t \<longleftrightarrow> length (filter on_stream (tg_ops t)) = (if tg_writing t then 1 else 0) \<and>
     (\<not> tg_writing t \<longrightarrow> cq_list Q (tg_pending t) = [])"

definition trig_cost :: "('r, 'q) cqueue \<Rightarrow> ('r, 'q) trig \<Rightarrow> nat" where
  "trig_cost Q t = sum_list (map op_cost (tg_ops t)) + 2 * length (cq_list Q (tg_pending t))"

lemma complete_step:
  assumes Q: "cqueue_ok Q" and inv: "trig_inv Q t" and ops: "tg_ops t = xs @ a # ys"
    and t': "t' = on_complete Q True a False (t\<lparr>tg_ops := xs @ ys\<rparr>)"
  shows "trig_inv Q t' \<and> requests Q t' = requests Q t \<and> Suc (trig_cost Q t') = trig_cost Q t"
proof (cases a)
  case (Do_handshake req)
  then show ?thesis
    using inv unfolding t' by (auto simp: trig_inv_def requests_def trig_cost_def start_write_def start_op_def ops cqueue_push [OF Q])
next
  case Do_read
  then have w: "tg_writing t" "filter on_stream xs = []" "filter on_stream ys = []"
    using inv by (auto simp: trig_inv_def ops split: if_splits)
  show ?thesis
  proof (cases "cq_try_pop Q (tg_pending t)")
    case None
    then show ?thesis
      using w cqueue_pop_None [OF Q, of "tg_pending t"] Do_read unfolding t'
      by (simp add: trig_inv_def requests_def trig_cost_def ops Let_def)
  next
    case (Some p)
    obtain req q where p: "p = (req, q)" by (cases p)
    then show ?thesis
      using w cqueue_pop_Some [OF Q, of "tg_pending t" req q] Do_read Some unfolding t'
      by (simp add: trig_inv_def requests_def trig_cost_def ops Let_def start_write_def start_op_def)
  qed
qed (use inv t' in \<open>auto simp: trig_inv_def requests_def trig_cost_def start_op_def ops split: if_splits\<close>)

lemma run_ok_step:
  assumes Q: "cqueue_ok Q"
  shows "trig_inv Q t \<Longrightarrow> trig_inv Q (run_ok Q ks t) \<and> requests Q (run_ok Q ks t) = requests Q t \<and>
    trig_cost Q (run_ok Q ks t) = trig_cost Q t - length ks"
proof (induction ks arbitrary: t)
  case (Cons k ks)
  show ?case
  proof (cases "tg_ops t = []")
    case True
    then have "\<not> tg_writing t" using Cons.prems by (auto simp: trig_inv_def split: if_splits)
    then have "trig_cost Q t = 0" using True Cons.prems by (simp add: trig_inv_def trig_cost_def)
    then show ?thesis using True Cons.prems by simp
  next
    case False
    let ?k = "k mod length (tg_ops t)"
    let ?t = "on_complete Q True (tg_ops t ! ?k) False (t\<lparr>tg_ops := take ?k (tg_ops t) @ drop (Suc ?k) (tg_ops t)\<rparr>)"
    have "tg_ops t = take ?k (tg_ops t) @ tg_ops t ! ?k # drop (Suc ?k) (tg_ops t)" using False by (intro id_take_nth_drop) simp
    from complete_step [OF Q Cons.prems this refl]
    have t: "trig_inv Q ?t" "requests Q ?t = requests Q t" "Suc (trig_cost Q ?t) = trig_cost Q t" by blast+
    from Cons.IH [OF t(1)] t(2,3) False show ?thesis by (simp add: Let_def flip: t(3))
  qed
qed simp

lemma op_cost_pos: "op_cost a \<noteq> 0"
  by (cases a) auto

lemma posts_state:
  "foldl (\<lambda>t r. start_post True r t) t rs = t\<lparr>tg_ops := tg_ops t @ map Do_resolve rs\<rparr>"
  by (induction rs arbitrary: t) (simp_all add: start_post_def start_resolve_def start_op_def)

section \<open>Properties\<close>

text \<open>
  C28. Without errors every request is sent once. After any posts to a fresh trigger, five completions for each of them, in any order, write every
  posted request exactly once and leave the trigger idle with an empty queue.
\<close>

theorem trigger_sends_all:
  assumes "cqueue_ok Q" "length ks = 5 * length rs" "t = run_ok Q ks (foldl (\<lambda>t r. start_post True r t) (make_trigger Q) rs)"
  shows "mset (tg_sent t) = mset rs \<and> tg_ops t = [] \<and> cq_list Q (tg_pending t) = [] \<and> \<not> tg_writing t"
proof -
  let ?t = "foldl (\<lambda>t r. start_post True r t) (make_trigger Q) rs"
  have c: "concat (map op_req (map Do_resolve rs)) = rs" "filter on_stream (map Do_resolve rs) = []" "sum_list (map op_cost (map Do_resolve rs)) = 5 * length rs"
    by (induction rs) auto
  have "trig_inv Q ?t" "requests Q ?t = mset rs" "trig_cost Q ?t = 5 * length rs"
    unfolding posts_state using c by (simp_all add: trig_inv_def requests_def trig_cost_def make_trigger_def cqueue_empty [OF assms(1)])
  with run_ok_step [OF assms(1), of ?t ks] assms(2,3) have t: "trig_inv Q t" "requests Q t = mset rs" "trig_cost Q t = 0" by simp_all
  have "tg_ops t = []" using t(3) by (cases "tg_ops t") (auto simp: trig_cost_def op_cost_pos)
  with t show ?thesis by (auto simp: trig_inv_def requests_def trig_cost_def split: if_splits)
qed

definition parked :: "('r, 'q) trig \<Rightarrow> bool" where
  "parked t \<longleftrightarrow> tg_writing t \<and> filter on_stream (tg_ops t) = []"

lemma parked_step:
  assumes "trig_step Q sni t t'" "parked t"
  shows "parked t' \<and> tg_sent t' = tg_sent t \<and> tg_calls t' = tg_calls t"
  using assms
proof (induction rule: trig_step.induct)
  case (completion i t ec)
  have split: "tg_ops t = take i (tg_ops t) @ tg_ops t ! i # drop (Suc i) (tg_ops t)" using completion(1) by (rule id_take_nth_drop)
  have "\<forall>a \<in> set (tg_ops t). \<not> on_stream a" using completion(2) by (simp add: parked_def filter_empty_conv)
  then have "\<not> on_stream (tg_ops t ! i)" "\<forall>a \<in> set (take i (tg_ops t) @ drop (Suc i) (tg_ops t)). \<not> on_stream a"
    using completion(1) by (auto dest: in_set_takeD in_set_dropD)
  then show ?case using completion(2)
    by (cases "tg_ops t ! i") (auto simp: parked_def filter_empty_conv start_write_def start_op_def start_resolve_def)
qed (auto simp: parked_def register_on_read_def start_post_def start_resolve_def start_op_def)

text \<open>At most one operation uses the stream, and only while the flag is set.\<close>

definition one_stream :: "('r, 'q) trig \<Rightarrow> bool" where
  "one_stream t \<longleftrightarrow> length (filter on_stream (tg_ops t)) \<le> (if tg_writing t then 1 else 0)"

lemma one_stream_step:
  assumes "trig_step Q sni t t'" "one_stream t"
  shows "one_stream t'"
  using assms
proof (induction rule: trig_step.induct)
  case (completion i t ec)
  define xs ys a where "xs = take i (tg_ops t)" "ys = drop (Suc i) (tg_ops t)" "a = tg_ops t ! i"
  note d = this
  have "tg_ops t = xs @ a # ys" using completion(1) unfolding d by (rule id_take_nth_drop)
  with completion(2) have "length (filter on_stream xs) + (if on_stream a then 1 else 0) + length (filter on_stream ys) \<le> (if tg_writing t then 1 else 0)"
    by (simp add: one_stream_def split: if_splits)
  then show ?case unfolding d [symmetric]
    by (cases a) (auto simp: one_stream_def start_write_def start_op_def start_resolve_def Let_def split: if_splits option.splits)
qed (auto simp: one_stream_def register_on_read_def start_post_def start_resolve_def start_op_def)

lemma one_stream_reachable: "(trig_step Q sni)\<^sup>*\<^sup>* (make_trigger Q) t \<Longrightarrow> one_stream t"
  by (induction rule: rtranclp_induct) (auto simp: one_stream_step, simp add: one_stream_def make_trigger_def)

text \<open>
  C29. A failed write is the end of a trigger. The flag that a write is under way stays set when a write fails, so the retry, after a new connection, puts
  the request into the queue instead of writing it, and nothing ever empties the queue: in no further run, with any number of posts and any
  outcome of the operations, is a request sent or a response reported.
\<close>

theorem failed_write_ends_trigger:
  assumes "(trig_step Q sni)\<^sup>*\<^sup>* (make_trigger Q) t" "tg_ops t = xs @ Do_write req # ys"
    and "t1 = on_complete Q sni (Do_write req) True (t\<lparr>tg_ops := xs @ ys\<rparr>)" "(trig_step Q sni)\<^sup>*\<^sup>* t1 t2"
  shows "tg_sent t2 = tg_sent t \<and> tg_calls t2 = tg_calls t \<and> tg_writing t2"
proof -
  have "parked t1" using one_stream_reachable [OF assms(1)] assms(2,3)
    by (auto simp: parked_def one_stream_def start_resolve_def start_op_def split: if_splits)
  moreover have "tg_sent t1 = tg_sent t" "tg_calls t1 = tg_calls t" using assms(3) by (simp_all add: start_resolve_def start_op_def)
  moreover have "parked t2 \<and> tg_sent t2 = tg_sent t1 \<and> tg_calls t2 = tg_calls t1"
    using assms(4) \<open>parked t1\<close> by (induction rule: rtranclp_induct) (auto dest: parked_step)
  ultimately show ?thesis by (simp add: parked_def)
qed

theorem trigger_sends_all_witness:
  "mset (tg_sent (run_ok list_cqueue (replicate 10 0) (foldl (\<lambda>t r. start_post True r t) (make_trigger list_cqueue) [7, 8 :: nat]))) = {#7, 8#}"
  using trigger_sends_all [OF list_cqueue_ok _ refl, of "replicate 10 0" "[7, 8 :: nat]"] by (simp add: add_mset_commute)

text \<open>A request is resolved, connected and shaken hands for, and then its write fails.\<close>

lemma sample_write_reachable:
  "\<exists>t. (trig_step list_cqueue True)\<^sup>*\<^sup>* (make_trigger list_cqueue) t \<and> tg_ops t = [] @ Do_write (7 :: nat) # [] \<and> tg_sent t = []"
proof -
  let ?t = "start_post True (7 :: nat) (make_trigger list_cqueue)"
  let ?s = "\<lambda>t. on_complete list_cqueue True (tg_ops t ! 0) False (t\<lparr>tg_ops := take 0 (tg_ops t) @ drop (Suc 0) (tg_ops t)\<rparr>)"
  have ops: "0 < length (tg_ops ?t)" "0 < length (tg_ops (?s ?t))" "0 < length (tg_ops (?s (?s ?t)))"
    by (simp_all add: make_trigger_def start_post_def start_resolve_def start_op_def)
  have "trig_step list_cqueue True t (?s t)" if "0 < length (tg_ops t)" for t using that by (rule trig_step.completion)
  note steps = this [OF ops(1)] this [OF ops(2)] this [OF ops(3)]
  have "trig_step list_cqueue True (make_trigger list_cqueue) ?t" by (rule trig_step.post)
  then have "(trig_step list_cqueue True)\<^sup>*\<^sup>* (make_trigger list_cqueue) (?s (?s (?s ?t)))" using steps by (meson converse_rtranclp_into_rtranclp rtranclp.rtrancl_refl)
  moreover have "tg_ops (?s (?s (?s ?t))) = [Do_write 7]" "tg_sent (?s (?s (?s ?t))) = []"
    by (simp_all add: make_trigger_def start_post_def start_resolve_def start_op_def start_write_def)
  ultimately show ?thesis by auto
qed

theorem failed_write_ends_trigger_witness:
  "\<exists>t t1. (trig_step list_cqueue True)\<^sup>*\<^sup>* (make_trigger list_cqueue) t \<and> tg_ops t = [Do_write (7 :: nat)] \<and>
     t1 = on_complete list_cqueue True (Do_write 7) True (t\<lparr>tg_ops := []\<rparr>) \<and>
     (\<forall>t2. (trig_step list_cqueue True)\<^sup>*\<^sup>* t1 t2 \<longrightarrow> tg_sent t2 = [])"
proof -
  obtain t where t: "(trig_step list_cqueue True)\<^sup>*\<^sup>* (make_trigger list_cqueue) t" "tg_ops t = [] @ Do_write (7 :: nat) # []" "tg_sent t = []"
    using sample_write_reachable by blast
  show ?thesis using failed_write_ends_trigger [OF t(1,2) refl] t by auto
qed

end
