(* ===== verification/Reporter.thy ===== *)
theory Reporter
  imports External "HOL-Library.Signed_Division"
begin

text \<open>
  The statistics of the proxy, the class \<^verbatim>\<open>reporter\<close> of \<^verbatim>\<open>proxy/launcher-base-types.hpp\<close>: counters that the launcher's notices update and a
  report that every execution of the policies writes. Times are nanoseconds of the clock of the proxy, passed to every handler. Shown: the numbers
  of the reports add up to what happened.
\<close>

section \<open>State\<close>

record worker_info =
  wi_start_duration :: int
  wi_start_time :: int
  wi_end_time :: int
  wi_finished_job_count :: u32
  wi_cache_transfer :: bool
  wi_cache_hits :: u32
  wi_cache_evictions :: u32

text \<open>The average latency of an entry of the history is kept as the sum and the number it is divided by.\<close>

record history =
  hi_worker_count :: u64
  hi_number_of_incoming_request :: u64
  hi_finished_job_count :: u64
  hi_job_latency :: "u64 \<times> u64"
  hi_when :: int

record ('i, 'q) reporter =
  rt_start_time :: int
  rt_started_worker :: u32
  rt_pending :: 'q
  rt_workers :: 'i
  rt_worker_count :: u64
  rt_number_of_incoming_request :: u64
  rt_finished_job_count_global :: u64
  rt_job_latency_total :: u64
  rt_history :: "history list"

record df_report =
  dr_start_time :: int
  dr_start_duration :: int
  dr_duration :: int
  dr_finished_job_count :: u32

record report =
  re_total_duration :: int
  re_started_df :: u32
  re_df :: "df_report list"

record ('i, 'q) reporter_libs =
  rl_workers :: "(u64, worker_info, 'i) chmap"
  rl_queue :: "(int, 'q) cqueue"

definition reporter_new :: "('i, 'q) reporter_libs \<Rightarrow> int \<Rightarrow> ('i, 'q) reporter" where
  "reporter_new L now = \<lparr>rt_start_time = now, rt_started_worker = 0, rt_pending = cq_empty (rl_queue L), rt_workers = chm_empty (rl_workers L),
     rt_worker_count = 0, rt_number_of_incoming_request = 0, rt_finished_job_count_global = 0, rt_job_latency_total = 0, rt_history = []\<rparr>"

section \<open>Notices\<close>

text \<open>A worker that was not deregistered has run until now.\<close>

definition df_stat :: "int \<Rightarrow> worker_info \<Rightarrow> df_report" where
  "df_stat now info =
     \<lparr>dr_start_time = wi_start_time info, dr_start_duration = wi_start_duration info,
      dr_duration = (let duration = wi_end_time info - wi_start_time info in if duration = 0 then now - wi_start_time info else duration),
      dr_finished_job_count = wi_finished_job_count info\<rparr>"

definition reporter_execute :: "('i, 'q) reporter_libs \<Rightarrow> int \<Rightarrow> ('i, 'q) reporter \<Rightarrow> ('i, 'q) reporter \<times> report" where
  "reporter_execute L now r =
     (let n = rt_finished_job_count_global r;
          h = \<lparr>hi_worker_count = rt_worker_count r, hi_number_of_incoming_request = rt_number_of_incoming_request r,
               hi_finished_job_count = n, hi_job_latency = (rt_job_latency_total r, if n = 0 then 1 else n), hi_when = now\<rparr>
      in (r\<lparr>rt_history := rt_history r @ [h], rt_finished_job_count_global := 0, rt_job_latency_total := 0, rt_number_of_incoming_request := 0\<rparr>,
          \<lparr>re_total_duration = now - rt_start_time r, re_started_df = rt_started_worker r,
           re_df = map (df_stat now \<circ> snd) (chm_range (rl_workers L) (rt_workers r))\<rparr>))"

definition reporter_finished :: "('i, 'q) reporter_libs \<Rightarrow> int \<Rightarrow> u64 \<Rightarrow> int \<Rightarrow> ('i, 'q) reporter \<Rightarrow> ('i, 'q) reporter" where
  "reporter_finished L now wid start_time_point r =
     r\<lparr>rt_finished_job_count_global := rt_finished_job_count_global r + 1,
       rt_job_latency_total := rt_job_latency_total r + of_int ((now - start_time_point) sdiv 1000),
       rt_workers := (case chm_find (rl_workers L) (rt_workers r) wid of
           None \<Rightarrow> rt_workers r
         | Some info \<Rightarrow> chm_write (rl_workers L) (rt_workers r) wid (info\<lparr>wi_finished_job_count := wi_finished_job_count info + 1\<rparr>))\<rparr>"

definition reporter_started :: "('i, 'q) reporter \<Rightarrow> ('i, 'q) reporter" where
  "reporter_started r = r\<lparr>rt_number_of_incoming_request := rt_number_of_incoming_request r + 1\<rparr>"

definition reporter_starting :: "('i, 'q) reporter_libs \<Rightarrow> int \<Rightarrow> ('i, 'q) reporter \<Rightarrow> ('i, 'q) reporter" where
  "reporter_starting L now r = r\<lparr>rt_pending := cq_push (rl_queue L) (rt_pending r) now\<rparr>"

text \<open>Without a pending start the time of the start is the epoch.\<close>

definition reporter_registered :: "('i, 'q) reporter_libs \<Rightarrow> int \<Rightarrow> u64 \<Rightarrow> bool \<Rightarrow> ('i, 'q) reporter \<Rightarrow> ('i, 'q) reporter" where
  "reporter_registered L now wid cache_transfer r =
     (let (started_time, q) = (case cq_try_pop (rl_queue L) (rt_pending r) of Some (t, q) \<Rightarrow> (t, q) | None \<Rightarrow> (0, rt_pending r));
          ws = chm_emplace (rl_workers L) (rt_workers r) wid
                 \<lparr>wi_start_duration = now - started_time, wi_start_time = now, wi_end_time = now, wi_finished_job_count = 0,
                  wi_cache_transfer = False, wi_cache_hits = 0, wi_cache_evictions = 0\<rparr>
      in r\<lparr>rt_pending := q, rt_started_worker := rt_started_worker r + 1, rt_worker_count := rt_worker_count r + 1,
           rt_workers := (case chm_find (rl_workers L) ws wid of
               None \<Rightarrow> ws | Some info \<Rightarrow> chm_write (rl_workers L) ws wid (info\<lparr>wi_cache_transfer := cache_transfer\<rparr>))\<rparr>)"

definition reporter_deregistered :: "('i, 'q) reporter_libs \<Rightarrow> int \<Rightarrow> u64 \<Rightarrow> u32 \<Rightarrow> u32 \<Rightarrow> ('i, 'q) reporter \<Rightarrow> ('i, 'q) reporter" where
  "reporter_deregistered L now wid cache_hits cache_evictions r =
     r\<lparr>rt_worker_count := rt_worker_count r - 1,
       rt_workers := (case chm_find (rl_workers L) (rt_workers r) wid of
           None \<Rightarrow> rt_workers r
         | Some info \<Rightarrow> chm_write (rl_workers L) (rt_workers r) wid
             (info\<lparr>wi_end_time := now, wi_cache_hits := cache_hits, wi_cache_evictions := cache_evictions\<rparr>))\<rparr>"

section \<open>Runs\<close>

datatype rnotice =
    R_execute int
  | R_finished int u64 int
  | R_started
  | R_starting int
  | R_registered int u64 bool
  | R_deregistered int u64 u32 u32

fun rnotify :: "('i, 'q) reporter_libs \<Rightarrow> rnotice \<Rightarrow> ('i, 'q) reporter \<Rightarrow> ('i, 'q) reporter" where
  "rnotify L (R_execute now) r = fst (reporter_execute L now r)"
| "rnotify L (R_finished now wid t) r = reporter_finished L now wid t r"
| "rnotify L R_started r = reporter_started r"
| "rnotify L (R_starting now) r = reporter_starting L now r"
| "rnotify L (R_registered now wid b) r = reporter_registered L now wid b r"
| "rnotify L (R_deregistered now wid h e) r = reporter_deregistered L now wid h e r"

definition rnotices :: "('i, 'q) reporter_libs \<Rightarrow> rnotice list \<Rightarrow> ('i, 'q) reporter \<Rightarrow> ('i, 'q) reporter" where
  "rnotices L es r = foldl (\<lambda>r e. rnotify L e r) r es"

fun is_finished :: "rnotice \<Rightarrow> bool" where
  "is_finished (R_finished now wid t) = True" | "is_finished _ = False"

fun is_started :: "rnotice \<Rightarrow> bool" where
  "is_started R_started = True" | "is_started _ = False"

fun is_registered :: "rnotice \<Rightarrow> bool" where
  "is_registered (R_registered now wid b) = True" | "is_registered _ = False"

fun is_deregistered :: "rnotice \<Rightarrow> bool" where
  "is_deregistered (R_deregistered now wid h e) = True" | "is_deregistered _ = False"

text \<open>The number of finished jobs of a worker since it registered first.\<close>

fun finished_of :: "u64 \<Rightarrow> rnotice list \<Rightarrow> nat" where
  "finished_of wid [] = 0"
| "finished_of wid (R_finished now w t # es) = (if w = wid then 1 else 0) + finished_of wid es"
| "finished_of wid (_ # es) = finished_of wid es"

abbreviation count :: "('a \<Rightarrow> bool) \<Rightarrow> 'a list \<Rightarrow> nat" where
  "count P xs \<equiv> length (filter P xs)"

lemmas reporter_defs = reporter_execute_def reporter_finished_def reporter_started_def reporter_starting_def reporter_registered_def
  reporter_deregistered_def

lemma counters_add_up:
  fixes L :: "('i, 'q) reporter_libs" and es now
  defines "r \<equiv> rnotices L es (reporter_new L now)"
  shows "rt_worker_count r = of_nat (count is_registered es) - of_nat (count is_deregistered es)"
    and "sum_list (map hi_finished_job_count (rt_history r)) + rt_finished_job_count_global r = of_nat (count is_finished es)"
    and "sum_list (map hi_number_of_incoming_request (rt_history r)) + rt_number_of_incoming_request r = of_nat (count is_started es)"
proof -
  have "rt_worker_count (rnotices L es (reporter_new L now)) = of_nat (count is_registered es) - of_nat (count is_deregistered es) \<and>
    sum_list (map hi_finished_job_count (rt_history (rnotices L es (reporter_new L now)))) +
      rt_finished_job_count_global (rnotices L es (reporter_new L now)) = of_nat (count is_finished es) \<and>
    sum_list (map hi_number_of_incoming_request (rt_history (rnotices L es (reporter_new L now)))) +
      rt_number_of_incoming_request (rnotices L es (reporter_new L now)) = of_nat (count is_started es)"
  proof (induction es rule: rev_induct)
    case Nil
    show ?case by (simp add: rnotices_def reporter_new_def)
  next
    case (snoc e es)
    let ?r = "rnotices L es (reporter_new L now)"
    have step: "rnotices L (es @ [e]) (reporter_new L now) = rnotify L e ?r" by (simp add: rnotices_def)
    show ?case using snoc unfolding step
      by (cases e) (auto simp: reporter_defs Let_def algebra_simps split: prod.splits)
  qed
  then show "rt_worker_count r = of_nat (count is_registered es) - of_nat (count is_deregistered es)"
    "sum_list (map hi_finished_job_count (rt_history r)) + rt_finished_job_count_global r = of_nat (count is_finished es)"
    "sum_list (map hi_number_of_incoming_request (rt_history r)) + rt_number_of_incoming_request r = of_nat (count is_started es)"
    unfolding r_def by blast+
qed

definition info_of :: "('i, 'q) reporter_libs \<Rightarrow> ('i, 'q) reporter \<Rightarrow> u64 \<Rightarrow> worker_info option" where
  "info_of L r = chm_find (rl_workers L) (rt_workers r)"

lemma info_kept:
  assumes ok: "chmap_ok (rl_workers L)"
  shows "info_of L r wid = Some i \<Longrightarrow>
    \<exists>i'. info_of L (rnotices L es r) wid = Some i' \<and> wi_finished_job_count i' = wi_finished_job_count i + of_nat (finished_of wid es)"
proof (induction es arbitrary: r i)
  case (Cons e es)
  let ?d = "of_nat (finished_of wid [e]) :: u32"
  have "\<exists>i1. info_of L (rnotify L e r) wid = Some i1 \<and> wi_finished_job_count i1 = wi_finished_job_count i + ?d"
    using Cons.prems
    by (cases e) (auto simp: info_of_def reporter_defs Let_def chmap_laws [OF ok] split: prod.splits option.splits)
  then obtain i1 where i1: "info_of L (rnotify L e r) wid = Some i1" "wi_finished_job_count i1 = wi_finished_job_count i + ?d" by blast
  have "finished_of wid (e # es) = finished_of wid [e] + finished_of wid es" by (cases e) auto
  with Cons.IH [OF i1(1)] i1(2) show ?case by (auto simp: rnotices_def)
qed (simp add: rnotices_def)

lemma info_absent:
  assumes ok: "chmap_ok (rl_workers L)"
  shows "info_of L r wid = None \<Longrightarrow> \<forall>t b. R_registered t wid b \<notin> set es \<Longrightarrow> info_of L (rnotices L es r) wid = None"
proof (induction es arbitrary: r)
  case (Cons e es)
  have "info_of L (rnotify L e r) wid = None"
    using Cons.prems
    by (cases e) (auto simp: info_of_def reporter_defs Let_def chmap_laws [OF ok] split: prod.splits option.splits)
  with Cons show ?case by (simp add: rnotices_def)
qed (simp add: rnotices_def)

section \<open>Properties\<close>

text \<open>
  The statistics add up. After any sequence of notices the number of workers is the number of registrations minus the number of
  deregistrations, the finished jobs and the incoming requests of all entries of the history and of the running interval are those that were notified, and a
  registered worker has as many finished jobs as were notified for it since it first registered; all modulo the widths of the counters.
\<close>

theorem statistics_add_up:
  assumes ok: "chmap_ok (rl_workers L)" and r: "r = rnotices L es (reporter_new L now)"
    and es: "es = es1 @ R_registered t wid b # es2" "\<forall>t b. R_registered t wid b \<notin> set es1"
  shows "rt_worker_count r = of_nat (count is_registered es) - of_nat (count is_deregistered es) \<and>
    sum_list (map hi_finished_job_count (rt_history r)) + rt_finished_job_count_global r = of_nat (count is_finished es) \<and>
    sum_list (map hi_number_of_incoming_request (rt_history r)) + rt_number_of_incoming_request r = of_nat (count is_started es) \<and>
    (\<exists>info. chm_find (rl_workers L) (rt_workers r) wid = Some info \<and> wi_finished_job_count info = of_nat (finished_of wid es2))"
proof -
  let ?r1 = "rnotices L es1 (reporter_new L now)"
  have "info_of L ?r1 wid = None"
    using info_absent [OF ok _ es(2)] by (simp add: info_of_def reporter_new_def chmap_laws [OF ok])
  then have "\<exists>i. info_of L (rnotify L (R_registered t wid b) ?r1) wid = Some i \<and> wi_finished_job_count i = 0"
    by (auto simp: info_of_def reporter_defs Let_def chmap_laws [OF ok] split: prod.splits option.splits)
  then obtain i where i: "info_of L (rnotify L (R_registered t wid b) ?r1) wid = Some i" "wi_finished_job_count i = 0" by blast
  have "r = rnotices L es2 (rnotify L (R_registered t wid b) ?r1)" unfolding r es(1) by (simp add: rnotices_def)
  with info_kept [OF ok i(1), of es2] i(2) counters_add_up [of L es now] r show ?thesis by (simp add: info_of_def)
qed

theorem statistics_add_up_witness:
  "\<exists>r. r = rnotices \<lparr>rl_workers = al_chmap, rl_queue = list_cqueue\<rparr> [R_starting 3, R_registered 5 7 False, R_started, R_finished 9 7 5, R_execute 10] (reporter_new \<lparr>rl_workers = al_chmap, rl_queue = list_cqueue\<rparr> 0) \<and>
     rt_worker_count r = 1 \<and> (\<exists>info. chm_find al_chmap (rt_workers r) 7 = Some info \<and> wi_finished_job_count info = 1)"
  using statistics_add_up [where L = "\<lparr>rl_workers = al_chmap, rl_queue = list_cqueue\<rparr>" and es = "[R_starting 3, R_registered 5 7 False, R_started, R_finished 9 7 5, R_execute 10]"
      and ?es1.0 = "[R_starting 3]" and ?es2.0 = "[R_started, R_finished 9 7 5, R_execute 10]" and t = 5 and wid = 7 and b = False and now = 0, OF _ refl]
  by (simp add: al_chmap_ok)

end
