(* ===== verification/Version.thy ===== *)
theory Version
  imports Prelude
begin

text \<open>
  The version numbers of writes, \<^verbatim>\<open>functions/datafunction/version.hpp\<close>: the seconds since the epoch, shifted by eight bits, with a
  counter of the writes of the second in the low bits. The counter is a \<^verbatim>\<open>char\<close>, which is signed on the hosts of the system. Shown: the first 128 versions
  of a second are increasing and differ from those of other seconds, the next 128 are the same in every second.
\<close>

unbundle bit_operations_syntax

section \<open>Operations\<close>

record vstate =
  vs_counter :: u8
  vs_lastgen :: int

definition df_version :: "int \<Rightarrow> vstate \<Rightarrow> u32 \<times> vstate" where
  "df_version epoch s =
     (let s = (if epoch = vs_lastgen s then s\<lparr>vs_counter := vs_counter s + 1\<rparr> else s\<lparr>vs_counter := 0, vs_lastgen := epoch\<rparr>)
      in (push_bit 8 (of_int epoch) OR scast (vs_counter s), s))"

fun versions :: "int list \<Rightarrow> vstate \<Rightarrow> u32 list" where
  "versions [] s = []"
| "versions (e # es) s = (let (v, s) = df_version e s in v # versions es s)"

section \<open>The versions of a second\<close>

lemma versions_same_second:
  "vs_lastgen s = e \<Longrightarrow> versions (replicate n e) s = map (\<lambda>k. push_bit 8 (of_int e) OR scast (vs_counter s + of_nat (Suc k))) [0..<n]"
proof (induction n arbitrary: s)
  case (Suc n)
  have "versions (replicate (Suc n) e) s = (push_bit 8 (of_int e) OR scast (vs_counter s + 1)) # versions (replicate n e) (s\<lparr>vs_counter := vs_counter s + 1\<rparr>)"
    using Suc.prems by (simp add: df_version_def Let_def)
  also have "\<dots> = map (\<lambda>k. push_bit 8 (of_int e) OR scast (vs_counter s + of_nat (Suc k))) (0 # map Suc [0..<n])"
    using Suc.IH [of "s\<lparr>vs_counter := vs_counter s + 1\<rparr>"] Suc.prems by (simp add: add.assoc)
  finally show ?case by (simp only: map_Suc_upt upt_conv_Cons [of 0 "Suc n"] zero_less_Suc if_True)
qed simp

lemma versions_of_second:
  assumes "vs_lastgen s \<noteq> e" "k < n"
  shows "versions (replicate n e) s ! k = push_bit 8 (of_int e) OR scast (of_nat k :: u8)"
proof -
  obtain m where n: "n = Suc m" using assms(2) by (cases n) auto
  have "versions (replicate n e) s = (push_bit 8 (of_int e) OR scast (0 :: u8)) # versions (replicate m e) (s\<lparr>vs_counter := 0, vs_lastgen := e\<rparr>)"
    using assms(1) by (simp add: n df_version_def Let_def)
  then show ?thesis using assms(2) by (cases k) (simp_all add: n versions_same_second)
qed

lemma scast_low: "k < 128 \<Longrightarrow> (scast (of_nat k :: u8) :: u32) = of_int (int k)"
  by (simp add: signed_of_nat signed_take_bit_int_eq_self)

lemma scast_high:
  assumes "128 \<le> k" "k < 256"
  shows "(scast (of_nat k :: u8) :: u32) = of_int (int k - 256)"
proof -
  have "(int k - 128) mod 256 = int k - 128" using assms by (intro mod_pos_pos_trivial) auto
  then have "(int k + 128) mod 256 - 128 = int k - 256" using mod_add_self2 [of "int k - 128" 256] by (simp add: add.commute)
  then have "signed_take_bit 7 (int k) = int k - 256"
    unfolding signed_take_bit_eq_take_bit_shift by (simp add: take_bit_eq_mod)
  then show ?thesis by (simp add: signed_of_nat)
qed

lemma small_bits: "k < 256 \<Longrightarrow> 8 \<le> n \<Longrightarrow> \<not> bit (int k) n"
proof -
  assume k: "k < 256" "8 \<le> n"
  then have "2 ^ 8 \<le> (2 :: nat) ^ n" by (intro power_increasing) auto
  with k have "k div 2 ^ n = 0" by simp
  then have "\<not> bit k n" by (simp add: bit_iff_odd)
  then show ?thesis by (simp add: bit_of_nat_iff_bit)
qed

lemma negative_bits: "128 \<le> k \<Longrightarrow> k < 256 \<Longrightarrow> 8 \<le> n \<Longrightarrow> bit (int k - 256) n"
proof -
  assume k: "128 \<le> k" "k < 256" "8 \<le> n"
  have "\<not> bit (int (255 - k)) n" using k(3) by (intro small_bits) auto
  moreover have "int k - 256 = NOT (int (255 - k))" using k by (simp add: not_int_def)
  ultimately show ?thesis by (simp add: bit_not_iff)
qed

lemma version_low:
  assumes "k < 128"
  shows "push_bit 8 (of_int e) OR scast (of_nat k :: u8) = (of_int (e * 256 + int k) :: u32)"
proof -
  have "push_bit 8 (of_int e) AND (of_int (int k) :: u32) = 0"
    using small_bits [of k] assms by (intro bit_eqI) (auto simp: bit_simps)
  then have "push_bit 8 (of_int e) OR (of_int (int k) :: u32) = push_bit 8 (of_int e) + of_int (int k)"
    by (simp add: disjunctive_add_eq_or)
  then show ?thesis by (simp add: scast_low [OF assms] push_bit_eq_mult)
qed

lemma version_high:
  assumes "128 \<le> k" "k < 256"
  shows "push_bit 8 (of_int e) OR scast (of_nat k :: u8) = (of_int (int k - 256) :: u32)"
  unfolding scast_high [OF assms]
proof (rule bit_eqI)
  fix n assume "possible_bit TYPE(u32) n"
  then have "n < 32" by simp
  moreover have "bit (of_int (int k - 256) :: u32) n \<longleftrightarrow> n < 32 \<and> bit (int k - 256) n" for n
    unfolding bit_word_of_int_iff by simp
  ultimately show "bit (push_bit 8 (of_int e) OR of_int (int k - 256) :: u32) n = bit (of_int (int k - 256) :: u32) n"
    using negative_bits [OF assms, of n] by (auto simp: bit_or_iff bit_push_bit_iff)
qed

section \<open>Properties\<close>

text \<open>
  Versions within a second. The first 128 versions of a second are the second times 256 plus the number of the write; the following 128 versions have all high bits set by the
  sign extension of the counter and do not depend on the second: two writes in different seconds get the same version.
\<close>

theorem versions_of_busy_seconds:
  assumes "vs_lastgen s \<noteq> e" "k < n" "k < 256"
  shows "versions (replicate n e) s ! k = (if k < 128 then of_int (e * 256 + int k) else of_int (int k - 256))"
  using versions_of_second [OF assms(1,2)] version_low [of k e] version_high [of k e] assms(3) by simp

theorem versions_of_busy_seconds_witness:
  "versions (replicate 200 5) \<lparr>vs_counter = 0, vs_lastgen = 0\<rparr> ! 3 = 1283 \<and>
   versions (replicate 200 5) \<lparr>vs_counter = 0, vs_lastgen = 0\<rparr> ! 150 = versions (replicate 200 6) \<lparr>vs_counter = 0, vs_lastgen = 0\<rparr> ! 150"
  using versions_of_busy_seconds [of "\<lparr>vs_counter = 0, vs_lastgen = 0\<rparr>" 5 3 200] versions_of_busy_seconds [of "\<lparr>vs_counter = 0, vs_lastgen = 0\<rparr>" 5 150 200]
    versions_of_busy_seconds [of "\<lparr>vs_counter = 0, vs_lastgen = 0\<rparr>" 6 150 200]
  by simp

end
